(* ===== verification/FS_Prelude.thy ===== *)
theory FS_Prelude
  imports Main "HOL-Library.Word" "HOL-Library.Signed_Division" "HOL-Library.Monad_Syntax"
begin

text \<open>
  Shared ground of the development: the C integer types as words, memory as byte lists with
  reads and writes at an offset (\<open>mget\<close>, \<open>mput\<close>), the little-endian
  encodings of \<open>ushort\<close>, \<open>blknum_t\<close> and \<open>int\<close>, the counted loops of the
  source (\<open>loop\<close> for a body that may reach undefined behaviour, \<open>loop_ret\<close> for a
  body with an early return) with their invariant rules, and the C string functions the
  program calls.
\<close>

unbundle bit_operations_syntax

type_synonym byte = "8 word"
type_synonym ushort = "16 word"
type_synonym blknum_t = "32 word"

named_theorems mem_simps \<open>reads and writes of byte memory\<close>

section \<open>Byte memory\<close>

definition mget :: "nat \<Rightarrow> nat \<Rightarrow> 'a list \<Rightarrow> 'a list" where
  "mget off n m = take n (drop off m)"

definition mput :: "nat \<Rightarrow> 'a list \<Rightarrow> 'a list \<Rightarrow> 'a list" where
  "mput off bs m = take off m @ bs @ drop (off + length bs) m"

lemma length_mget [simp]: "length (mget off n m) = min n (length m - off)"
  by (simp add: mget_def)

lemma length_mput [simp]: "off + length bs \<le> length m \<Longrightarrow> length (mput off bs m) = length m"
  by (simp add: mput_def)

lemma nth_mget: "i < n \<Longrightarrow> off + i < length m \<Longrightarrow> mget off n m ! i = m ! (off + i)"
  by (simp add: mget_def)

lemma nth_mput:
  "off + length bs \<le> length m \<Longrightarrow> i < length m \<Longrightarrow>
   mput off bs m ! i = (if off \<le> i \<and> i < off + length bs then bs ! (i - off) else m ! i)"
  by (auto simp: mput_def nth_append min_def)

lemma mget_mput_in [mem_simps]:
  assumes "off + length bs \<le> length m" "off \<le> a" "a + n \<le> off + length bs"
  shows "mget a n (mput off bs m) = mget (a - off) n bs"
  using assms by (intro nth_equalityI) (auto simp: nth_mget nth_mput)

lemma mget_mput_out [mem_simps]:
  assumes "off + length bs \<le> length m" "a + n \<le> off \<or> off + length bs \<le> a"
  shows "mget a n (mput off bs m) = mget a n m"
  using assms by (intro nth_equalityI) (auto simp: nth_mget nth_mput)

lemma mget_mput_same [mem_simps]:
  "off + length bs \<le> length m \<Longrightarrow> n = length bs \<Longrightarrow> mget off n (mput off bs m) = bs"
  by (simp add: mget_mput_in) (simp add: mget_def)

lemma mget_mget [mem_simps]:
  assumes "a + n \<le> k"
  shows "mget a n (mget b k m) = mget (b + a) n m"
proof -
  have "min n (k - a) = n" using assms by simp
  then show ?thesis by (simp add: mget_def drop_take add.commute)
qed

lemma mget_all [mem_simps]: "length m \<le> n \<Longrightarrow> mget 0 n m = m"
  by (simp add: mget_def)

lemma mput_all [mem_simps]: "length bs = length m \<Longrightarrow> mput 0 bs m = bs"
  by (simp add: mput_def)

lemma mput_mput_same:
  "off + length bs \<le> length m \<Longrightarrow> length cs = length bs \<Longrightarrow>
   mput off cs (mput off bs m) = mput off cs m"
  by (intro nth_equalityI) (auto simp: nth_mput)

lemma mput_mget_id: "off + n \<le> length m \<Longrightarrow> mput off (mget off n m) m = m"
  by (intro nth_equalityI) (auto simp: nth_mput nth_mget)

lemma mget_append1: "a + n \<le> length xs \<Longrightarrow> mget a n (xs @ ys) = mget a n xs"
  by (simp add: mget_def)

lemma mget_append2: "length xs \<le> a \<Longrightarrow> mget a n (xs @ ys) = mget (a - length xs) n ys"
  by (simp add: mget_def)

lemma mput_append_step:
  assumes "off + length xs + length ys \<le> length m"
  shows "mput (off + length xs) ys (mput off xs m) = mput off (xs @ ys) m"
  using assms by (intro nth_equalityI) (auto simp: nth_mput nth_append)

lemma mget_split: "mget a (n + k) m = mget a n m @ mget (a + n) k m"
  unfolding mget_def by (simp only: take_add drop_drop) (simp add: add.commute)

section \<open>Little-endian encodings\<close>

text \<open>Integers in memory: the target is little-endian (x86), the layout the on-disk format has.\<close>

lemma unat_of_nat_ushort: "n < 65536 \<Longrightarrow> unat (of_nat n :: ushort) = n"
  by (simp add: unsigned_of_nat take_bit_nat_eq_self)

lemma uint_of_nat_ushort: "n < 65536 \<Longrightarrow> uint (of_nat n :: ushort) = int n"
  by (simp only: uint_nat unat_of_nat_ushort)

definition le16 :: "ushort \<Rightarrow> byte list" where
  "le16 w = [ucast w, ucast (drop_bit 8 w)]"

definition rd16 :: "byte list \<Rightarrow> ushort" where
  "rd16 bs = ucast (bs ! 0) OR push_bit 8 (ucast (bs ! 1))"

definition le32 :: "blknum_t \<Rightarrow> byte list" where
  "le32 w = [ucast w, ucast (drop_bit 8 w), ucast (drop_bit 16 w), ucast (drop_bit 24 w)]"

definition rd32 :: "byte list \<Rightarrow> blknum_t" where
  "rd32 bs = ucast (bs ! 0) OR push_bit 8 (ucast (bs ! 1))
     OR push_bit 16 (ucast (bs ! 2)) OR push_bit 24 (ucast (bs ! 3))"

lemma length_le16 [simp]: "length (le16 w) = 2"
  by (simp add: le16_def)

lemma length_le32 [simp]: "length (le32 w) = 4"
  by (simp add: le32_def)

lemma rd16_le16 [simp]: "rd16 (le16 w) = w"
  by (rule bit_word_eqI) (auto simp: rd16_def le16_def bit_simps)

lemma rd32_le32 [simp]: "rd32 (le32 w) = w"
proof (rule bit_word_eqI)
  fix n :: nat
  assume n: "n < LENGTH(32)"
  consider "n < 8" | "8 \<le> n" "n < 16" | "16 \<le> n" "n < 24" | "24 \<le> n" by linarith
  then show "bit (rd32 (le32 w)) n = bit w n"
    using n by cases (auto simp: rd32_def le32_def bit_simps)
qed

definition get16 :: "nat \<Rightarrow> byte list \<Rightarrow> ushort" where
  "get16 off m = rd16 (mget off 2 m)"

definition put16 :: "nat \<Rightarrow> ushort \<Rightarrow> byte list \<Rightarrow> byte list" where
  "put16 off w m = mput off (le16 w) m"

definition get32 :: "nat \<Rightarrow> byte list \<Rightarrow> blknum_t" where
  "get32 off m = rd32 (mget off 4 m)"

definition put32 :: "nat \<Rightarrow> blknum_t \<Rightarrow> byte list \<Rightarrow> byte list" where
  "put32 off w m = mput off (le32 w) m"

text \<open>A C \<open>int\<close> is a mathematical integer in the model; storing it wraps to 32 bits.\<close>

definition get_int :: "nat \<Rightarrow> byte list \<Rightarrow> int" where
  "get_int off m = sint (get32 off m)"

definition put_int :: "nat \<Rightarrow> int \<Rightarrow> byte list \<Rightarrow> byte list" where
  "put_int off v m = put32 off (word_of_int v) m"

definition c_int :: "int \<Rightarrow> int" where
  "c_int v = signed_take_bit 31 v"

lemma length_put16 [simp]: "off + 2 \<le> length m \<Longrightarrow> length (put16 off w m) = length m"
  by (simp add: put16_def)

lemma length_put32 [simp]: "off + 4 \<le> length m \<Longrightarrow> length (put32 off w m) = length m"
  by (simp add: put32_def)

lemma length_put_int [simp]: "off + 4 \<le> length m \<Longrightarrow> length (put_int off v m) = length m"
  by (simp add: put_int_def)

lemma c_int_id: "- (2 ^ 31) \<le> v \<Longrightarrow> v < 2 ^ 31 \<Longrightarrow> c_int v = v"
  by (simp add: c_int_def signed_take_bit_int_eq_self)

lemma sint_word_of_int_c_int: "sint (word_of_int v :: 32 word) = c_int v"
  by (simp add: c_int_def sint_sbintrunc')

lemma get16_put16_same [mem_simps]: "off + 2 \<le> length m \<Longrightarrow> get16 off (put16 off w m) = w"
  by (simp add: get16_def put16_def mem_simps)

lemma get32_put32_same [mem_simps]: "off + 4 \<le> length m \<Longrightarrow> get32 off (put32 off w m) = w"
  by (simp add: get32_def put32_def mem_simps)

lemma get_int_put_int_same [mem_simps]:
  "off + 4 \<le> length m \<Longrightarrow> get_int off (put_int off v m) = c_int v"
  by (simp add: get_int_def put_int_def mem_simps sint_word_of_int_c_int)

lemma get16_mput_out [mem_simps]:
  "off + length bs \<le> length m \<Longrightarrow> a + 2 \<le> off \<or> off + length bs \<le> a \<Longrightarrow>
   get16 a (mput off bs m) = get16 a m"
  by (simp add: get16_def mem_simps)

lemma get32_mput_out [mem_simps]:
  "off + length bs \<le> length m \<Longrightarrow> a + 4 \<le> off \<or> off + length bs \<le> a \<Longrightarrow>
   get32 a (mput off bs m) = get32 a m"
  by (simp add: get32_def mem_simps)

lemma get_int_mput_out [mem_simps]:
  "off + length bs \<le> length m \<Longrightarrow> a + 4 \<le> off \<or> off + length bs \<le> a \<Longrightarrow>
   get_int a (mput off bs m) = get_int a m"
  by (simp add: get_int_def mem_simps)

lemma mget_put16_out [mem_simps]:
  "off + 2 \<le> length m \<Longrightarrow> a + n \<le> off \<or> off + 2 \<le> a \<Longrightarrow>
   mget a n (put16 off w m) = mget a n m"
  by (simp add: put16_def mem_simps)

lemma mget_put32_out [mem_simps]:
  "off + 4 \<le> length m \<Longrightarrow> a + n \<le> off \<or> off + 4 \<le> a \<Longrightarrow>
   mget a n (put32 off w m) = mget a n m"
  by (simp add: put32_def mem_simps)

lemma mget_put_int_out [mem_simps]:
  "off + 4 \<le> length m \<Longrightarrow> a + n \<le> off \<or> off + 4 \<le> a \<Longrightarrow>
   mget a n (put_int off v m) = mget a n m"
  by (simp add: put_int_def mem_simps)

lemma get16_put16_out [mem_simps]:
  "off + 2 \<le> length m \<Longrightarrow> a + 2 \<le> off \<or> off + 2 \<le> a \<Longrightarrow>
   get16 a (put16 off w m) = get16 a m"
  by (simp add: get16_def mem_simps)

lemma get16_put32_out [mem_simps]:
  "off + 4 \<le> length m \<Longrightarrow> a + 2 \<le> off \<or> off + 4 \<le> a \<Longrightarrow>
   get16 a (put32 off w m) = get16 a m"
  by (simp add: get16_def mem_simps)

lemma get32_put16_out [mem_simps]:
  "off + 2 \<le> length m \<Longrightarrow> a + 4 \<le> off \<or> off + 2 \<le> a \<Longrightarrow>
   get32 a (put16 off w m) = get32 a m"
  by (simp add: get32_def mem_simps)

lemma get_int_put_int_out [mem_simps]:
  "off + 4 \<le> length m \<Longrightarrow> a + 4 \<le> off \<or> off + 4 \<le> a \<Longrightarrow>
   get_int a (put_int off v m) = get_int a m"
  by (simp add: get_int_def get32_def mem_simps)

lemma get_int_mget [mem_simps]: "a + 4 \<le> k \<Longrightarrow> get_int a (mget b k m) = get_int (b + a) m"
  by (simp add: get_int_def get32_def mem_simps)

lemma get16_mget [mem_simps]: "a + 2 \<le> k \<Longrightarrow> get16 a (mget b k m) = get16 (b + a) m"
  by (simp add: get16_def mem_simps)

lemma get32_mget [mem_simps]: "a + 4 \<le> k \<Longrightarrow> get32 a (mget b k m) = get32 (b + a) m"
  by (simp add: get32_def mem_simps)

section \<open>Counted loops\<close>

text \<open>
  \<open>loop is body s\<close> is \<open>for (i ...) body\<close> over the counter values \<open>is\<close>; a
  body that reaches undefined behaviour yields \<open>None\<close> and so does the loop.
  \<open>loop_ret\<close> is a loop whose body may execute \<open>return\<close>: the flag of the result says
  whether it did. A loop whose body cannot fail is the library's \<open>fold\<close>.
\<close>

fun loop :: "nat list \<Rightarrow> (nat \<Rightarrow> 's \<Rightarrow> 's option) \<Rightarrow> 's \<Rightarrow> 's option" where
  "loop [] body s = Some s"
| "loop (i # is) body s = Option.bind (body i s) (loop is body)"

fun loop_ret :: "nat list \<Rightarrow> (nat \<Rightarrow> 's \<Rightarrow> bool \<times> 's) \<Rightarrow> 's \<Rightarrow> bool \<times> 's" where
  "loop_ret [] body s = (False, s)"
| "loop_ret (i # is) body s =
     (case body i s of (True, s') \<Rightarrow> (True, s') | (False, s') \<Rightarrow> loop_ret is body s')"

lemma loop_append: "loop (xs @ ys) body s = Option.bind (loop xs body s) (loop ys body)"
proof (induction xs arbitrary: s)
  case (Cons i xs)
  then show ?case by (cases "body i s") auto
qed simp

lemma loop_rule:
  assumes "\<And>k s. i \<le> k \<Longrightarrow> k < n \<Longrightarrow> P k s \<Longrightarrow> \<exists>s'. body k s = Some s' \<and> P (Suc k) s'"
    and "i \<le> n" and "P i s"
  shows "\<exists>s'. loop [i..<n] body s = Some s' \<and> P n s'"
  using assms(2,1,3)
proof (induction n rule: dec_induct)
  case base
  then show ?case by simp
next
  case (step n)
  from step.IH step.prems obtain s1 where
    s1: "loop [i..<n] body s = Some s1" "P n s1"
    by (metis less_SucI)
  with step.prems(1)[of n s1] step.hyps(1) obtain s2 where "body n s1 = Some s2" "P (Suc n) s2"
    by auto
  with s1 step.hyps(1) show ?case by (auto simp: loop_append)
qed

lemma fold_upt_rule:
  assumes "\<And>k s. i \<le> k \<Longrightarrow> k < n \<Longrightarrow> P k s \<Longrightarrow> P (Suc k) (body k s)"
    and "i \<le> n" and "P i s"
  shows "P n (fold body [i..<n] s)"
  using assms(2,1,3) by (induction n rule: dec_induct) auto

lemma loop_ret_rule:
  assumes "\<And>k s. i \<le> k \<Longrightarrow> k < n \<Longrightarrow> P k s \<Longrightarrow>
      (case body k s of (r, s') \<Rightarrow> if r then Q s' else P (Suc k) s')"
    and "i \<le> n" and "P i s"
  shows "case loop_ret [i..<n] body s of (r, s') \<Rightarrow> if r then Q s' else P n s'"
  using assms
proof (induction "n - i" arbitrary: i s)
  case 0
  then show ?case by simp
next
  case (Suc m)
  then have i: "i < n" by simp
  obtain r s' where b: "body i s = (r, s')" by (cases "body i s")
  have h: "if r then Q s' else P (Suc i) s'" using Suc.prems(1)[of i s] Suc.prems(3) i b by simp
  have "case loop_ret [Suc i..<n] body s' of (r, s') \<Rightarrow> if r then Q s' else P n s'" if "\<not> r"
    by (rule Suc.hyps(1)) (use Suc.hyps(2) Suc.prems(1) i h that in auto)
  with h b i show ?case by (cases r) (simp_all add: upt_conv_Cons)
qed

end
