(* ===== verification/FS_Block.thy ===== *)
theory FS_Block
  imports FS_Prelude
begin

text \<open>
  The error cell of \<open>prelude/err.c\<close> and the block device of \<open>block.c\<close>: one error
  number, and a host file read and written in blocks of 512 bytes through \<open>pread\<close> and
  \<open>pwrite\<close>. Each component's state is a record that extends the state of the components
  it calls, so an operation of one component is defined over every later state.
\<close>

section \<open>The pending error (err.c)\<close>

record errstate =
  ERRNO :: int

definition ENOENT :: int where "ENOENT = 2"
definition EEXIST :: int where "EEXIST = 17"
definition EFBIG :: int where "EFBIG = 27"
definition ENOSPC :: int where "ENOSPC = 28"

definition errno_push :: "int \<Rightarrow> 'z errstate_scheme \<Rightarrow> 'z errstate_scheme" where
  "errno_push e s = s\<lparr>ERRNO := e\<rparr>"

definition errno_pop :: "'z errstate_scheme \<Rightarrow> int \<times> 'z errstate_scheme" where
  "errno_pop s = (ERRNO s, s\<lparr>ERRNO := 0\<rparr>)"

text \<open>The cell holds one error: a second push hides the first, a pop empties it.\<close>

lemma errno_pop_push: "errno_pop (errno_push e (errno_push e' s)) = (e, s\<lparr>ERRNO := 0\<rparr>)"
  by (simp add: errno_pop_def errno_push_def)

lemma errno_pop_empties: "fst (errno_pop (snd (errno_pop s))) = 0"
  by (simp add: errno_pop_def)

section \<open>The block device (block.c)\<close>

abbreviation BLOCK_SIZE :: nat where "BLOCK_SIZE \<equiv> 512"

text \<open>
  \<open>diskfile\<close> is the variable of block.c. The rest is the host's side of the descriptor:
  whether it is open, the length of the file in bytes, and its contents page by page, a page
  being the 512 bytes at a multiple of 512. Bytes of a page at or past the end of the file
  are zeros (\<open>host_ok\<close>): they are what \<open>pwrite\<close> leaves in a gap it creates.
\<close>

record hostdisk = errstate +
  diskfile :: int
  fd_open :: bool
  file_len :: nat
  file_blk :: "nat \<Rightarrow> byte list"

definition zeros :: "nat \<Rightarrow> byte list" where
  "zeros n = replicate n 0"

lemma length_zeros [simp]: "length (zeros n) = n"
  by (simp add: zeros_def)

datatype exit_status = EXIT_FAILURE

text \<open>
  \<open>open(2)\<close> is the host's: its result (a descriptor or a negative number) and the file it
  opens are arguments. A failed open ends the process.
\<close>

definition disk_open ::
    "int \<Rightarrow> nat \<Rightarrow> (nat \<Rightarrow> byte list) \<Rightarrow> 'z hostdisk_scheme \<Rightarrow> exit_status + 'z hostdisk_scheme" where
  "disk_open fd len pages s =
     (if 0 \<le> diskfile s then Inr s
      else if fd < 0 then Inl EXIT_FAILURE
      else Inr (s\<lparr>diskfile := fd, fd_open := True, file_len := len, file_blk := pages\<rparr>))"

definition disk_close :: "'z hostdisk_scheme \<Rightarrow> 'z hostdisk_scheme" where
  "disk_close s = (if 0 \<le> diskfile s then s\<lparr>fd_open := False\<rparr> else s)"

text \<open>
  \<open>buf\<close> of a read stands for the 512 bytes at the destination pointer; a short read leaves
  their tail as it was. The offset is an \<open>int\<close> product; it wraps to 32 bits as the compiled code does.\<close>

definition block_off :: "int \<Rightarrow> int" where
  "block_off n = c_int (n * int BLOCK_SIZE)"

definition pread :: "'z hostdisk_scheme \<Rightarrow> byte list \<Rightarrow> int \<Rightarrow> int \<times> byte list" where
  "pread s buf off =
     (if \<not> fd_open s \<or> diskfile s < 0 \<or> off < 0 then (-1, buf)
      else let m = min BLOCK_SIZE (file_len s - nat off)
           in (int m, take m (file_blk s (nat off div BLOCK_SIZE)) @ take (BLOCK_SIZE - m) (drop m buf)))"

definition pwrite :: "'z hostdisk_scheme \<Rightarrow> byte list \<Rightarrow> int \<Rightarrow> int \<times> 'z hostdisk_scheme" where
  "pwrite s buf off =
     (if \<not> fd_open s \<or> diskfile s < 0 \<or> off < 0 then (-1, s)
      else (int BLOCK_SIZE,
            s\<lparr>file_len := max (file_len s) (nat off + BLOCK_SIZE),
              file_blk := (file_blk s)(nat off div BLOCK_SIZE := take BLOCK_SIZE buf)\<rparr>))"

definition block_read :: "int \<Rightarrow> byte list \<Rightarrow> 'z hostdisk_scheme \<Rightarrow> int \<times> byte list" where
  "block_read block_num buf s =
     (case pread s buf (block_off block_num) of (retstat, buf') \<Rightarrow>
        if retstat \<le> 0 then (retstat, zeros BLOCK_SIZE) else (retstat, buf'))"

definition block_write :: "int \<Rightarrow> byte list \<Rightarrow> 'z hostdisk_scheme \<Rightarrow> int \<times> 'z hostdisk_scheme" where
  "block_write block_num buf s = pwrite s buf (block_off block_num)"

section \<open>The device as an array of blocks\<close>

text \<open>
  The host file as every component sees it: an open descriptor on a file that covers the
  32768 blocks of the file system. There reading and writing a block is reading and updating
  the array \<open>file_blk\<close>.
\<close>

definition host_ok :: "'z hostdisk_scheme \<Rightarrow> bool" where
  "host_ok s \<longleftrightarrow> fd_open s \<and> 0 \<le> diskfile s \<and> (\<forall>p. length (file_blk s p) = BLOCK_SIZE)"

definition disk_ok :: "'z hostdisk_scheme \<Rightarrow> bool" where
  "disk_ok s \<longleftrightarrow> host_ok s \<and> 32768 * BLOCK_SIZE \<le> file_len s"

named_theorems disk_simps \<open>block reads and writes on a disk that covers the file system\<close>

lemma block_off_int: "n < 4194304 \<Longrightarrow> block_off (int n) = int (n * 512)"
  by (simp add: block_off_def c_int_id)

lemma nat_int_512 [simp]: "nat (int n * 512) = n * 512"
  by (simp add: nat_mult_distrib)

lemma block_off_neg: "0 < n \<Longrightarrow> n \<le> 4194304 \<Longrightarrow> block_off (- int n) < 0"
  by (simp add: block_off_def c_int_id)

lemma disk_ok_host [disk_simps]: "disk_ok s \<Longrightarrow> host_ok s"
  by (simp add: disk_ok_def)

lemma host_ok_length [disk_simps]: "host_ok s \<Longrightarrow> length (file_blk s p) = 512"
  by (simp add: host_ok_def)

lemma disk_ok_length [disk_simps]: "disk_ok s \<Longrightarrow> length (file_blk s p) = 512"
  by (simp add: disk_ok_def host_ok_def)

lemma block_read_ok [disk_simps]:
  assumes "disk_ok s" "n < 32768"
  shows "block_read (int n) buf s = (512, file_blk s n)"
proof -
  have "n * BLOCK_SIZE + BLOCK_SIZE \<le> file_len s"
    using assms by (simp add: disk_ok_def)
  then have "min BLOCK_SIZE (file_len s - n * BLOCK_SIZE) = BLOCK_SIZE" by simp
  then show ?thesis
    using assms by (simp add: block_read_def pread_def block_off_int disk_ok_def host_ok_def Let_def)
qed

lemma block_read_0 [disk_simps]: "disk_ok s \<Longrightarrow> block_read 0 buf s = (512, file_blk s 0)"
  using block_read_ok[of s 0] by simp

lemma block_read_host_length:
  "host_ok s \<Longrightarrow> length buf = 512 \<Longrightarrow> length (snd (block_read n buf s)) = 512"
  by (auto simp: block_read_def pread_def Let_def host_ok_def)

lemma block_write_host:
  "host_ok s \<Longrightarrow> n < 4194304 \<Longrightarrow> length buf = 512 \<Longrightarrow>
   block_write (int n) buf s =
     (512, s\<lparr>file_len := max (file_len s) (n * 512 + 512), file_blk := (file_blk s)(n := buf)\<rparr>)"
  by (simp add: block_write_def pwrite_def block_off_int host_ok_def)

lemma block_write_ok [disk_simps]:
  "disk_ok s \<Longrightarrow> n < 32768 \<Longrightarrow> length buf = 512 \<Longrightarrow>
   block_write (int n) buf s = (512, s\<lparr>file_blk := (file_blk s)(n := buf)\<rparr>)"
proof -
  assume a: "disk_ok s" "n < 32768" "length buf = 512"
  then have "max (file_len s) (n * 512 + 512) = file_len s" by (simp add: disk_ok_def)
  then show ?thesis using a block_write_host[of s n buf] by (simp add: disk_ok_def)
qed

lemma block_write_0 [disk_simps]:
  "disk_ok s \<Longrightarrow> length buf = 512 \<Longrightarrow>
   block_write 0 buf s = (512, s\<lparr>file_blk := (file_blk s)(0 := buf)\<rparr>)"
  using block_write_ok[of s 0] by simp

lemma disk_ok_upd [disk_simps]:
  "disk_ok s \<Longrightarrow> length buf = 512 \<Longrightarrow> disk_ok (s\<lparr>file_blk := (file_blk s)(n := buf)\<rparr>)"
  by (simp add: disk_ok_def host_ok_def)

text \<open>A transfer at a negative number fails and reads as zeros, and writes nothing.\<close>

lemma block_read_neg:
  "0 < n \<Longrightarrow> n \<le> 4194304 \<Longrightarrow> block_read (- int n) buf s = (-1, zeros 512)"
  using block_off_neg[of n] by (simp add: block_read_def pread_def)

lemma block_write_neg:
  "0 < n \<Longrightarrow> n \<le> 4194304 \<Longrightarrow> block_write (- int n) buf s = (-1, s)"
  using block_off_neg[of n] by (simp add: block_write_def pwrite_def)

text \<open>Once closed the device stays unusable: the descriptor number is never reset.\<close>

lemma closed_read: "\<not> fd_open s \<Longrightarrow> block_read n buf s = (-1, zeros 512)"
  by (simp add: block_read_def pread_def)

lemma disk_open_closed:
  "0 \<le> diskfile s \<Longrightarrow> disk_open fd len pages (disk_close s) = Inr (disk_close s)"
  by (simp add: disk_open_def disk_close_def)

end
