(* ===== verification/FS_Pool.thy ===== *)
theory FS_Pool
  imports FS_Block
begin

text \<open>
  The interfaces through which the file code allocates: a pool of identifiers (\<open>id_pool\<close>:
  a number is taken, and given back later) and a stack of them (\<open>id_stack\<close>), of which a pool
  is the view without the order. The free-block list interprets the stack, the inode bitmap
  the pool; what the clients need of many takes in a row is proved here once.
\<close>

locale id_pool =
  fixes take_id :: "'s \<Rightarrow> 'i \<times> 's"
    and give_id :: "'i \<Rightarrow> 's \<Rightarrow> 's option"
    and avail :: "'s \<Rightarrow> 'i set"
    and valid :: "'i \<Rightarrow> bool"
    and inv :: "'s \<Rightarrow> bool"
    and pending :: "'s \<Rightarrow> int"
    and keep :: "'s \<Rightarrow> 's \<Rightarrow> bool"
  assumes avail_finite: "inv s \<Longrightarrow> finite (avail s)"
    and avail_valid: "inv s \<Longrightarrow> x \<in> avail s \<Longrightarrow> valid x"
    and take_some: "inv s \<Longrightarrow> avail s \<noteq> {} \<Longrightarrow> take_id s = (x, s') \<Longrightarrow>
      x \<in> avail s \<and> inv s' \<and> avail s' = avail s - {x} \<and> pending s' = pending s \<and> keep s s'"
    and take_none: "inv s \<Longrightarrow> avail s = {} \<Longrightarrow> take_id s = (x, s') \<Longrightarrow>
      \<not> valid x \<and> inv s' \<and> avail s' = {} \<and> pending s' = - ENOSPC \<and> keep s s'"
    and give_back: "inv s \<Longrightarrow> valid x \<Longrightarrow> x \<notin> avail s \<Longrightarrow>
      \<exists>s'. give_id x s = Some s' \<and> inv s' \<and> avail s' = insert x (avail s) \<and> pending s' = pending s"
    and keep_refl: "keep s s"
    and keep_trans: "keep s s' \<Longrightarrow> keep s' s'' \<Longrightarrow> keep s s''"
begin

primrec takes :: "nat \<Rightarrow> 's \<Rightarrow> 'i list \<times> 's" where
  "takes 0 s = ([], s)"
| "takes (Suc n) s =
     (case take_id s of (x, s1) \<Rightarrow> case takes n s1 of (xs, s2) \<Rightarrow> (x # xs, s2))"

primrec gives :: "'i list \<Rightarrow> 's \<Rightarrow> 's option" where
  "gives [] s = Some s"
| "gives (x # xs) s = Option.bind (give_id x s) (gives xs)"

lemma takes_enough:
  "inv s \<Longrightarrow> n \<le> card (avail s) \<Longrightarrow> takes n s = (xs, s') \<Longrightarrow>
   length xs = n \<and> distinct xs \<and> set xs \<subseteq> avail s \<and> inv s' \<and> avail s' = avail s - set xs
   \<and> pending s' = pending s \<and> keep s s'"
proof (induction n arbitrary: s xs)
  case 0
  then show ?case by (auto simp: keep_refl)
next
  case (Suc n)
  obtain x s1 where t: "take_id s = (x, s1)" by (cases "take_id s")
  from Suc.prems(3) obtain ys where ys: "takes n s1 = (ys, s')" "xs = x # ys"
    by (auto simp: t split: prod.splits)
  have "avail s \<noteq> {}" using Suc.prems(2) by auto
  note x = take_some[OF Suc.prems(1) this t]
  then have "n \<le> card (avail s1)"
    using Suc.prems(1,2) by (simp add: avail_finite)
  with Suc.IH[OF _ _ ys(1)] x ys(2) show ?case
    by (auto intro: keep_trans)
qed

lemma takes_too_many:
  "inv s \<Longrightarrow> card (avail s) < n \<Longrightarrow> takes n s = (xs, s') \<Longrightarrow> inv s' \<and> avail s' = {} \<and> pending s' = - ENOSPC"
proof (induction n arbitrary: s xs)
  case (Suc n)
  obtain x s1 where t: "take_id s = (x, s1)" by (cases "take_id s")
  from Suc.prems(3) obtain ys where ys: "takes n s1 = (ys, s')" by (auto simp: t split: prod.splits)
  show ?case
  proof (cases "avail s = {}")
    case True
    note e = take_none[OF Suc.prems(1) True t]
    show ?thesis
    proof (cases n)
      case 0
      then show ?thesis using e ys by simp
    next
      case (Suc m)
      then show ?thesis using e Suc.IH[OF _ _ ys] by simp
    qed
  next
    case False
    note x = take_some[OF Suc.prems(1) False t]
    moreover have "0 < card (avail s)" using False Suc.prems(1) by (simp add: avail_finite card_gt_0_iff)
    ultimately have "card (avail s1) < n" using Suc.prems(2) by simp
    with Suc.IH[OF _ _ ys] x show ?thesis by simp
  qed
qed simp

lemma gives_back:
  "inv s \<Longrightarrow> distinct xs \<Longrightarrow> \<forall>x\<in>set xs. valid x \<Longrightarrow> set xs \<inter> avail s = {} \<Longrightarrow>
   \<exists>s'. gives xs s = Some s' \<and> inv s' \<and> avail s' = avail s \<union> set xs \<and> pending s' = pending s"
proof (induction xs arbitrary: s)
  case (Cons x xs)
  then obtain s1 where s1: "give_id x s = Some s1" "inv s1" "avail s1 = insert x (avail s)"
    "pending s1 = pending s" using give_back[of s x] by auto
  with Cons.prems obtain s2 where "gives xs s1 = Some s2" "inv s2" "avail s2 = avail s1 \<union> set xs"
    "pending s2 = pending s1" using Cons.IH[of s1] by auto
  with s1 show ?case by auto
qed simp

text \<open>Taking and giving back is a round trip on the pool.\<close>

lemma takes_gives:
  assumes "inv s" "n \<le> card (avail s)" "takes n s = (xs, s')"
  shows "\<exists>s''. gives xs s' = Some s'' \<and> inv s'' \<and> avail s'' = avail s"
proof -
  note t = takes_enough[OF assms]
  then have "\<forall>x\<in>set xs. valid x" "set xs \<inter> avail s' = {}" using assms(1) avail_valid by auto
  with t gives_back[of s' xs] show ?thesis by auto
qed

end

locale id_stack =
  fixes pop :: "'s \<Rightarrow> 'i \<times> 's"
    and push :: "'i \<Rightarrow> 's \<Rightarrow> 's option"
    and stk :: "'s \<Rightarrow> 'i list"
    and valid :: "'i \<Rightarrow> bool"
    and inv :: "'s \<Rightarrow> bool"
    and pending :: "'s \<Rightarrow> int"
    and keep :: "'s \<Rightarrow> 's \<Rightarrow> bool"
  assumes stk_distinct: "inv s \<Longrightarrow> distinct (stk s)"
    and stk_valid: "inv s \<Longrightarrow> x \<in> set (stk s) \<Longrightarrow> valid x"
    and pop_Cons: "inv s \<Longrightarrow> stk s = x # xs \<Longrightarrow>
      \<exists>s'. pop s = (x, s') \<and> inv s' \<and> stk s' = xs \<and> pending s' = pending s \<and> keep s s'"
    and pop_Nil: "inv s \<Longrightarrow> stk s = [] \<Longrightarrow>
      \<exists>x s'. pop s = (x, s') \<and> \<not> valid x \<and> inv s' \<and> stk s' = [] \<and> pending s' = - ENOSPC \<and> keep s s'"
    and push_ok: "inv s \<Longrightarrow> valid x \<Longrightarrow> x \<notin> set (stk s) \<Longrightarrow>
      \<exists>s'. push x s = Some s' \<and> inv s' \<and> stk s' = x # stk s \<and> pending s' = pending s"
    and stk_keep_refl: "keep s s"
    and stk_keep_trans: "keep s s' \<Longrightarrow> keep s' s'' \<Longrightarrow> keep s s''"

sublocale id_stack \<subseteq> id_pool pop push "\<lambda>s. set (stk s)" valid inv pending keep
proof
  fix s x s'
  assume a: "inv s" "set (stk s) \<noteq> {}" "pop s = (x, s')"
  then obtain y ys where y: "stk s = y # ys" by (cases "stk s") auto
  have "distinct (stk s)" using a(1) by (rule stk_distinct)
  then show "x \<in> set (stk s) \<and> inv s' \<and> set (stk s') = set (stk s) - {x} \<and> pending s' = pending s \<and> keep s s'"
    using pop_Cons[OF a(1) y] a(3) y by auto
next
  fix s x s'
  assume "inv s" "set (stk s) = {}" "pop s = (x, s')"
  then show "\<not> valid x \<and> inv s' \<and> set (stk s') = {} \<and> pending s' = - ENOSPC \<and> keep s s'"
    using pop_Nil[of s] by auto
next
  fix s x
  assume "inv s" "valid x" "x \<notin> set (stk s)"
  then show "\<exists>s'. push x s = Some s' \<and> inv s' \<and> set (stk s') = insert x (set (stk s)) \<and> pending s' = pending s"
    using push_ok[of s x] by auto
qed (auto intro: stk_valid stk_keep_refl stk_keep_trans)

context id_stack
begin

text \<open>A stack hands the numbers out in order, and a pushed number comes back first.\<close>

lemma takes_in_order:
  "inv s \<Longrightarrow> n \<le> length (stk s) \<Longrightarrow>
   \<exists>s'. takes n s = (take n (stk s), s') \<and> inv s' \<and> stk s' = drop n (stk s) \<and> pending s' = pending s"
proof (induction n arbitrary: s)
  case (Suc n)
  then obtain x xs where x: "stk s = x # xs" by (cases "stk s") auto
  obtain s1 where s1: "pop s = (x, s1)" "inv s1" "stk s1 = xs" "pending s1 = pending s"
    using pop_Cons[OF Suc.prems(1) x] by blast
  with Suc.IH[of s1] Suc.prems(2) x show ?case by auto
qed simp

lemma push_pop:
  assumes "inv s" "valid x" "x \<notin> set (stk s)"
  shows "\<exists>s' s''. push x s = Some s' \<and> pop s' = (x, s'') \<and> inv s'' \<and> stk s'' = stk s"
proof -
  obtain s' where s': "push x s = Some s'" "inv s'" "stk s' = x # stk s"
    using push_ok[OF assms] by blast
  from pop_Cons[OF s'(2,3)] s'(1) show ?thesis by auto
qed

end

end
