(* ===== verification/FS_FreeBlock.thy ===== *)
theory FS_FreeBlock
  imports FS_Block FS_Pool
begin

text \<open>
  The free-block list of \<open>prelude/free_block.c\<close>: the superblock (the first 128 bytes of
  block 0) holds the head and the length of a list threaded through the first four bytes of
  the free blocks. The abstract view is the list of the free block numbers, head first
  (\<open>fb_inv\<close>); the operations are a stack on it, and the interfaces \<open>block_stack\<close> and
  \<open>id_pool\<close> of \<open>FS_Pool\<close> are interpreted on them.
\<close>

section \<open>State and operations\<close>

abbreviation SUPERBLOCK_SIZE :: nat where "SUPERBLOCK_SIZE \<equiv> 128"
abbreviation MAX_BLOCK_NUM :: nat where "MAX_BLOCK_NUM \<equiv> 32768"

text \<open>
  The three static buffers. The unions are their bytes: \<open>free_block_head\<close> at offset 0 and
  \<open>free_block_size\<close> at offset 4 of the superblock, \<open>free_block_next\<close> at offset 0 of a
  free block.
\<close>

record fblock = hostdisk +
  SuperBlockBuf :: "byte list"
  BlockBuf :: "byte list"
  EmptyBlk :: "byte list"

definition sb_head :: "byte list \<Rightarrow> int" where
  "sb_head sb = get_int 0 sb"

definition sb_size :: "byte list \<Rightarrow> int" where
  "sb_size sb = get_int 4 sb"

definition free_block_next :: "byte list \<Rightarrow> int" where
  "free_block_next b = get_int 0 b"

definition freeblock_read :: "int \<Rightarrow> 'z fblock_scheme \<Rightarrow> 'z fblock_scheme" where
  "freeblock_read block_num s = s\<lparr>BlockBuf := snd (block_read block_num (BlockBuf s) s)\<rparr>"

definition freeblock_write :: "int \<Rightarrow> 'z fblock_scheme \<Rightarrow> 'z fblock_scheme" where
  "freeblock_write block_num s = snd (block_write block_num (BlockBuf s) s)"

definition superblock_write :: "'z fblock_scheme \<Rightarrow> 'z fblock_scheme" where
  "superblock_write s =
     (let s = freeblock_read 0 s;
          s = s\<lparr>BlockBuf := mput 0 (SuperBlockBuf s) (BlockBuf s)\<rparr>
      in freeblock_write 0 s)"

definition superblock_read :: "'z fblock_scheme \<Rightarrow> 'z fblock_scheme" where
  "superblock_read s =
     (let s = freeblock_read 0 s in s\<lparr>SuperBlockBuf := mget 0 SUPERBLOCK_SIZE (BlockBuf s)\<rparr>)"

definition free_block_init_step :: "nat \<Rightarrow> 'z fblock_scheme \<Rightarrow> 'z fblock_scheme" where
  "free_block_init_step i s =
     freeblock_write (int i) (s\<lparr>BlockBuf := put_int 0 (int i + 1) (BlockBuf s)\<rparr>)"

definition free_block_init :: "'z fblock_scheme \<Rightarrow> 'z fblock_scheme" where
  "free_block_init s =
     (let s = s\<lparr>BlockBuf := zeros BLOCK_SIZE, EmptyBlk := zeros BLOCK_SIZE,
                SuperBlockBuf := zeros SUPERBLOCK_SIZE\<rparr>;
          s = s\<lparr>SuperBlockBuf := put_int 0 1 (SuperBlockBuf s)\<rparr>;
          s = s\<lparr>SuperBlockBuf := put_int 4 (int MAX_BLOCK_NUM - 1) (SuperBlockBuf s)\<rparr>;
          s = superblock_write s;
          s = fold free_block_init_step [1..<MAX_BLOCK_NUM - 1] s;
          s = s\<lparr>BlockBuf := put_int 0 (-1) (BlockBuf s)\<rparr>
      in freeblock_write (int MAX_BLOCK_NUM - 1) s)"

text \<open>The part common to pop and allocate: unlink the head block (its number positive).\<close>

definition unlink_head :: "int \<Rightarrow> 'z fblock_scheme \<Rightarrow> 'z fblock_scheme" where
  "unlink_head block_num s =
     (let s = freeblock_read block_num s;
          s = s\<lparr>SuperBlockBuf := put_int 4 (sb_size (SuperBlockBuf s) - 1) (SuperBlockBuf s)\<rparr>;
          s = s\<lparr>SuperBlockBuf := put_int 0 (free_block_next (BlockBuf s)) (SuperBlockBuf s)\<rparr>
      in superblock_write s)"

definition free_block_pop :: "'z fblock_scheme \<Rightarrow> int \<times> 'z fblock_scheme" where
  "free_block_pop s =
     (let s = superblock_read s; block_num = sb_head (SuperBlockBuf s)
      in (block_num, if 0 < block_num then unlink_head block_num s else errno_push (- ENOSPC) s))"

definition free_block_allocate :: "byte list option \<Rightarrow> 'z fblock_scheme \<Rightarrow> int \<times> 'z fblock_scheme" where
  "free_block_allocate buff s =
     (let s = superblock_read s; block_num = sb_head (SuperBlockBuf s)
      in (block_num,
          if 0 < block_num
          then (let s = unlink_head block_num s
                in case buff of Some b \<Rightarrow> snd (block_write block_num b s)
                   | None \<Rightarrow> snd (block_write block_num (EmptyBlk s) s))
          else errno_push (- ENOSPC) s))"

definition free_block_push :: "int \<Rightarrow> 'z fblock_scheme \<Rightarrow> int \<times> 'z fblock_scheme" where
  "free_block_push block_num s =
     (let s = superblock_read s;
          s = s\<lparr>BlockBuf := put_int 0 (sb_head (SuperBlockBuf s)) (BlockBuf s)\<rparr>;
          s = freeblock_write block_num s;
          s = s\<lparr>SuperBlockBuf := put_int 4 (sb_size (SuperBlockBuf s) + 1) (SuperBlockBuf s)\<rparr>;
          s = s\<lparr>SuperBlockBuf := put_int 0 block_num (SuperBlockBuf s)\<rparr>;
          s = superblock_write s
      in (sb_size (SuperBlockBuf s), s))"

definition free_block_size :: "'z fblock_scheme \<Rightarrow> int" where
  "free_block_size s = sb_size (SuperBlockBuf s)"

section \<open>The chain of free blocks\<close>

text \<open>
  \<open>chain blk h bs\<close>: following the links from head \<open>h\<close> visits exactly \<open>bs\<close> and ends
  at -1. \<open>free_list\<close> computes the list; following at most 32768 links is enough, since an
  intact list has no repetition and every number is below 32768.
\<close>

fun chain :: "(nat \<Rightarrow> byte list) \<Rightarrow> int \<Rightarrow> int list \<Rightarrow> bool" where
  "chain blk h [] \<longleftrightarrow> h = -1"
| "chain blk h (b # bs) \<longleftrightarrow> h = b \<and> chain blk (free_block_next (blk (nat b))) bs"

fun follow :: "nat \<Rightarrow> (nat \<Rightarrow> byte list) \<Rightarrow> int \<Rightarrow> int list" where
  "follow 0 blk h = []"
| "follow (Suc n) blk h = (if h \<le> 0 then [] else h # follow n blk (free_block_next (blk (nat h))))"

definition free_list :: "'z hostdisk_scheme \<Rightarrow> int list" where
  "free_list s = follow MAX_BLOCK_NUM (file_blk s) (sb_head (file_blk s 0))"

definition block_valid :: "int \<Rightarrow> bool" where
  "block_valid b \<longleftrightarrow> 0 < b \<and> b < int MAX_BLOCK_NUM"

definition buffers_ok :: "'z fblock_scheme \<Rightarrow> bool" where
  "buffers_ok s \<longleftrightarrow> length (SuperBlockBuf s) = SUPERBLOCK_SIZE \<and> length (BlockBuf s) = BLOCK_SIZE
     \<and> EmptyBlk s = zeros BLOCK_SIZE"

definition fb_ready :: "'z fblock_scheme \<Rightarrow> bool" where
  "fb_ready s \<longleftrightarrow> disk_ok s \<and> buffers_ok s"

definition fb_list_ok :: "'z hostdisk_scheme \<Rightarrow> int list \<Rightarrow> bool" where
  "fb_list_ok s bs \<longleftrightarrow> chain (file_blk s) (sb_head (file_blk s 0)) bs \<and> distinct bs
     \<and> (\<forall>b\<in>set bs. block_valid b) \<and> sb_size (file_blk s 0) = int (length bs)"

definition fb_inv :: "'z fblock_scheme \<Rightarrow> bool" where
  "fb_inv s \<longleftrightarrow> fb_ready s \<and> fb_list_ok s (free_list s)"

lemmas ok_defs = fb_ready_def buffers_ok_def disk_ok_def host_ok_def

lemma chain_upd:
  "\<forall>b\<in>set bs. nat b \<noteq> n \<Longrightarrow> chain (blk(n := x)) h bs = chain blk h bs"
  by (induction bs arbitrary: h) auto

lemma follow_chain:
  "chain blk h bs \<Longrightarrow> \<forall>b\<in>set bs. block_valid b \<Longrightarrow> length bs < n \<Longrightarrow> follow n blk h = bs"
proof (induction n arbitrary: h bs)
  case (Suc n)
  then show ?case by (cases bs) (auto simp: block_valid_def)
qed simp

lemma valid_list_short:
  assumes "distinct bs" "\<forall>b\<in>set bs. block_valid b"
  shows "length bs < MAX_BLOCK_NUM"
proof -
  have "set bs \<subseteq> {1..<int MAX_BLOCK_NUM}" using assms(2) by (auto simp: block_valid_def)
  then have "card (set bs) \<le> card {1..<int MAX_BLOCK_NUM}" by (intro card_mono) auto
  then show ?thesis using distinct_card[OF assms(1)] by simp
qed

lemma free_list_eq: "fb_list_ok s bs \<Longrightarrow> free_list s = bs"
  unfolding free_list_def fb_list_ok_def by (intro follow_chain) (auto dest: valid_list_short)

lemma fb_invI: "fb_ready s \<Longrightarrow> fb_list_ok s bs \<Longrightarrow> fb_inv s \<and> free_list s = bs"
  by (simp add: fb_inv_def free_list_eq)

section \<open>What each operation does to the disk\<close>

lemma block_valid_nat: "block_valid b \<Longrightarrow> nat b < 32768 \<and> nat b \<noteq> 0 \<and> int (nat b) = b"
  by (auto simp: block_valid_def)

lemma superblock_read_eq:
  "fb_ready s \<Longrightarrow> superblock_read s =
     s\<lparr>BlockBuf := file_blk s 0, SuperBlockBuf := mget 0 128 (file_blk s 0)\<rparr>"
  by (simp add: superblock_read_def freeblock_read_def fb_ready_def disk_simps)

lemma freeblock_read_eq:
  "disk_ok s \<Longrightarrow> block_valid b \<Longrightarrow> freeblock_read b s = s\<lparr>BlockBuf := file_blk s (nat b)\<rparr>"
  using block_read_ok[of s "nat b"] block_valid_nat[of b] by (simp add: freeblock_read_def)

lemma superblock_write_eq:
  assumes "disk_ok s" "length (SuperBlockBuf s) = 128"
  defines "B \<equiv> mput 0 (SuperBlockBuf s) (file_blk s 0)"
  shows "superblock_write s = s\<lparr>BlockBuf := B, file_blk := (file_blk s)(0 := B)\<rparr>"
proof -
  have "disk_ok (s\<lparr>BlockBuf := X\<rparr>)" for X using assms(1) by (simp add: disk_ok_def host_ok_def)
  then show ?thesis
    using assms by (simp add: superblock_write_def freeblock_read_def freeblock_write_def disk_simps)
qed

lemma block_write_valid:
  "disk_ok s \<Longrightarrow> block_valid b \<Longrightarrow> length buf = 512 \<Longrightarrow>
   block_write b buf s = (512, s\<lparr>file_blk := (file_blk s)(nat b := buf)\<rparr>)"
  using block_write_ok[of s "nat b" buf] block_valid_nat[of b] by simp

text \<open>
  What one operation writes: \<open>sb_put h n\<close> is block 0 with head \<open>h\<close> and length \<open>n\<close> in the
  superblock and the rest (the inodes 1 to 3 share the block) as it was.
\<close>

definition sb_put :: "int \<Rightarrow> int \<Rightarrow> byte list \<Rightarrow> byte list" where
  "sb_put h n b = mput 0 (put_int 0 h (put_int 4 n (mget 0 128 b))) b"

lemma length_sb_put [simp]: "length b = 512 \<Longrightarrow> length (sb_put h n b) = 512"
  by (simp add: sb_put_def)

lemma sb_put_head: "length b = 512 \<Longrightarrow> sb_head (sb_put h n b) = c_int h"
  by (simp add: sb_put_def sb_head_def get_int_def get32_def mem_simps)
     (simp add: put_int_def put32_def mem_simps sint_word_of_int_c_int)

lemma sb_put_size: "length b = 512 \<Longrightarrow> sb_size (sb_put h n b) = c_int n"
  by (simp add: sb_put_def sb_size_def get_int_def get32_def mem_simps)
     (simp add: put_int_def put32_def mem_simps sint_word_of_int_c_int)

lemma sb_put_rest: "length b = 512 \<Longrightarrow> 128 \<le> a \<Longrightarrow> mget a k (sb_put h n b) = mget a k b"
  by (simp add: sb_put_def mem_simps)

lemma sb_head_mget: "sb_head (mget 0 128 b) = sb_head b"
  by (simp add: sb_head_def mem_simps)

lemma sb_size_mget: "sb_size (mget 0 128 b) = sb_size b"
  by (simp add: sb_size_def mem_simps)

lemma unlink_head_eq:
  assumes "disk_ok s" "block_valid b" "SuperBlockBuf s = mget 0 128 (file_blk s 0)"
  defines "h \<equiv> free_block_next (file_blk s (nat b))" and "n \<equiv> sb_size (file_blk s 0) - 1"
  shows "unlink_head b s =
    s\<lparr>SuperBlockBuf := put_int 0 h (put_int 4 n (mget 0 128 (file_blk s 0))),
      BlockBuf := sb_put h n (file_blk s 0),
      file_blk := (file_blk s)(0 := sb_put h n (file_blk s 0))\<rparr>"
proof -
  have d: "disk_ok (s\<lparr>BlockBuf := X, SuperBlockBuf := Y\<rparr>)" for X Y
    using assms(1) by (simp add: disk_ok_def host_ok_def)
  show ?thesis
    unfolding unlink_head_def Let_def
    by (subst superblock_write_eq)
       (simp_all add: freeblock_read_eq assms(1-3) d disk_simps sb_put_def h_def n_def sb_size_mget)
qed

section \<open>The operations on the list\<close>

text \<open>
  What taking a block leaves alone: every block but block 0, and in block 0 everything past
  the superblock; the state of the other components (\<open>fblock.more\<close>).
\<close>

definition fb_keep :: "'z fblock_scheme \<Rightarrow> 'z fblock_scheme \<Rightarrow> bool" where
  "fb_keep s s' \<longleftrightarrow> (\<forall>n. n \<noteq> 0 \<longrightarrow> file_blk s' n = file_blk s n)
     \<and> mget 128 384 (file_blk s' 0) = mget 128 384 (file_blk s 0)
     \<and> fblock.more s' = fblock.more s"

lemma fb_keep_refl: "fb_keep s s"
  by (simp add: fb_keep_def)

lemma fb_keep_trans: "fb_keep s s' \<Longrightarrow> fb_keep s' s'' \<Longrightarrow> fb_keep s s''"
  by (simp add: fb_keep_def)

lemma fb_inv_ready: "fb_inv s \<Longrightarrow> fb_ready s"
  by (simp add: fb_inv_def)

lemma fb_inv_list: "fb_inv s \<Longrightarrow> fb_list_ok s (free_list s)"
  by (simp add: fb_inv_def)

lemma fb_list_head:
  "fb_list_ok s bs \<Longrightarrow> sb_head (file_blk s 0) = (case bs of [] \<Rightarrow> -1 | b # _ \<Rightarrow> b)"
  by (auto simp: fb_list_ok_def split: list.split)

lemma c_int_valid: "block_valid b \<Longrightarrow> c_int b = b"
  by (simp add: block_valid_def c_int_id)

lemma chain_head_c_int: "chain blk h bs \<Longrightarrow> \<forall>b\<in>set bs. block_valid b \<Longrightarrow> c_int h = h"
  by (cases bs) (auto simp: c_int_id c_int_valid)

lemma fb_list_rewrite:
  assumes "fb_ready s" "chain (file_blk s) h bs" "distinct bs" "\<forall>b\<in>set bs. block_valid b"
    and "n = int (length bs)" "disk_ok s'"
    and "file_blk s' = (file_blk s)(0 := sb_put h n (file_blk s 0))"
  shows "fb_list_ok s' bs"
proof -
  have l: "length (file_blk s 0) = 512" using assms(1) by (simp add: fb_ready_def disk_simps)
  have "length bs < 32768" using valid_list_short assms(3,4) by blast
  moreover have "\<forall>b\<in>set bs. nat b \<noteq> 0" using assms(4) block_valid_nat by blast
  ultimately show ?thesis
    using assms(2-5) by (simp add: fb_list_ok_def assms(7) l sb_put_head sb_put_size c_int_id
        chain_upd chain_head_c_int[OF assms(2,4)])
qed

lemma unlink_head_ok:
  assumes s: "fb_ready s" "SuperBlockBuf s = mget 0 128 (file_blk s 0)" "fb_list_ok s (b # bs)"
  shows "\<exists>S B F. unlink_head b s = s\<lparr>SuperBlockBuf := S, BlockBuf := B, file_blk := F\<rparr>
     \<and> fb_ready (unlink_head b s) \<and> fb_list_ok (unlink_head b s) bs \<and> fb_keep s (unlink_head b s)"
proof -
  have d: "disk_ok s" and l: "length (file_blk s 0) = 512"
    using s(1) by (simp_all add: fb_ready_def disk_simps)
  have b: "block_valid b" using s(3) by (simp add: fb_list_ok_def)
  note e = unlink_head_eq[OF d b s(2)]
  let ?u = "unlink_head b s"
  have r: "fb_ready ?u"
    using s(1) l by (simp add: e ok_defs)
  have "fb_list_ok ?u bs"
    by (rule fb_list_rewrite[OF s(1), of "free_block_next (file_blk s (nat b))" _ "sb_size (file_blk s 0) - 1"])
       (use s(3) r in \<open>auto simp: fb_list_ok_def fb_ready_def e\<close>)
  moreover have "fb_keep s ?u" by (simp add: e fb_keep_def sb_put_rest l)
  ultimately show ?thesis using e r by blast
qed

lemma superblock_read_ok:
  assumes "fb_inv s"
  defines "t \<equiv> superblock_read s"
  shows "t = s\<lparr>BlockBuf := file_blk s 0, SuperBlockBuf := mget 0 128 (file_blk s 0)\<rparr>"
    and "fb_ready t" and "fb_list_ok t (free_list s)" and "fb_keep s t"
    and "SuperBlockBuf t = mget 0 128 (file_blk t 0)"
    and "sb_head (SuperBlockBuf t) = (case free_list s of [] \<Rightarrow> -1 | b # _ \<Rightarrow> b)"
proof -
  have r: "fb_ready s" using assms(1) by (rule fb_inv_ready)
  then show e: "t = s\<lparr>BlockBuf := file_blk s 0, SuperBlockBuf := mget 0 128 (file_blk s 0)\<rparr>"
    unfolding t_def by (rule superblock_read_eq)
  show "fb_ready t" using r by (simp add: e ok_defs)
  show "fb_list_ok t (free_list s)" using fb_inv_list[OF assms(1)] by (simp add: e fb_list_ok_def)
  show "fb_keep s t" by (simp add: e fb_keep_def)
  show "SuperBlockBuf t = mget 0 128 (file_blk t 0)" by (simp add: e)
  show "sb_head (SuperBlockBuf t) = (case free_list s of [] \<Rightarrow> -1 | b # _ \<Rightarrow> b)"
    using fb_list_head[OF fb_inv_list[OF assms(1)]] by (simp add: e sb_head_mget)
qed

lemma pop_Cons_aux:
  assumes "fb_inv s" "free_list s = b # bs"
  shows "\<exists>s'. free_block_pop s = (b, s') \<and> fb_inv s' \<and> free_list s' = bs \<and> ERRNO s' = ERRNO s \<and> fb_keep s s'"
proof -
  note t = superblock_read_ok[OF assms(1)]
  have "0 < b" using fb_inv_list[OF assms(1)] assms(2) by (simp add: fb_list_ok_def block_valid_def)
  then have p: "free_block_pop s = (b, unlink_head b (superblock_read s))"
    using t(6) assms(2) by (simp add: free_block_pop_def Let_def)
  obtain S B F where u: "unlink_head b (superblock_read s) = superblock_read s\<lparr>SuperBlockBuf := S, BlockBuf := B, file_blk := F\<rparr>"
    "fb_ready (unlink_head b (superblock_read s))" "fb_list_ok (unlink_head b (superblock_read s)) bs"
    "fb_keep (superblock_read s) (unlink_head b (superblock_read s))"
    using unlink_head_ok[OF t(2,5)] t(3) assms(2) by metis
  have "ERRNO (unlink_head b (superblock_read s)) = ERRNO s" by (subst u(1)) (simp add: t(1))
  with p fb_invI[OF u(2,3)] fb_keep_trans[OF t(4) u(4)] show ?thesis by simp
qed

lemma pop_Nil_aux:
  assumes "fb_inv s" "free_list s = []"
  shows "\<exists>s'. free_block_pop s = (-1, s') \<and> fb_inv s' \<and> free_list s' = [] \<and> ERRNO s' = - ENOSPC
     \<and> file_blk s' = file_blk s \<and> fb_keep s s'"
proof -
  note t = superblock_read_ok[OF assms(1)]
  let ?u = "errno_push (- ENOSPC) (superblock_read s)"
  have "free_block_pop s = (-1, ?u)" using t(6) assms(2) by (simp add: free_block_pop_def Let_def)
  moreover have "fb_ready ?u" "fb_list_ok ?u []"
    using t(2,3) assms(2) by (simp_all add: errno_push_def fb_list_ok_def ok_defs)
  moreover have "fb_keep s ?u" using t(4) by (simp add: errno_push_def fb_keep_def)
  moreover have "file_blk ?u = file_blk s" by (simp add: t(1) errno_push_def)
  ultimately show ?thesis using fb_invI by (fastforce simp: errno_push_def)
qed


definition alloc_content :: "byte list option \<Rightarrow> byte list" where
  "alloc_content buff = (case buff of Some b \<Rightarrow> b | None \<Rightarrow> zeros BLOCK_SIZE)"

lemma fb_list_ok_other:
  assumes "fb_list_ok s bs" "block_valid b" "b \<notin> set bs" "file_blk s' = (file_blk s)(nat b := x)"
  shows "fb_list_ok s' bs"
proof -
  have "\<forall>c\<in>set bs. nat c \<noteq> nat b"
    using assms(1,2,3) by (metis block_valid_nat fb_list_ok_def)
  then show ?thesis
    using assms block_valid_nat[OF assms(2)] by (simp add: fb_list_ok_def chain_upd)
qed

lemma allocate_Cons_aux:
  assumes "fb_inv s" "free_list s = b # bs" "length (alloc_content buff) = BLOCK_SIZE"
  shows "\<exists>s'. free_block_allocate buff s = (b, s') \<and> fb_inv s' \<and> free_list s' = bs \<and> ERRNO s' = ERRNO s
     \<and> file_blk s' (nat b) = alloc_content buff
     \<and> (\<forall>n. n \<noteq> 0 \<and> n \<noteq> nat b \<longrightarrow> file_blk s' n = file_blk s n)
     \<and> mget 128 384 (file_blk s' 0) = mget 128 384 (file_blk s 0) \<and> fblock.more s' = fblock.more s"
proof -
  obtain u where u: "free_block_pop s = (b, u)" "fb_inv u" "free_list u = bs" "ERRNO u = ERRNO s" "fb_keep s u"
    using pop_Cons_aux[OF assms(1,2)] by blast
  have b: "block_valid b" "b \<notin> set bs"
    using fb_inv_list[OF assms(1)] assms(2) by (auto simp: fb_list_ok_def)
  have r: "fb_ready u" using u(2) by (rule fb_inv_ready)
  have "0 < b" using b(1) by (simp add: block_valid_def)
  with u(1) have "free_block_allocate buff s = (b, snd (block_write b (alloc_content buff) u))"
    using r by (auto simp: free_block_pop_def free_block_allocate_def Let_def alloc_content_def
        fb_ready_def buffers_ok_def split: option.splits)
  also have "snd (block_write b (alloc_content buff) u) = u\<lparr>file_blk := (file_blk u)(nat b := alloc_content buff)\<rparr>"
    using r b(1) assms(3) by (simp add: block_write_valid fb_ready_def)
  finally have e: "free_block_allocate buff s = (b, u\<lparr>file_blk := (file_blk u)(nat b := alloc_content buff)\<rparr>)" .
  let ?v = "u\<lparr>file_blk := (file_blk u)(nat b := alloc_content buff)\<rparr>"
  have "fb_ready ?v" using r assms(3) by (simp add: ok_defs)
  moreover have "fb_list_ok ?v bs"
    by (rule fb_list_ok_other[OF _ b]) (use fb_inv_list[OF u(2)] u(3) in simp_all)
  ultimately have "fb_inv ?v \<and> free_list ?v = bs" by (rule fb_invI)
  moreover have "nat b \<noteq> 0" using b(1) block_valid_nat by blast
  ultimately show ?thesis using e u(4,5) by (simp add: fb_keep_def)
qed

lemma allocate_Nil_aux:
  assumes "fb_inv s" "free_list s = []"
  shows "\<exists>s'. free_block_allocate buff s = (-1, s') \<and> fb_inv s' \<and> free_list s' = [] \<and> ERRNO s' = - ENOSPC
     \<and> file_blk s' = file_blk s \<and> fb_keep s s'"
proof -
  have "free_block_allocate buff s = free_block_pop s"
    using superblock_read_ok(6)[OF assms(1)] assms(2)
    by (simp add: free_block_allocate_def free_block_pop_def Let_def)
  then show ?thesis using pop_Nil_aux[OF assms] by simp
qed

lemma push_aux:
  assumes s: "fb_inv s" and b: "block_valid b" "b \<notin> set (free_list s)"
  shows "\<exists>s'. free_block_push b s = (int (length (free_list s)) + 1, s') \<and> fb_inv s'
     \<and> free_list s' = b # free_list s \<and> ERRNO s' = ERRNO s
     \<and> (\<forall>n. n \<noteq> 0 \<and> n \<noteq> nat b \<longrightarrow> file_blk s' n = file_blk s n)
     \<and> mget 128 384 (file_blk s' 0) = mget 128 384 (file_blk s 0) \<and> fblock.more s' = fblock.more s"
proof -
  define B0 h n P where "B0 = file_blk s 0" and "h = sb_head B0"
    and "n = sb_size B0" and "P = put_int 0 h B0"
  note L = fb_inv_list[OF s, unfolded fb_list_ok_def]
  have r: "fb_ready s" using s by (rule fb_inv_ready)
  have nb: "nat b \<noteq> 0" "nat b < 32768" using block_valid_nat[OF b(1)] by auto
  have l: "length B0 = 512" using r by (simp add: B0_def fb_ready_def disk_simps)
  have lP: "length P = 512" by (simp add: P_def l)
  let ?s1 = "s\<lparr>SuperBlockBuf := mget 0 128 B0, BlockBuf := P\<rparr>"
  let ?s2 = "?s1\<lparr>file_blk := (file_blk s)(nat b := P)\<rparr>"
  let ?S = "put_int 0 b (put_int 4 (n + 1) (mget 0 128 B0))"
  let ?s4 = "?s2\<lparr>SuperBlockBuf := ?S\<rparr>"
  let ?s5 = "?s4\<lparr>BlockBuf := sb_put b (n + 1) B0, file_blk := (file_blk ?s4)(0 := sb_put b (n + 1) B0)\<rparr>"
  have d: "disk_ok ?s1" "disk_ok ?s4" using r lP by (simp_all add: ok_defs)
  have w: "freeblock_write b ?s1 = ?s2"
    using block_write_valid[OF d(1) b(1) lP] by (simp add: freeblock_write_def)
  have sw: "superblock_write ?s4 = ?s5"
    using superblock_write_eq[OF d(2)] nb l by (simp add: sb_put_def B0_def)
  have len: "length (free_list s) < 32768" using valid_list_short L by blast
  have "sb_size ?S = sb_size (mget 0 128 (sb_put b (n + 1) B0))" using l by (simp add: sb_put_def mem_simps)
  also have "\<dots> = c_int (n + 1)" by (simp add: sb_size_mget sb_put_size l)
  finally have ret: "sb_size ?S = int (length (free_list s)) + 1" using L len by (simp add: n_def B0_def c_int_id)
  have p: "free_block_push b s = (sb_size ?S, ?s5)"
  proof -
    let ?t = "?s2\<lparr>SuperBlockBuf := put_int 4 (n + 1) (mget 0 128 B0)\<rparr>\<lparr>SuperBlockBuf := ?S\<rparr>"
    have t: "?t = ?s4" by simp
    have "free_block_push b s = (sb_size (SuperBlockBuf (superblock_write ?t)), superblock_write ?t)"
      unfolding free_block_push_def Let_def superblock_read_eq[OF r]
      using w by (simp add: B0_def[symmetric] sb_head_mget sb_size_mget h_def[symmetric]
          n_def[symmetric] P_def[symmetric])
    then show ?thesis unfolding t sw by simp
  qed
  have c: "chain (file_blk ?s2) b (b # free_list s)"
  proof -
    have "free_block_next P = h"
      using chain_head_c_int[of "file_blk s" h "free_list s"] L l
      by (simp add: free_block_next_def P_def mem_simps h_def B0_def)
    moreover have "\<forall>c\<in>set (free_list s). nat c \<noteq> nat b"
      using L b by (metis block_valid_nat)
    ultimately show ?thesis using L by (simp add: chain_upd h_def B0_def)
  qed
  have r2: "fb_ready ?s2" and d5: "disk_ok ?s5" using r l lP by (simp_all add: ok_defs)
  have "fb_list_ok ?s5 (b # free_list s)"
    by (rule fb_list_rewrite[where s = ?s2 and h = b and n = "n + 1"])
       (use c L b nb r2 d5 in \<open>simp_all add: n_def B0_def\<close>)
  moreover have "fb_ready ?s5" using r l lP by (simp add: ok_defs)
  ultimately have "fb_inv ?s5 \<and> free_list ?s5 = b # free_list s" by (intro fb_invI)
  then show ?thesis unfolding p ret using nb l by (simp add: sb_put_rest B0_def)
qed

section \<open>Initialisation\<close>

lemma chain_links:
  assumes "\<And>k. k \<in> {i..<n} \<Longrightarrow> free_block_next (blk k) = int k + 1"
    and "free_block_next (blk n) = -1" "i \<le> n"
  shows "chain blk (int i) (map int [i..<Suc n])"
  using assms(3,1)
proof (induction "n - i" arbitrary: i)
  case 0
  then show ?case using assms(2) by simp
next
  case (Suc m)
  then have i: "Suc i \<le> n" "m = n - Suc i" by linarith+
  then have "chain blk (int (Suc i)) (map int [Suc i..<Suc n])"
    using Suc.prems(2) by (intro Suc.hyps(1)) auto
  moreover have "[i..<Suc n] = i # [Suc i..<Suc n]" using Suc.prems(1) by (simp add: upt_conv_Cons)
  moreover have "free_block_next (blk i) = int i + 1" using Suc.prems(2)[of i] i(1) by simp
  ultimately show ?case by (simp add: add.commute)
qed

text \<open>The free list of a fresh disk from block \<open>i\<close> on; a constant, so that it stays folded.\<close>

definition blocks_from :: "nat \<Rightarrow> int list" where
  "blocks_from i = map int [i..<MAX_BLOCK_NUM]"

lemma blocks_from_Cons: "i < MAX_BLOCK_NUM \<Longrightarrow> blocks_from i = int i # blocks_from (Suc i)"
  unfolding blocks_from_def by (subst upt_conv_Cons) simp_all

lemma length_blocks_from [simp]: "length (blocks_from i) = MAX_BLOCK_NUM - i"
  by (simp only: blocks_from_def length_map length_upt)

lemma set_blocks_from: "x \<in> set (blocks_from i) \<longleftrightarrow> int i \<le> x \<and> x < int MAX_BLOCK_NUM"
proof -
  have "x = int (nat x)" if "int i \<le> x" using that by simp
  then show ?thesis unfolding blocks_from_def set_map set_upt image_iff by fastforce
qed

lemma drop_blocks_from: "drop n (blocks_from i) = blocks_from (i + n)"
  by (simp only: blocks_from_def drop_map drop_upt)

lemma init_loop:
  fixes s :: "'z fblock_scheme"
  assumes "host_ok s" "length (BlockBuf s) = 512" "n \<le> 32767"
  defines "Q \<equiv> \<lambda>k t. host_ok t \<and> length (BlockBuf t) = 512 \<and> SuperBlockBuf t = SuperBlockBuf s
      \<and> EmptyBlk t = EmptyBlk s \<and> ERRNO t = ERRNO s \<and> fblock.more t = fblock.more s
      \<and> (k \<le> 1 \<or> k * 512 \<le> file_len t)
      \<and> (\<forall>j. 1 \<le> j \<and> j < k \<longrightarrow> free_block_next (file_blk t j) = int j + 1)
      \<and> (\<forall>j. \<not> (1 \<le> j \<and> j < k) \<longrightarrow> file_blk t j = file_blk s j)"
  shows "1 \<le> n \<Longrightarrow> Q n (fold free_block_init_step [1..<n] s)"
proof (rule fold_upt_rule)
  fix k t assume k: "1 \<le> k" "k < n" and q: "Q k t"
  then have h: "host_ok t" "length (BlockBuf t) = 512" by (simp_all add: Q_def)
  let ?b = "put_int 0 (int k + 1) (BlockBuf t)"
  have w: "free_block_init_step k t =
      t\<lparr>BlockBuf := ?b, file_len := max (file_len t) (k * 512 + 512), file_blk := (file_blk t)(k := ?b)\<rparr>"
    using block_write_host[of "t\<lparr>BlockBuf := ?b\<rparr>" k ?b] h k assms(3)
    by (simp add: free_block_init_step_def freeblock_write_def host_ok_def)
  have "free_block_next ?b = int k + 1"
    using h(2) k assms(3) by (simp add: free_block_next_def mem_simps c_int_id)
  then show "Q (Suc k) (free_block_init_step k t)"
    using q k h unfolding w by (auto simp: Q_def host_ok_def less_Suc_eq)
qed (use assms in \<open>simp_all add: Q_def\<close>)

lemma superblock_write_host:
  assumes "host_ok s" "length (SuperBlockBuf s) = 128" "length (BlockBuf s) = 512"
  defines "B \<equiv> mput 0 (SuperBlockBuf s) (snd (block_read 0 (BlockBuf s) s))"
  shows "superblock_write s =
    s\<lparr>BlockBuf := B, file_len := max (file_len s) 512, file_blk := (file_blk s)(0 := B)\<rparr>"
proof -
  have h: "host_ok (s\<lparr>BlockBuf := X\<rparr>)" for X using assms(1) by (simp add: host_ok_def)
  have "length B = 512" using assms block_read_host_length[OF assms(1,3), of 0] by (simp add: B_def)
  then show ?thesis
    using block_write_host[OF h, of 0 B B]
    by (simp add: superblock_write_def freeblock_read_def freeblock_write_def B_def Let_def)
qed

lemma free_block_init_aux:
  fixes s :: "'z fblock_scheme"
  assumes s: "host_ok s"
  defines "s' \<equiv> free_block_init s"
  shows "fb_inv s' \<and> free_list s' = blocks_from 1 \<and> ERRNO s' = ERRNO s
     \<and> (\<forall>n\<ge>MAX_BLOCK_NUM. file_blk s' n = file_blk s n)
     \<and> mget 128 384 (file_blk s' 0) = mget 128 384 (snd (block_read 0 (zeros 512) s))
     \<and> fblock.more s' = fblock.more s"
proof -
  define S where "S = put_int 4 32767 (put_int 0 1 (zeros 128))"
  define R where "R = snd (block_read 0 (zeros 512) s)"
  define B where "B = mput 0 S R"
  let ?s1 = "s\<lparr>BlockBuf := zeros 512, EmptyBlk := zeros 512, SuperBlockBuf := S\<rparr>"
  let ?s2 = "?s1\<lparr>BlockBuf := B, file_len := max (file_len s) 512, file_blk := (file_blk s)(0 := B)\<rparr>"
  have lS: "length S = 128" by (simp add: S_def)
  have lR: "length R = 512" unfolding R_def using s by (rule block_read_host_length) simp
  have lB: "length B = 512" by (simp add: B_def lS lR)
  have R': "snd (block_read 0 (zeros 512) ?s1) = R" by (simp add: R_def block_read_def pread_def)
  have sw: "superblock_write ?s1 = ?s2"
    using superblock_write_host[of ?s1] s lS R' by (simp add: B_def host_ok_def)
  have h2: "host_ok ?s2" using s lB by (simp add: host_ok_def)
  define t where "t = fold free_block_init_step [1..<MAX_BLOCK_NUM - 1] ?s2"
  have q: "host_ok t" "length (BlockBuf t) = 512" "SuperBlockBuf t = S" "EmptyBlk t = zeros 512"
    "ERRNO t = ERRNO s" "fblock.more t = fblock.more s"
    "\<forall>j. 1 \<le> j \<and> j < 32767 \<longrightarrow> free_block_next (file_blk t j) = int j + 1"
    "\<forall>j. \<not> (1 \<le> j \<and> j < 32767) \<longrightarrow> file_blk t j = file_blk ?s2 j"
    using init_loop[OF h2, of "MAX_BLOCK_NUM - 1"] lB unfolding t_def by simp_all
  let ?E = "put_int 0 (-1) (BlockBuf t)"
  have "s' = freeblock_write 32767 (t\<lparr>BlockBuf := ?E\<rparr>)"
    unfolding s'_def free_block_init_def Let_def t_def
    using sw by (simp add: S_def)
  also have "\<dots> = t\<lparr>BlockBuf := ?E, file_len := max (file_len t) (32768 * 512), file_blk := (file_blk t)(32767 := ?E)\<rparr>"
    using block_write_host[of "t\<lparr>BlockBuf := ?E\<rparr>" 32767 ?E] q(1,2)
    by (simp add: freeblock_write_def host_ok_def)
  finally have e: "s' = t\<lparr>BlockBuf := ?E, file_len := max (file_len t) (32768 * 512), file_blk := (file_blk t)(32767 := ?E)\<rparr>" .
  have r: "fb_ready s'" using q lS by (simp add: e ok_defs)
  have b0: "file_blk s' 0 = B" using q(8) by (simp add: e)
  have hd: "sb_head B = 1" and sz: "sb_size B = 32767"
    by (simp_all add: B_def sb_head_def sb_size_def lS lR S_def get_int_def get32_def mem_simps)
       (simp_all add: put_int_def put32_def mem_simps)
  have "chain (file_blk s') (int 1) (map int [1..<Suc 32767])"
    by (rule chain_links) (use q(2,7) in \<open>auto simp: e free_block_next_def mem_simps c_int_id\<close>)
  then have "chain (file_blk s') 1 (blocks_from 1)" by (simp add: blocks_from_def del: upt_Suc upt_rec_numeral)
  moreover have "distinct (blocks_from 1)" unfolding blocks_from_def distinct_map by simp
  ultimately have "fb_list_ok s' (blocks_from 1)"
    by (auto simp: fb_list_ok_def b0 hd sz block_valid_def set_blocks_from)
  then have "fb_inv s' \<and> free_list s' = blocks_from 1" by (rule fb_invI[OF r])
  moreover have "mget 128 384 B = mget 128 384 R" by (simp add: B_def lS lR mem_simps)
  ultimately show ?thesis using q(5,6,8) b0 by (simp add: e R_def)
qed

section \<open>The interfaces, provided by the free list\<close>

interpretation fb: id_stack free_block_pop "\<lambda>b s. Some (snd (free_block_push b s))" free_list
  block_valid fb_inv ERRNO fb_keep
proof
  fix s :: "'z fblock_scheme" and x xs
  assume "fb_inv s"
  then show "distinct (free_list s)" and "x \<in> set (free_list s) \<Longrightarrow> block_valid x"
    by (auto dest!: fb_inv_list simp: fb_list_ok_def)
next
  fix s :: "'z fblock_scheme" and x xs
  assume "fb_inv s" "free_list s = x # xs"
  then show "\<exists>s'. free_block_pop s = (x, s') \<and> fb_inv s' \<and> free_list s' = xs \<and> ERRNO s' = ERRNO s \<and> fb_keep s s'"
    by (rule pop_Cons_aux)
next
  fix s :: "'z fblock_scheme"
  assume "fb_inv s" "free_list s = []"
  from pop_Nil_aux[OF this]
  show "\<exists>x s'. free_block_pop s = (x, s') \<and> \<not> block_valid x \<and> fb_inv s' \<and> free_list s' = [] \<and> ERRNO s' = - ENOSPC \<and> fb_keep s s'"
    by (fastforce simp: block_valid_def)
next
  fix s :: "'z fblock_scheme" and x
  assume "fb_inv s" "block_valid x" "x \<notin> set (free_list s)"
  from push_aux[OF this]
  show "\<exists>s'. Some (snd (free_block_push x s)) = Some s' \<and> fb_inv s' \<and> free_list s' = x # free_list s \<and> ERRNO s' = ERRNO s"
    by auto
qed (auto intro: fb_keep_refl fb_keep_trans)

section \<open>A freshly formatted disk\<close>

definition blank :: fblock where
  "blank = \<lparr>ERRNO = 0, diskfile = 3, fd_open = True, file_len = 0, file_blk = (\<lambda>_. zeros 512),
     SuperBlockBuf = zeros 128, BlockBuf = zeros 512, EmptyBlk = zeros 512\<rparr>"

lemma host_ok_blank: "host_ok blank"
  by (simp add: blank_def host_ok_def)

lemma formatted_blank: "fb_inv (free_block_init blank)" "free_list (free_block_init blank) = blocks_from 1"
  using free_block_init_aux[OF host_ok_blank] by blast+

lemma formatted_blank_Cons: "free_list (free_block_init blank) = 1 # blocks_from 2"
  using blocks_from_Cons[of 1] by (simp add: formatted_blank numeral_2_eq_2)

section \<open>Properties\<close>

text \<open>
  Formatting: from any open host file, free_block_init leaves an intact free list that holds
  exactly the blocks 1 to 32767 in increasing order, a length field of 32767, no change to the
  pending error, to blocks past the file system, or to the inodes sharing block 0.
\<close>

theorem free_block_init_formats:
  assumes "host_ok s"
  shows "fb_inv (free_block_init s)
    \<and> free_list (free_block_init s) = blocks_from 1
    \<and> sb_size (file_blk (free_block_init s) 0) = int MAX_BLOCK_NUM - 1
    \<and> ERRNO (free_block_init s) = ERRNO s
    \<and> (\<forall>n\<ge>MAX_BLOCK_NUM. file_blk (free_block_init s) n = file_blk s n)
    \<and> mget 128 384 (file_blk (free_block_init s) 0) = mget 128 384 (snd (block_read 0 (zeros 512) s))"
proof -
  note i = free_block_init_aux[OF assms]
  then have "fb_list_ok (free_block_init s) (blocks_from 1)" using fb_inv_list by metis
  then have "sb_size (file_blk (free_block_init s) 0) = int MAX_BLOCK_NUM - 1"
    by (simp add: fb_list_ok_def)
  with i show ?thesis by blast
qed

theorem free_block_init_formats_witness:
  "free_list (free_block_init blank) = blocks_from 1 \<and> sb_size (file_blk (free_block_init blank) 0) = 32767"
  using free_block_init_formats[OF host_ok_blank] by simp

text \<open>
  C23. free_block_pop on every branch: a nonempty list yields its head and keeps the rest, an
  empty one yields -1 and the pending error ENOSPC; either way the list stays intact, every
  block but block 0 keeps its contents, and block 0 keeps the inodes it holds.
\<close>

theorem free_block_pop_spec:
  assumes "fb_inv s"
  shows "\<exists>s'. free_block_pop s = ((case free_list s of [] \<Rightarrow> -1 | b # _ \<Rightarrow> b), s')
    \<and> fb_inv s' \<and> free_list s' = tl (free_list s)
    \<and> ERRNO s' = (if free_list s = [] then - ENOSPC else ERRNO s)
    \<and> (\<forall>n. n \<noteq> 0 \<longrightarrow> file_blk s' n = file_blk s n)
    \<and> mget 128 384 (file_blk s' 0) = mget 128 384 (file_blk s 0)"
proof (cases "free_list s")
  case Nil
  from pop_Nil_aux[OF assms Nil] show ?thesis using Nil by (auto simp: fb_keep_def)
next
  case (Cons b bs)
  from pop_Cons_aux[OF assms Cons] show ?thesis using Cons by (auto simp: fb_keep_def)
qed

theorem free_block_pop_spec_witness:
  "\<exists>s'. free_block_pop (free_block_init blank) = (1, s') \<and> fb_inv s' \<and> free_list s' = blocks_from 2"
  using free_block_pop_spec[OF formatted_blank(1)]
  by (auto simp: formatted_blank_Cons)

text \<open>
  free_block_allocate hands out the head of the list with the given contents (a zero block
  for a NULL buffer) and writes no other block but block 0.
\<close>

theorem free_block_allocate_spec:
  assumes "fb_inv s" "free_list s = b # bs" "length (alloc_content buff) = BLOCK_SIZE"
  shows "\<exists>s'. free_block_allocate buff s = (b, s') \<and> fb_inv s' \<and> free_list s' = bs
    \<and> file_blk s' (nat b) = alloc_content buff
    \<and> (\<forall>n. n \<noteq> 0 \<and> n \<noteq> nat b \<longrightarrow> file_blk s' n = file_blk s n) \<and> ERRNO s' = ERRNO s"
  using allocate_Cons_aux[OF assms] by blast

theorem free_block_allocate_spec_witness:
  "\<exists>s'. free_block_allocate None (free_block_init blank) = (1, s') \<and> fb_inv s'
     \<and> file_blk s' 1 = zeros 512"
  using free_block_allocate_spec[OF formatted_blank(1) formatted_blank_Cons, of None]
  by (auto simp: alloc_content_def)

text \<open>
  Freed blocks come back first: pushing a block that is not on the list and popping returns
  that block and restores the list.
\<close>

theorem free_block_push_pop:
  assumes "fb_inv s" "block_valid b" "b \<notin> set (free_list s)"
  shows "\<exists>s'. free_block_pop (snd (free_block_push b s)) = (b, s') \<and> fb_inv s' \<and> free_list s' = free_list s"
  using fb.push_pop[OF assms] by auto

theorem free_block_push_pop_witness:
  "\<exists>s' s''. free_block_pop (free_block_init blank) = (1, s')
     \<and> free_block_pop (snd (free_block_push 1 s')) = (1, s'') \<and> free_list s'' = blocks_from 2"
proof -
  obtain s' where s': "free_block_pop (free_block_init blank) = (1, s')" "fb_inv s'" "free_list s' = blocks_from 2"
    using pop_Cons_aux[OF formatted_blank(1) formatted_blank_Cons] by blast
  have "1 \<notin> set (free_list s')" by (simp add: s'(3) set_blocks_from)
  from free_block_push_pop[OF s'(2) _ this] s' show ?thesis by (auto simp: block_valid_def)
qed

text \<open>
  C24. Many pops in a row: as long as the list lasts, n pops return its first n blocks in order,
  all different, and set no error; popping more than the list holds leaves ENOSPC pending and
  the list empty.
\<close>

theorem free_block_pops:
  assumes "fb_inv s"
  shows "(n \<le> length (free_list s) \<longrightarrow>
      (\<exists>s'. fb.takes n s = (take n (free_list s), s') \<and> free_list s' = drop n (free_list s) \<and> ERRNO s' = ERRNO s))
    \<and> (length (free_list s) < n \<longrightarrow>
      (\<exists>xs s'. fb.takes n s = (xs, s') \<and> free_list s' = [] \<and> ERRNO s' = - ENOSPC))"
proof -
  have c: "card (set (free_list s)) = length (free_list s)"
    using fb.stk_distinct[OF assms] by (rule distinct_card)
  obtain xs s' where t: "fb.takes n s = (xs, s')" by (cases "fb.takes n s")
  show ?thesis
    using fb.takes_in_order[OF assms, of n] fb.takes_too_many[OF assms _ t] c t by auto
qed

theorem free_block_pops_witness:
  "\<exists>xs s'. fb.takes 32768 (free_block_init blank) = (xs, s') \<and> free_list s' = [] \<and> ERRNO s' = - ENOSPC"
  using free_block_pops[OF formatted_blank(1), of 32768]
  by (simp add: formatted_blank(2) del: fb.takes.simps)

end
