(* ===== verification/FS_CString.thy ===== *)
theory FS_CString
  imports FS_Prelude
begin

text \<open>
  C strings. A \<open>const char *\<close> is the list of the bytes readable from the pointer on: the
  string, its terminating NUL, and whatever follows it in memory. Reading past the end of
  the list is undefined behaviour, the value \<open>None\<close>; so is a copy that does not fit its
  destination.
\<close>

section \<open>The string functions of the program\<close>

definition cstr :: "byte list \<Rightarrow> byte list" where
  "cstr p = takeWhile (\<lambda>c. c \<noteq> 0) p"

definition terminated :: "byte list \<Rightarrow> bool" where
  "terminated p \<longleftrightarrow> 0 \<in> set p"

definition c_strlen :: "byte list \<Rightarrow> nat option" where
  "c_strlen p = (if terminated p then Some (length (cstr p)) else None)"

definition c_strcpy :: "byte list \<Rightarrow> byte list \<Rightarrow> byte list option" where
  "c_strcpy dst src = do {
     n \<leftarrow> c_strlen src;
     (if n + 1 \<le> length dst then Some (mput 0 (take (n + 1) src) dst) else None)
   }"

text \<open>\<open>strcmp\<close> and \<open>strncmp\<close> are only ever compared with 0: \<open>Some True\<close> is equality.\<close>

fun strcmp0 :: "byte list \<Rightarrow> byte list \<Rightarrow> bool option" where
  "strcmp0 (x # a) (y # b) =
     (if x \<noteq> y then Some False else if x = 0 then Some True else strcmp0 a b)"
| "strcmp0 _ _ = None"

fun strncmp0 :: "byte list \<Rightarrow> byte list \<Rightarrow> nat \<Rightarrow> bool option" where
  "strncmp0 a b 0 = Some True"
| "strncmp0 (x # a) (y # b) (Suc n) =
     (if x \<noteq> y then Some False else if x = 0 then Some True else strncmp0 a b n)"
| "strncmp0 _ _ (Suc n) = None"

text \<open>\<open>strrchr(p, c)\<close> for \<open>c\<close> not NUL: the offset of the last occurrence, \<open>None\<close> for NULL.\<close>

definition strrchr :: "byte list \<Rightarrow> byte \<Rightarrow> nat option" where
  "strrchr p c = (let s = cstr p in
     if c \<in> set s then Some (length s - 1 - length (takeWhile (\<lambda>x. x \<noteq> c) (rev s))) else None)"

section \<open>Their behaviour on terminated strings\<close>

lemma cstr_Nil [simp]: "cstr [] = []"
  by (simp add: cstr_def)

lemma cstr_zeros [simp]: "cstr (replicate n 0) = []"
  by (cases n) (simp_all add: cstr_def)

lemma cstr_Cons: "cstr (x # xs) = (if x = 0 then [] else x # cstr xs)"
  by (simp add: cstr_def)

lemma terminated_Cons: "terminated (x # xs) \<longleftrightarrow> x = 0 \<or> terminated xs"
  by (auto simp: terminated_def)

lemma cstr_no_nul: "0 \<notin> set (cstr p)"
  by (auto simp: cstr_def dest: set_takeWhileD)

lemma cstr_append_nul [simp]: "0 \<notin> set s \<Longrightarrow> cstr (s @ 0 # r) = s"
  by (induction s) (auto simp: cstr_Cons)

lemma terminated_append_nul [simp]: "terminated (s @ 0 # r)"
  by (simp add: terminated_def)

lemma cstr_take_cstr: "length (cstr p) < n \<Longrightarrow> cstr (take n p) = cstr p"
  by (induction p arbitrary: n) (auto simp: cstr_Cons take_Cons split: nat.splits)

lemma terminated_split: "terminated p \<Longrightarrow> \<exists>r. p = cstr p @ 0 # r"
proof (induction p)
  case (Cons x p)
  then show ?case by (cases "x = 0") (auto simp: cstr_Cons terminated_Cons)
qed (simp add: terminated_def)

lemma length_cstr_less: "terminated p \<Longrightarrow> length (cstr p) < length p"
  by (induction p) (auto simp: cstr_Cons terminated_Cons terminated_def)

lemma strcmp0_terminated:
  "terminated a \<Longrightarrow> terminated b \<Longrightarrow> strcmp0 a b = Some (cstr a = cstr b)"
proof (induction a b rule: strcmp0.induct)
  case (1 x a y b)
  then show ?case by (auto simp: cstr_Cons terminated_Cons)
qed (auto simp: terminated_def)

text \<open>The bytes a bounded comparison may read: up to the NUL or to the bound.\<close>

definition readable :: "nat \<Rightarrow> byte list \<Rightarrow> bool" where
  "readable n p \<longleftrightarrow> terminated p \<or> n \<le> length p"

lemma strncmp0_readable:
  "readable n a \<Longrightarrow> readable n b \<Longrightarrow> strncmp0 a b n = Some (take n (cstr a) = take n (cstr b))"
proof (induction a b n rule: strncmp0.induct)
  case (2 x a y b n)
  then show ?case by (auto simp: cstr_Cons readable_def terminated_Cons)
qed (auto simp: readable_def terminated_def)

lemma c_strcpy_Some:
  assumes "terminated src" "length (cstr src) + 1 \<le> length dst"
  shows "\<exists>out. c_strcpy dst src = Some out \<and> length out = length dst \<and> terminated out \<and> cstr out = cstr src"
proof -
  obtain r where r: "src = cstr src @ 0 # r" using assms(1) terminated_split by blast
  define n where "n = length (cstr src)"
  have t: "take (n + 1) src = cstr src @ [0]" by (subst r) (simp add: n_def)
  have "c_strcpy dst src = Some (mput 0 (take (n + 1) src) dst)"
    using assms by (simp add: c_strcpy_def c_strlen_def n_def)
  moreover have "mput 0 (take (n + 1) src) dst = cstr src @ 0 # drop (n + 1) dst"
    by (simp only: t mput_def) (simp add: n_def)
  ultimately show ?thesis
    using assms cstr_no_nul[of src] by (simp add: n_def)
qed

lemma strrchr_last:
  assumes "s = a @ c # b" "c \<notin> set b" "0 \<notin> set s"
  shows "strrchr (s @ 0 # r) c = Some (length a)"
proof -
  have "takeWhile (\<lambda>x. x \<noteq> c) (rev b @ c # rev a) = rev b"
    using assms(2) by (subst takeWhile_append2) auto
  moreover have "cstr (s @ 0 # r) = a @ c # b" using assms by (metis cstr_append_nul)
  ultimately show ?thesis by (simp add: strrchr_def Let_def)
qed

lemma strrchr_None: "0 \<notin> set s \<Longrightarrow> c \<notin> set s \<Longrightarrow> strrchr (s @ 0 # r) c = None"
  by (simp add: strrchr_def Let_def)

end
