(* ===== verification/FS_Inode.thy ===== *)
theory FS_Inode
  imports FS_FreeBlock FS_CString
begin

text \<open>
  Inodes (\<open>prelude/inode.h\<close> and the first part of \<open>prelude/inode.c\<close>): the 128-byte
  union of the on-disk formats, loading and dumping an inode, initialisation and attributes.
  Four inodes share a block; inode \<open>n\<close> is the slot \<open>n mod 4\<close> of block \<open>n div 4\<close>, and
  slot 0 of block 0 is the superblock.
\<close>

section \<open>Layout (inode.h)\<close>

abbreviation INODE_SIZE :: nat where "INODE_SIZE \<equiv> 128"
abbreviation INODE_BLK_SIZE :: nat where "INODE_BLK_SIZE \<equiv> 1024"
abbreviation DENTRY_MAX_SIZE :: int where "DENTRY_MAX_SIZE \<equiv> 2086"
abbreviation FENTRY_MAX_SIZE :: int where "FENTRY_MAX_SIZE \<equiv> 8344"
abbreviation FCONTENT_MAX_SIZE :: int where "FCONTENT_MAX_SIZE \<equiv> FENTRY_MAX_SIZE * int BLOCK_SIZE"

text \<open>
  \<open>union inode_t\<close> is its 128 bytes, and a member of the union a view of them: the metadata
  at 0, six directory entries or 24 block numbers at 16, the four single page numbers at 112,
  the four double ones at 120; the entries of a page, the numbers of a double page, at 0.
\<close>

type_synonym inode_t = "byte list"

definition md_ino :: "inode_t \<Rightarrow> ushort" where "md_ino nd = get16 0 nd"
definition md_pno :: "inode_t \<Rightarrow> ushort" where "md_pno nd = get16 2 nd"
definition md_size :: "inode_t \<Rightarrow> ushort" where "md_size nd = get16 4 nd"
definition md_nlink :: "inode_t \<Rightarrow> ushort" where "md_nlink nd = get16 6 nd"
definition md_fsize :: "inode_t \<Rightarrow> blknum_t" where "md_fsize nd = get32 8 nd"
definition md_isdir :: "inode_t \<Rightarrow> byte" where "md_isdir nd = nd ! 12"

definition set_ino :: "ushort \<Rightarrow> inode_t \<Rightarrow> inode_t" where "set_ino v nd = put16 0 v nd"
definition set_pno :: "ushort \<Rightarrow> inode_t \<Rightarrow> inode_t" where "set_pno v nd = put16 2 v nd"
definition set_size :: "ushort \<Rightarrow> inode_t \<Rightarrow> inode_t" where "set_size v nd = put16 4 v nd"
definition set_nlink :: "ushort \<Rightarrow> inode_t \<Rightarrow> inode_t" where "set_nlink v nd = put16 6 v nd"
definition set_fsize :: "blknum_t \<Rightarrow> inode_t \<Rightarrow> inode_t" where "set_fsize v nd = put32 8 v nd"
definition set_isdir :: "byte \<Rightarrow> inode_t \<Rightarrow> inode_t" where "set_isdir v nd = mput 12 [v] nd"

record di_ent =
  de_name :: "byte list"
  de_inum :: ushort

definition di_ent_of :: "byte list \<Rightarrow> di_ent" where
  "di_ent_of bs = \<lparr>de_name = mget 0 14 bs, de_inum = get16 14 bs\<rparr>"

definition di_ent_bytes :: "di_ent \<Rightarrow> byte list" where
  "di_ent_bytes e = de_name e @ le16 (de_inum e)"

text \<open>\<open>dinum[i]\<close> of a directory inode and of a directory page.\<close>

definition idir_dinum :: "inode_t \<Rightarrow> nat \<Rightarrow> di_ent" where
  "idir_dinum nd i = di_ent_of (mget (16 + 16 * i) 16 nd)"

definition set_idir_dinum :: "nat \<Rightarrow> di_ent \<Rightarrow> inode_t \<Rightarrow> inode_t" where
  "set_idir_dinum i e nd = mput (16 + 16 * i) (di_ent_bytes e) nd"

definition pdir_dinum :: "inode_t \<Rightarrow> nat \<Rightarrow> di_ent" where
  "pdir_dinum nd i = di_ent_of (mget (16 * i) 16 nd)"

definition set_pdir_dinum :: "nat \<Rightarrow> di_ent \<Rightarrow> inode_t \<Rightarrow> inode_t" where
  "set_pdir_dinum i e nd = mput (16 * i) (di_ent_bytes e) nd"

text \<open>\<open>blknum[i]\<close> of a file inode and of a file page.\<close>

definition ifile_blknum :: "inode_t \<Rightarrow> nat \<Rightarrow> blknum_t" where
  "ifile_blknum nd i = get32 (16 + 4 * i) nd"

definition set_ifile_blknum :: "nat \<Rightarrow> blknum_t \<Rightarrow> inode_t \<Rightarrow> inode_t" where
  "set_ifile_blknum i v nd = put32 (16 + 4 * i) v nd"

definition pfile_blknum :: "inode_t \<Rightarrow> nat \<Rightarrow> blknum_t" where
  "pfile_blknum nd i = get32 (4 * i) nd"

definition set_pfile_blknum :: "nat \<Rightarrow> blknum_t \<Rightarrow> inode_t \<Rightarrow> inode_t" where
  "set_pfile_blknum i v nd = put32 (4 * i) v nd"

text \<open>
  \<open>dpnum[i]\<close> and \<open>fpnum[i]\<close> are the same two bytes, and so are \<open>ex_dpnum[i]\<close> and
  \<open>ex_fpnum[i]\<close>; \<open>exnum[j]\<close> is an entry of a double page.
\<close>

definition pnum_at :: "inode_t \<Rightarrow> nat \<Rightarrow> ushort" where "pnum_at nd i = get16 (112 + 2 * i) nd"
definition set_pnum :: "nat \<Rightarrow> ushort \<Rightarrow> inode_t \<Rightarrow> inode_t" where
  "set_pnum i v nd = put16 (112 + 2 * i) v nd"

definition ex_pnum_at :: "inode_t \<Rightarrow> nat \<Rightarrow> ushort" where "ex_pnum_at nd i = get16 (120 + 2 * i) nd"
definition set_ex_pnum :: "nat \<Rightarrow> ushort \<Rightarrow> inode_t \<Rightarrow> inode_t" where
  "set_ex_pnum i v nd = put16 (120 + 2 * i) v nd"

definition exnum_at :: "inode_t \<Rightarrow> nat \<Rightarrow> ushort" where "exnum_at nd j = get16 (2 * j) nd"
definition set_exnum :: "nat \<Rightarrow> ushort \<Rightarrow> inode_t \<Rightarrow> inode_t" where
  "set_exnum j v nd = put16 (2 * j) v nd"

lemmas layout_defs = md_ino_def md_pno_def md_size_def md_nlink_def md_fsize_def md_isdir_def
  set_ino_def set_pno_def set_size_def set_nlink_def set_fsize_def set_isdir_def
  idir_dinum_def set_idir_dinum_def pdir_dinum_def set_pdir_dinum_def
  ifile_blknum_def set_ifile_blknum_def pfile_blknum_def set_pfile_blknum_def
  pnum_at_def set_pnum_def ex_pnum_at_def set_ex_pnum_def exnum_at_def set_exnum_def

section \<open>State and operations\<close>

text \<open>
  The static data of inode.c: the block buffer of load and dump, and the two arrays
  \<open>d\<close> (2086 directory entries) and \<open>f\<close> (8344 block numbers), as their bytes; both
  arrays happen to have 33376 bytes.
\<close>

record fs = fblock +
  iblockbuf :: "byte list"
  d_arr :: "byte list"
  f_arr :: "byte list"

abbreviation ARR_BYTES :: nat where "ARR_BYTES \<equiv> 33376"

text \<open>A C \<open>union inode_t\<close> local before its first store: a nonnegative load overwrites it whole.\<close>

abbreviation uninit :: inode_t where "uninit \<equiv> []"

definition inode_load :: "int \<Rightarrow> inode_t \<Rightarrow> fs \<Rightarrow> inode_t \<times> fs" where
  "inode_load inum inode s =
     (if inum < 0 then (inode, s)
      else let bidx = inum div 4; iidx = inum mod 4;
               s = s\<lparr>iblockbuf := snd (block_read bidx (iblockbuf s) s)\<rparr>
           in (mget (INODE_SIZE * nat iidx) INODE_SIZE (iblockbuf s), s))"

definition inode_dump :: "int \<Rightarrow> inode_t \<Rightarrow> fs \<Rightarrow> fs" where
  "inode_dump inum inode s =
     (if inum < 0 then s
      else let bidx = inum div 4; iidx = inum mod 4;
               s = s\<lparr>iblockbuf := snd (block_read bidx (iblockbuf s) s)\<rparr>;
               s = s\<lparr>iblockbuf := mput (INODE_SIZE * nat iidx) inode (iblockbuf s)\<rparr>
           in snd (block_write bidx (iblockbuf s) s))"

text \<open>\<open>di_ent_c\<close> copies 14 bytes whatever the length of the string; reading past the memory of
  the argument is undefined.\<close>

definition di_ent_c :: "byte list \<Rightarrow> ushort \<Rightarrow> di_ent option" where
  "di_ent_c fname ino =
     (if length fname < 14 then None
      else Some \<lparr>de_name = (take 14 fname)[13 := 0], de_inum = ino\<rparr>)"

definition dot_name :: "byte list" where "dot_name = 46 # zeros 13"
definition dotdot_name :: "byte list" where "dotdot_name = 46 # 46 # zeros 12"

definition dnode_init :: "ushort \<Rightarrow> ushort \<Rightarrow> fs \<Rightarrow> fs" where
  "dnode_init inum pnum s =
     (let nd = zeros INODE_SIZE;
          nd = set_isdir 1 nd;
          nd = set_nlink 2 nd;
          nd = set_ino inum nd;
          nd = set_pno pnum nd;
          nd = set_size 2 nd;
          nd = set_idir_dinum 0 \<lparr>de_name = dot_name, de_inum = inum\<rparr> nd;
          nd = set_idir_dinum 1 \<lparr>de_name = dotdot_name, de_inum = pnum\<rparr> nd
      in inode_dump (uint inum) nd s)"

definition fnode_init :: "ushort \<Rightarrow> ushort \<Rightarrow> fs \<Rightarrow> fs" where
  "fnode_init inum pnum s =
     (if uint inum < 0 then s
      else let nd = zeros INODE_SIZE;
               nd = set_isdir 0 nd;
               nd = set_nlink 1 nd;
               nd = set_ino inum nd;
               nd = set_pno pnum nd;
               nd = set_size 0 nd;
               nd = set_fsize 0 nd
           in inode_dump (uint inum) nd s)"

text \<open>The bitmap block: all ones but the bits of inodes 0, 1 and 2.\<close>

definition bitmap_init :: "byte list" where
  "bitmap_init = (replicate BLOCK_SIZE 0xff)[0 := 0x1f]"

definition inode_init :: "fs \<Rightarrow> fs" where
  "inode_init s =
     (let s = fold (\<lambda>i s. snd (free_block_pop s)) [1..<INODE_BLK_SIZE] s;
          s = snd (free_block_pop s);
          s = snd (block_write (int INODE_BLK_SIZE) bitmap_init s)
      in dnode_init 2 2 s)"

section \<open>Attributes\<close>

record stat =
  st_mode :: int
  st_nlink :: int
  st_uid :: int
  st_gid :: int
  st_size :: int
  st_blksize :: int
  st_blocks :: int

definition DIR_MODE :: int where "DIR_MODE = 0x4000 OR 0x1ed" \<comment> \<open>S_IFDIR, 0755\<close>
definition REG_MODE :: int where "REG_MODE = 0x8000 OR 0x1a4" \<comment> \<open>S_IFREG, 0644\<close>

definition inode_get_attr :: "ushort \<Rightarrow> stat \<Rightarrow> fs \<Rightarrow> stat \<times> fs" where
  "inode_get_attr inum statbuf s =
     (let (nd, s) = inode_load (uint inum) uninit s;
          statbuf = statbuf\<lparr>st_blksize := int BLOCK_SIZE\<rparr>
      in (if md_isdir nd = 1
          then statbuf\<lparr>st_mode := DIR_MODE, st_nlink := uint (md_nlink nd), st_blocks := 0,
                       st_size := uint (md_size nd)\<rparr>
          else statbuf\<lparr>st_mode := REG_MODE, st_nlink := uint (md_nlink nd),
                       st_blocks := uint (md_size nd), st_size := uint (md_fsize nd)\<rparr>, s))"

text \<open>The values stored through the three pointers; a NULL argument drops its component.\<close>

definition inode_get_attr_upc :: "ushort \<Rightarrow> fs \<Rightarrow> (int \<times> int \<times> int) \<times> fs" where
  "inode_get_attr_upc inum s =
     (let (nd, s) = inode_load (uint inum) uninit s;
          (mode, sz) = (if md_isdir nd \<noteq> 0 then (DIR_MODE, uint (md_size nd))
                          else (REG_MODE, sint (md_fsize nd)))
      in ((mode, uint (md_nlink nd), sz), s))"

definition inode_set_attr_upc :: "ushort \<Rightarrow> int option \<Rightarrow> int option \<Rightarrow> fs \<Rightarrow> fs" where
  "inode_set_attr_upc inum nl sz s =
     (let (nd, s) = inode_load (uint inum) uninit s;
          nd = (if md_isdir nd \<noteq> 0
                then (case sz of None \<Rightarrow> nd
                      | Some z \<Rightarrow> set_size (word_of_int (if DENTRY_MAX_SIZE < z then DENTRY_MAX_SIZE else z)) nd)
                else (case sz of None \<Rightarrow> nd
                      | Some z \<Rightarrow> set_fsize (word_of_int (if FCONTENT_MAX_SIZE < z then FCONTENT_MAX_SIZE else z)) nd));
          nd = (case nl of None \<Rightarrow> nd | Some k \<Rightarrow> set_nlink (word_of_int k) nd)
      in inode_dump (uint inum) nd s)"

section \<open>The disk as an array of inodes\<close>

definition inode_at :: "'z hostdisk_scheme \<Rightarrow> nat \<Rightarrow> inode_t" where
  "inode_at s n = mget (INODE_SIZE * (n mod 4)) INODE_SIZE (file_blk s (n div 4))"

abbreviation MAX_INODES :: nat where "MAX_INODES \<equiv> 131072"

lemma slot_le: "INODE_SIZE * (n mod 4) + INODE_SIZE \<le> 512"
proof -
  have "n mod 4 \<le> 3" by simp
  then show ?thesis by linarith
qed

lemma length_inode_at [simp]: "disk_ok s \<Longrightarrow> length (inode_at s n) = INODE_SIZE"
  using slot_le[of n] by (simp add: inode_at_def disk_simps min_def)

lemma slot_disjoint:
  "n \<noteq> m \<Longrightarrow> n div 4 = m div 4 \<Longrightarrow>
   INODE_SIZE * (m mod 4) + INODE_SIZE \<le> INODE_SIZE * (n mod 4)
   \<or> INODE_SIZE * (n mod 4) + INODE_SIZE \<le> INODE_SIZE * (m mod 4)"
proof -
  assume "n \<noteq> m" "n div 4 = m div 4"
  then have "n mod 4 \<noteq> m mod 4" by (metis div_mult_mod_eq)
  then show ?thesis by linarith
qed

lemma inode_load_eq:
  assumes "disk_ok s" "n < MAX_INODES"
  shows "inode_load (int n) b s = (inode_at s n, s\<lparr>iblockbuf := file_blk s (n div 4)\<rparr>)"
proof -
  have "n div 4 < 32768" using assms(2) by (simp add: less_mult_imp_div_less)
  with assms(1) block_read_ok[of s "n div 4"] show ?thesis
    by (simp add: inode_load_def Let_def inode_at_def zdiv_int zmod_int nat_mod_distrib)
qed

lemma inode_dump_eq:
  assumes "disk_ok s" "n < MAX_INODES" "length nd = INODE_SIZE"
  defines "B \<equiv> mput (INODE_SIZE * (n mod 4)) nd (file_blk s (n div 4))"
  shows "inode_dump (int n) nd s =
    s\<lparr>iblockbuf := B, file_blk := (file_blk s)(n div 4 := B)\<rparr>"
proof -
  have n: "n div 4 < 32768" using assms(2) by (simp add: less_mult_imp_div_less)
  have d: "disk_ok (s\<lparr>iblockbuf := X\<rparr>)" for X using assms(1) by (simp add: ok_defs)
  have "length B = 512" using assms(1,3) slot_le[of n] by (simp add: B_def disk_simps)
  with assms(1) n d block_read_ok[of s "n div 4"] block_write_ok[OF d n, of B] show ?thesis
    by (simp add: inode_dump_def Let_def B_def zdiv_int zmod_int nat_mod_distrib)
qed

text \<open>A \<open>ushort\<close> argument is always a slot of the disk.\<close>

lemma unat_ushort_less [simp]: "unat (w :: ushort) < MAX_INODES"
  by (rule order.strict_trans2[OF unsigned_less]) simp

lemma uint_ushort: "uint (w :: ushort) = int (unat w)"
  by simp

lemma inode_load_ushort:
  "disk_ok s \<Longrightarrow> inode_load (uint (w :: ushort)) b s =
     (inode_at s (unat w), s\<lparr>iblockbuf := file_blk s (unat w div 4)\<rparr>)"
  using inode_load_eq[of s "unat w" b] by simp

lemma inode_dump_frame [simp]:
  "ERRNO (inode_dump n nd s) = ERRNO s"
  "d_arr (inode_dump n nd s) = d_arr s"
  "f_arr (inode_dump n nd s) = f_arr s"
  "SuperBlockBuf (inode_dump n nd s) = SuperBlockBuf s"
  "BlockBuf (inode_dump n nd s) = BlockBuf s"
  "EmptyBlk (inode_dump n nd s) = EmptyBlk s"
  by (auto simp: inode_dump_def Let_def block_write_def pwrite_def)

lemma inode_load_frame [simp]:
  "ERRNO (snd (inode_load n b s)) = ERRNO s"
  "d_arr (snd (inode_load n b s)) = d_arr s"
  "f_arr (snd (inode_load n b s)) = f_arr s"
  "file_blk (snd (inode_load n b s)) = file_blk s"
  by (auto simp: inode_load_def Let_def)

lemma disk_ok_dump:
  "disk_ok s \<Longrightarrow> n < MAX_INODES \<Longrightarrow> length nd = INODE_SIZE \<Longrightarrow> disk_ok (inode_dump (int n) nd s)"
  using slot_le[of n] by (simp add: inode_dump_eq ok_defs)

lemma file_blk_dump:
  "disk_ok s \<Longrightarrow> n < MAX_INODES \<Longrightarrow> length nd = INODE_SIZE \<Longrightarrow> b \<noteq> n div 4 \<Longrightarrow>
   file_blk (inode_dump (int n) nd s) b = file_blk s b"
  by (simp add: inode_dump_eq)

lemma inode_at_dump:
  assumes "disk_ok s" "n < MAX_INODES" "length nd = INODE_SIZE"
  shows "inode_at (inode_dump (int n) nd s) m = (if m = n then nd else inode_at s m)"
proof -
  have l: "length (file_blk s (n div 4)) = 512" using assms(1) by (simp add: disk_simps)
  show ?thesis
  proof (cases "m \<noteq> n \<and> m div 4 = n div 4")
    case True
    then show ?thesis
      using slot_disjoint[of n m] slot_le[of n] assms l
      by (auto simp: inode_dump_eq inode_at_def mem_simps)
  next
    case False
    then show ?thesis
      using slot_le[of n] assms l by (auto simp: inode_dump_eq inode_at_def mem_simps)
  qed
qed

text \<open>Writing an inode other than number 0 leaves the superblock.\<close>

lemma superblock_dump:
  assumes "disk_ok s" "n < MAX_INODES" "length nd = INODE_SIZE" "n \<noteq> 0"
  shows "mget 0 128 (file_blk (inode_dump (int n) nd s) 0) = mget 0 128 (file_blk s 0)"
  using inode_at_dump[OF assms(1-3), of 0] assms(4) by (simp add: inode_at_def)

end
