(* ===== verification/FS_Bitmap.thy ===== *)
theory FS_Bitmap
  imports FS_Inode
begin

text \<open>
  The inode bitmap of \<open>prelude/inode.c\<close>: block 1024, one bit per inode, most significant
  bit first, a set bit for a free inode. \<open>free_inode_pop\<close> takes the least free number,
  \<open>free_inode_push\<close> frees one. The bitmap interprets the interface \<open>id_pool\<close>.
\<close>

section \<open>Operations\<close>

text \<open>
  The inner loop keeps its mask in a \<open>char\<close>, which is signed: after the first shift the mask
  has every bit above the tested one set as well (\<open>signed_drop_bit\<close>).
\<close>

fun scan_bits :: "nat list \<Rightarrow> byte \<Rightarrow> byte \<Rightarrow> (nat \<times> byte) option" where
  "scan_bits [] ptr c = None"
| "scan_bits (j # js) ptr c =
     (if c AND ptr \<noteq> 0 then Some (j, c AND NOT ptr)
      else scan_bits js (signed_drop_bit 1 ptr) c)"

fun scan_bytes :: "nat list \<Rightarrow> byte list \<Rightarrow> (nat \<times> byte list) option" where
  "scan_bytes [] b = None"
| "scan_bytes (i # is) b =
     (if b ! i \<noteq> 0
      then (case scan_bits [0..<8] 0x80 (b ! i) of
              Some (j, c) \<Rightarrow> Some (8 * i + j, b[i := c])
            | None \<Rightarrow> scan_bytes is b)
      else scan_bytes is b)"

definition free_inode_pop :: "fs \<Rightarrow> ushort \<times> fs" where
  "free_inode_pop s =
     (let b = snd (block_read (int INODE_BLK_SIZE) uninit s)
      in case scan_bytes [0..<INODE_BLK_SIZE div 8] b of
           Some (n, b) \<Rightarrow> (of_nat n, snd (block_write (int INODE_BLK_SIZE) b s))
         | None \<Rightarrow> (0, errno_push (- ENOSPC) s))"

text \<open>A number of 4096 or more indexes the local block out of bounds: undefined.\<close>

definition free_inode_push :: "ushort \<Rightarrow> fs \<Rightarrow> fs option" where
  "free_inode_push inum s =
     (if unat inum < 2 then Some s
      else let idx = unat inum div 8; offset = unat inum mod 8;
               b = snd (block_read (int INODE_BLK_SIZE) uninit s)
           in if idx < BLOCK_SIZE
              then Some (snd (block_write (int INODE_BLK_SIZE) (b[idx := b ! idx OR drop_bit offset 0x80]) s))
              else None)"

section \<open>The set of free inodes\<close>

definition bm_bit :: "byte list \<Rightarrow> nat \<Rightarrow> bool" where
  "bm_bit b n = bit (b ! (n div 8)) (7 - n mod 8)"

definition free_inodes :: "'z hostdisk_scheme \<Rightarrow> nat set" where
  "free_inodes s = {n. n < INODE_BLK_SIZE \<and> bm_bit (file_blk s INODE_BLK_SIZE) n}"

text \<open>
  The mask of the inner loop: at step \<open>k\<close> it holds bit \<open>7 - k\<close> and all the bits above,
  which are known to be clear in the byte. So it finds, and clears, the one bit it means.
\<close>

definition mask_at :: "nat \<Rightarrow> byte \<Rightarrow> bool" where
  "mask_at k p \<longleftrightarrow> (\<forall>i<8. bit p i \<longleftrightarrow> 7 \<le> i + k)"

lemma mask_at_0: "mask_at 0 0x80"
proof -
  have "bit (0x80 :: byte) i \<longleftrightarrow> 7 \<le> i" if "i < 8" for i
    using that by (auto simp: less_Suc_eq numeral_eq_Suc)
  then show ?thesis by (simp add: mask_at_def)
qed

lemma mask_at_Suc: "k < 8 \<Longrightarrow> mask_at k p \<Longrightarrow> mask_at (Suc k) (signed_drop_bit 1 p)"
  by (auto simp: mask_at_def bit_signed_drop_bit_iff)

lemma mask_test:
  assumes "mask_at k p" "k < 8" "\<forall>i<k. \<not> bit c (7 - i)"
  shows "c AND p \<noteq> 0 \<longleftrightarrow> bit (c :: byte) (7 - k)"
    and "bit c (7 - k) \<Longrightarrow> c AND NOT p = unset_bit (7 - k) c"
proof -
  have hi: "\<not> bit c i" if "7 < i + k" "i < 8" for i
    using assms(3)[rule_format, of "7 - i"] that by (simp add: diff_diff_cancel)
  have b: "bit (c AND p) i \<longleftrightarrow> i = 7 - k \<and> bit c (7 - k)" if "i < 8" for i
  proof (cases "i = 7 - k")
    case True
    then show ?thesis using assms(1,2) by (auto simp: bit_simps mask_at_def)
  next
    case False
    then have "i + k < 7 \<or> 7 < i + k" using assms(2) by linarith
    then show ?thesis using False that assms(1) hi[of i] by (auto simp: bit_simps mask_at_def)
  qed
  show "c AND p \<noteq> 0 \<longleftrightarrow> bit c (7 - k)"
    using b assms(2) by (auto simp: bit_eq_iff[of "c AND p" 0] dest: bit_imp_le_length)
  show "c AND NOT p = unset_bit (7 - k) c" if "bit c (7 - k)"
  proof (rule bit_word_eqI)
    fix i :: nat assume "i < LENGTH(8)"
    moreover have "i = 7 - k \<or> i + k < 7 \<or> 7 < i + k" using assms(2) by linarith
    ultimately show "bit (c AND NOT p) i = bit (unset_bit (7 - k) c) i"
      using assms(1,2) hi[of i] by (auto simp: bit_simps mask_at_def)
  qed
qed

lemma scan_bits_from:
  "mask_at k p \<Longrightarrow> k \<le> 8 \<Longrightarrow> \<forall>i<k. \<not> bit c (7 - i) \<Longrightarrow>
   (case scan_bits [k..<8] p c of
      None \<Rightarrow> \<forall>i<8. \<not> bit c (7 - i)
    | Some (j, c') \<Rightarrow> j < 8 \<and> bit c (7 - j) \<and> (\<forall>i<j. \<not> bit c (7 - i)) \<and> c' = unset_bit (7 - j) c)"
proof (induction "8 - k" arbitrary: k p)
  case 0
  then show ?case by simp
next
  case (Suc m)
  then have k: "k < 8" by simp
  note t = mask_test[OF Suc.prems(1) k Suc.prems(3)]
  show ?case
  proof (cases "bit c (7 - k)")
    case True
    then show ?thesis using t k Suc.prems(3) by (simp add: upt_conv_Cons)
  next
    case False
    then have "\<forall>i<Suc k. \<not> bit c (7 - i)" using Suc.prems(3) by (auto simp: less_Suc_eq)
    with Suc.hyps(1)[of "Suc k" "signed_drop_bit 1 p"] Suc.hyps(2) k mask_at_Suc[OF k Suc.prems(1)] t(1) False
    show ?thesis by (simp add: upt_conv_Cons del: upt_Suc)
  qed
qed

lemma byte_zero_iff: "(c :: byte) = 0 \<longleftrightarrow> (\<forall>i<8. \<not> bit c (7 - i))"
proof
  assume a: "\<forall>i<8. \<not> bit c (7 - i)"
  show "c = 0"
  proof (rule bit_word_eqI)
    fix n :: nat assume "n < LENGTH(8)"
    then show "bit c n = bit 0 n" using a[rule_format, of "7 - n"] by (simp add: diff_diff_cancel)
  qed
qed simp

lemma scan_bits_byte:
  assumes "c \<noteq> 0"
  shows "\<exists>j. scan_bits [0..<8] 0x80 c = Some (j, unset_bit (7 - j) c) \<and> j < 8 \<and> bit c (7 - j)
     \<and> (\<forall>i<j. \<not> bit c (7 - i))"
  using scan_bits_from[OF mask_at_0, of c] assms byte_zero_iff[of c]
  by (auto split: option.splits)

lemma bm_bit_update:
  assumes "i < length b"
  shows "bm_bit (b[i := c]) n = (if n div 8 = i then bit c (7 - n mod 8) else bm_bit b n)"
  using assms by (simp add: bm_bit_def nth_list_update)

lemma bm_bit_Cons_byte: "b ! (n div 8) = 0 \<Longrightarrow> \<not> bm_bit b n"
  by (simp add: bm_bit_def)

lemma bm_bit_unset:
  assumes "i < length b" "j < 8"
  shows "bm_bit (b[i := unset_bit (7 - j) (b ! i)]) n \<longleftrightarrow> bm_bit b n \<and> n \<noteq> 8 * i + j"
proof -
  have m: "n mod 8 \<le> 7" by simp
  have n: "n = 8 * i + j \<longleftrightarrow> n div 8 = i \<and> n mod 8 = j" using assms(2) by auto
  have "bit (unset_bit (7 - j) (b ! i)) (7 - n mod 8) \<longleftrightarrow> bit (b ! i) (7 - n mod 8) \<and> n mod 8 \<noteq> j"
    using assms(2) m by (auto simp: bit_unset_bit_iff)
  then show ?thesis
    using assms(1) by (cases "n div 8 = i") (auto simp: bm_bit_update n, simp_all add: bm_bit_def)
qed

lemma scan_bytes_from:
  assumes "length b = 512" "n \<le> 128" "k \<le> n" "\<forall>m<8*k. \<not> bm_bit b m"
  shows "case scan_bytes [k..<n] b of
     None \<Rightarrow> \<forall>m<8*n. \<not> bm_bit b m
   | Some (x, b') \<Rightarrow> x < 8 * n \<and> bm_bit b x \<and> (\<forall>m<x. \<not> bm_bit b m) \<and> length b' = 512
       \<and> (\<forall>m. bm_bit b' m \<longleftrightarrow> bm_bit b m \<and> m \<noteq> x)"
  using assms
proof (induction "n - k" arbitrary: k)
  case 0
  then show ?case by simp
next
  case (Suc d)
  then have k: "k < n" by simp
  have low: "bm_bit b (8 * k + i) \<longleftrightarrow> bit (b ! k) (7 - i)" if "i < 8" for i
    using that by (simp add: bm_bit_def)
  have cover: "\<exists>i<8. m = 8 * k + i" if "m < 8 * Suc k" "\<not> m < 8 * k" for m
    using that by (intro exI[of _ "m - 8 * k"]) auto
  show ?case
  proof (cases "b ! k = 0")
    case True
    have "\<forall>m<8 * Suc k. \<not> bm_bit b m"
    proof (intro allI impI)
      fix m assume m: "m < 8 * Suc k"
      show "\<not> bm_bit b m"
      proof (cases "m < 8 * k")
        case False
        with cover m obtain i where "i < 8" "m = 8 * k + i" by blast
        then show ?thesis using low True by simp
      qed (use Suc.prems(4) in blast)
    qed
    with Suc.hyps(1)[of "Suc k"] Suc.hyps(2) Suc.prems(1,2) k True
    show ?thesis by (simp add: upt_conv_Cons del: upt_Suc)
  next
    case False
    from scan_bits_byte[OF this] obtain j where j:
      "scan_bits [0..<8] 0x80 (b ! k) = Some (j, unset_bit (7 - j) (b ! k))" "j < 8"
      "bit (b ! k) (7 - j)" "\<forall>i<j. \<not> bit (b ! k) (7 - i)" by blast
    have s: "scan_bytes [k..<n] b = Some (8 * k + j, b[k := unset_bit (7 - j) (b ! k)])"
      using k False j(1) by (simp add: upt_conv_Cons del: upt_Suc)
    have "\<forall>m<8 * k + j. \<not> bm_bit b m"
    proof (intro allI impI)
      fix m assume m: "m < 8 * k + j"
      show "\<not> bm_bit b m"
      proof (cases "m < 8 * k")
        case False
        moreover have "m < 8 * Suc k" using m j(2) by simp
        ultimately obtain i where "i < 8" "m = 8 * k + i" using cover by blast
        then show ?thesis using low j(4) m by simp
      qed (use Suc.prems(4) in blast)
    qed
    moreover have "8 * k + j < 8 * n" using k j(2) by simp
    moreover have "bm_bit b (8 * k + j)" using low j(2,3) by simp
    ultimately show ?thesis
      using Suc.prems(1,2) k j(2) by (simp add: s bm_bit_unset)
  qed
qed

section \<open>Taking and freeing an inode\<close>

lemma bitmap_read: "disk_ok s \<Longrightarrow> block_read 1024 b s = (512, file_blk s 1024)"
  using block_read_ok[of s 1024 b] by simp

lemma bitmap_write:
  "disk_ok s \<Longrightarrow> length b = 512 \<Longrightarrow> block_write 1024 b s = (512, s\<lparr>file_blk := (file_blk s)(1024 := b)\<rparr>)"
  using block_write_ok[of s 1024 b] by simp

lemma free_inodes_less: "n \<in> free_inodes s \<Longrightarrow> n < 1024"
  by (simp add: free_inodes_def)

lemma finite_free_inodes: "finite (free_inodes s)"
  by (rule finite_subset[of _ "{..<1024}"]) (auto simp: free_inodes_def)

lemma free_inode_pop_some:
  assumes d: "disk_ok s" and n: "n \<in> free_inodes s" "\<forall>m\<in>free_inodes s. n \<le> m"
  shows "\<exists>b. free_inode_pop s = (of_nat n, s\<lparr>file_blk := (file_blk s)(1024 := b)\<rparr>) \<and> length b = 512
     \<and> free_inodes (s\<lparr>file_blk := (file_blk s)(1024 := b)\<rparr>) = free_inodes s - {n}"
proof -
  let ?b = "file_blk s 1024"
  have l: "length ?b = 512" using d by (simp add: disk_simps)
  note sc = scan_bytes_from[OF l, of 128 0, simplified]
  obtain x b where xb: "scan_bytes [0..<128] ?b = Some (x, b)" "x < 1024" "bm_bit ?b x"
    "\<forall>m<x. \<not> bm_bit ?b m" "length b = 512" "\<forall>m. bm_bit b m \<longleftrightarrow> bm_bit ?b m \<and> m \<noteq> x"
    using sc n(1) by (auto simp: free_inodes_def split: option.splits)
  have "x = n"
  proof (rule antisym)
    show "n \<le> x" using n(2) xb(2,3) by (simp add: free_inodes_def)
    show "x \<le> n" using xb(4) n(1) by (auto simp: free_inodes_def not_less[symmetric])
  qed
  moreover have "free_inode_pop s = (of_nat x, s\<lparr>file_blk := (file_blk s)(1024 := b)\<rparr>)"
    using d xb(1,5) by (simp add: free_inode_pop_def Let_def bitmap_read bitmap_write)
  ultimately show ?thesis using xb(5,6) by (auto simp: free_inodes_def)
qed

lemma free_inode_pop_none:
  assumes d: "disk_ok s" and n: "free_inodes s = {}"
  shows "free_inode_pop s = (0, s\<lparr>ERRNO := - ENOSPC\<rparr>)"
proof -
  have l: "length (file_blk s 1024) = 512" using d by (simp add: disk_simps)
  have "scan_bytes [0..<128] (file_blk s 1024) = None"
    using scan_bytes_from[OF l, of 128 0, simplified] n
    by (auto simp: free_inodes_def split: option.splits)
  then show ?thesis using d by (simp add: free_inode_pop_def Let_def bitmap_read errno_push_def)
qed

lemma bm_bit_set:
  assumes "length b = 512" "n < 4096"
  shows "bm_bit (b[n div 8 := b ! (n div 8) OR drop_bit (n mod 8) 0x80]) m \<longleftrightarrow> bm_bit b m \<or> m = n"
proof -
  have h: "bit (0x80 :: byte) i \<longleftrightarrow> i = 7" for i
    using mask_at_0 bit_imp_le_length[of "0x80 :: byte" i] by (auto simp: mask_at_def)
  have "bit (drop_bit (n mod 8) (0x80 :: byte)) (7 - m mod 8) \<longleftrightarrow> m mod 8 = n mod 8"
  proof -
    have "m mod 8 \<le> 7" "n mod 8 \<le> 7" by simp_all
    then have "n mod 8 + (7 - m mod 8) = 7 \<longleftrightarrow> m mod 8 = n mod 8" by linarith
    then show ?thesis by (simp only: bit_drop_bit_eq o_apply h)
  qed
  moreover have "m = n \<longleftrightarrow> m div 8 = n div 8 \<and> m mod 8 = n mod 8" by (metis div_mult_mod_eq)
  moreover have "n div 8 < 512" using assms(2) by simp
  ultimately show ?thesis
    using assms(1) by (cases "m div 8 = n div 8") (simp_all add: bm_bit_update bit_or_iff, simp_all add: bm_bit_def)
qed

lemma free_inode_push_some:
  assumes d: "disk_ok s" and n: "2 \<le> unat w" "unat w < 4096"
  shows "\<exists>b. free_inode_push w s = Some (s\<lparr>file_blk := (file_blk s)(1024 := b)\<rparr>) \<and> length b = 512
     \<and> free_inodes (s\<lparr>file_blk := (file_blk s)(1024 := b)\<rparr>) =
         (if unat w < 1024 then insert (unat w) (free_inodes s) else free_inodes s)"
proof -
  let ?b = "(file_blk s 1024)[unat w div 8 := file_blk s 1024 ! (unat w div 8) OR drop_bit (unat w mod 8) 0x80]"
  have l: "length (file_blk s 1024) = 512" using d by (simp add: disk_simps)
  have "free_inode_push w s = Some (s\<lparr>file_blk := (file_blk s)(1024 := ?b)\<rparr>)"
    using d n l by (simp add: free_inode_push_def Let_def bitmap_read bitmap_write)
  moreover have "free_inodes (s\<lparr>file_blk := (file_blk s)(1024 := ?b)\<rparr>) =
      (if unat w < 1024 then insert (unat w) (free_inodes s) else free_inodes s)"
    using bm_bit_set[OF l n(2)] by (auto simp: free_inodes_def)
  ultimately show ?thesis using l by (intro exI[of _ ?b]) simp
qed

text \<open>The interface: numbers 2 to 1023 (0 and 1 are never free and cannot be freed).\<close>

definition inum_valid :: "ushort \<Rightarrow> bool" where
  "inum_valid w \<longleftrightarrow> 2 \<le> unat w \<and> unat w < INODE_BLK_SIZE"

definition ib_inv :: "fs \<Rightarrow> bool" where
  "ib_inv s \<longleftrightarrow> disk_ok s \<and> 0 \<notin> free_inodes s \<and> 1 \<notin> free_inodes s"

definition ib_avail :: "fs \<Rightarrow> ushort set" where
  "ib_avail s = {w. unat w \<in> free_inodes s}"

definition ib_keep :: "fs \<Rightarrow> fs \<Rightarrow> bool" where
  "ib_keep s s' \<longleftrightarrow> (\<exists>e b. s' = s\<lparr>ERRNO := e, file_blk := (file_blk s)(1024 := b)\<rparr>)"

lemma ib_keep_refl: "ib_keep s s"
  unfolding ib_keep_def by (intro exI[of _ "ERRNO s"] exI[of _ "file_blk s 1024"]) simp

lemma ib_keep_trans: "ib_keep s s' \<Longrightarrow> ib_keep s' s'' \<Longrightarrow> ib_keep s s''"
  unfolding ib_keep_def by (elim exE) (simp, blast)

lemma free_inodes_Least:
  "n \<in> free_inodes s \<Longrightarrow> \<exists>m. m \<in> free_inodes s \<and> (\<forall>k\<in>free_inodes s. m \<le> k)"
  using finite_free_inodes[of s] by (intro exI[of _ "Min (free_inodes s)"]) (auto intro: Min_in)


interpretation ib: id_pool free_inode_pop free_inode_push ib_avail inum_valid ib_inv ERRNO ib_keep
proof
  fix s
  show "finite (ib_avail s)" by simp
next
  fix s and x :: ushort
  assume "ib_inv s" "x \<in> ib_avail s"
  then show "inum_valid x"
    by (auto simp: ib_inv_def ib_avail_def inum_valid_def dest: free_inodes_less)
       (metis One_nat_def less_2_cases not_less)
next
  fix s s' and x :: ushort
  assume a: "ib_inv s" "ib_avail s \<noteq> {}" "free_inode_pop s = (x, s')"
  then obtain w :: ushort where "unat w \<in> free_inodes s" by (auto simp: ib_avail_def)
  then obtain n where n: "n \<in> free_inodes s" "\<forall>k\<in>free_inodes s. n \<le> k"
    using free_inodes_Least by blast
  have d: "disk_ok s" using a(1) by (simp add: ib_inv_def)
  obtain b where b: "free_inode_pop s = (of_nat n, s\<lparr>file_blk := (file_blk s)(1024 := b)\<rparr>)"
    "length b = 512" "free_inodes (s\<lparr>file_blk := (file_blk s)(1024 := b)\<rparr>) = free_inodes s - {n}"
    using free_inode_pop_some[OF d n] by blast
  have x: "unat x = n" "s' = s\<lparr>file_blk := (file_blk s)(1024 := b)\<rparr>"
    using a(3) b(1) free_inodes_less[OF n(1)] by (auto simp: unat_of_nat_ushort)
  have "ib_avail s' = ib_avail s - {x}"
    unfolding ib_avail_def x(2) b(3) x(1)[symmetric] by (auto simp: word_unat_eq_iff)
  moreover have "ib_inv s'"
    using a(1) b(2,3) by (simp add: x(2) ib_inv_def disk_simps)
  moreover have "x \<in> ib_avail s" using n(1) x(1) by (simp add: ib_avail_def)
  moreover have "ib_keep s s'" unfolding x(2) ib_keep_def by (intro exI[of _ "ERRNO s"] exI[of _ b]) simp
  ultimately show "x \<in> ib_avail s \<and> ib_inv s' \<and> ib_avail s' = ib_avail s - {x} \<and> ERRNO s' = ERRNO s \<and> ib_keep s s'"
    by (simp add: x(2))
next
  fix s s' and x :: ushort
  assume a: "ib_inv s" "ib_avail s = {}" "free_inode_pop s = (x, s')"
  have "free_inodes s = {}"
  proof (rule ccontr)
    assume "free_inodes s \<noteq> {}"
    then obtain n where "n \<in> free_inodes s" by blast
    then have "of_nat n \<in> ib_avail s"
      using free_inodes_less[of n s] by (simp add: ib_avail_def unat_of_nat_ushort)
    with a(2) show False by simp
  qed
  with a have e: "x = 0" "s' = s\<lparr>ERRNO := - ENOSPC\<rparr>"
    using free_inode_pop_none[of s] by (simp_all add: ib_inv_def)
  have "ib_keep s s'" unfolding e(2) ib_keep_def
    by (intro exI[of _ "- ENOSPC"] exI[of _ "file_blk s 1024"]) simp
  moreover have "free_inodes s' = free_inodes s" "disk_ok s' = disk_ok s"
    by (simp_all add: e(2) free_inodes_def ok_defs)
  ultimately show "\<not> inum_valid x \<and> ib_inv s' \<and> ib_avail s' = {} \<and> ERRNO s' = - ENOSPC \<and> ib_keep s s'"
    using a(1,2) e by (simp add: ib_inv_def ib_avail_def inum_valid_def)
next
  fix s and x :: ushort
  assume a: "ib_inv s" "inum_valid x" "x \<notin> ib_avail s"
  then have "disk_ok s" "2 \<le> unat x" "unat x < 4096" by (simp_all add: ib_inv_def inum_valid_def)
  from free_inode_push_some[OF this] obtain b where b:
    "free_inode_push x s = Some (s\<lparr>file_blk := (file_blk s)(1024 := b)\<rparr>)" "length b = 512"
    "free_inodes (s\<lparr>file_blk := (file_blk s)(1024 := b)\<rparr>) = insert (unat x) (free_inodes s)"
    using a(2) by (auto simp: inum_valid_def)
  let ?t = "s\<lparr>file_blk := (file_blk s)(1024 := b)\<rparr>"
  have "ib_inv ?t" using a(1,2) b(2,3) by (auto simp: ib_inv_def inum_valid_def disk_simps)
  moreover have "ib_avail ?t = insert x (ib_avail s)"
    unfolding ib_avail_def b(3) by (auto simp: word_unat_eq_iff)
  ultimately show "\<exists>s'. free_inode_push x s = Some s' \<and> ib_inv s' \<and> ib_avail s' = insert x (ib_avail s) \<and> ERRNO s' = ERRNO s"
    using b(1) by simp
qed (auto intro: ib_keep_refl ib_keep_trans)

end
