(* ===== verification/FS_Mount.thy ===== *)
theory FS_Mount
  imports FS_Bitmap
begin

text \<open>
  The invariant of the mounted file system (\<open>fs_ok\<close>), established by \<open>inode_init\<close> after
  \<open>free_block_init\<close>, the attribute functions on the inode array, and the properties of the
  inode bitmap, with the freshly mounted disk as the concrete state of the witnesses.
\<close>

section \<open>The invariant of a mounted disk\<close>

text \<open>
  The free list and the bitmap are intact, the free blocks lie behind the inode blocks 0 to
  1023 and the bitmap block 1024, and the static arrays have their declared size.
\<close>

definition fs_ok :: "fs \<Rightarrow> bool" where
  "fs_ok s \<longleftrightarrow> fb_inv s \<and> (\<forall>b\<in>set (free_list s). int INODE_BLK_SIZE < b) \<and> ib_inv s
     \<and> length (d_arr s) = ARR_BYTES \<and> length (f_arr s) = ARR_BYTES"

definition arrays_ok :: "fs \<Rightarrow> bool" where
  "arrays_ok s \<longleftrightarrow> length (d_arr s) = ARR_BYTES \<and> length (f_arr s) = ARR_BYTES"

lemma fs_ok_disk: "fs_ok s \<Longrightarrow> disk_ok s"
  by (simp add: fs_ok_def ib_inv_def)

lemma more_arrays:
  "fblock.more s' = fblock.more s \<Longrightarrow> d_arr s' = d_arr s \<and> f_arr s' = f_arr s \<and> iblockbuf s' = iblockbuf s"
  by (cases s, cases s') simp

text \<open>
  A write to a metadata block other than block 0, or to block 0 past the superblock, keeps the
  free list.
\<close>

lemma fb_inv_write:
  assumes s: "fb_inv s" "\<forall>b\<in>set (free_list s). int INODE_BLK_SIZE < b"
    and k: "k \<le> INODE_BLK_SIZE" "length B = 512" "k = 0 \<Longrightarrow> mget 0 128 B = mget 0 128 (file_blk s 0)"
    and t: "file_blk t = (file_blk s)(k := B)" "fb_ready t"
  shows "fb_inv t \<and> free_list t = free_list s"
proof -
  note L = fb_inv_list[OF s(1), unfolded fb_list_ok_def]
  have h: "sb_head (file_blk t 0) = sb_head (file_blk s 0)" "sb_size (file_blk t 0) = sb_size (file_blk s 0)"
    using k(3) by (cases "k = 0"; simp add: t(1); metis sb_head_mget sb_size_mget)+
  have "\<forall>b\<in>set (free_list s). nat b \<noteq> k" using s(2) k(1) by force
  then have "fb_list_ok t (free_list s)"
    using L h by (simp add: fb_list_ok_def) (simp add: t(1) chain_upd)
  then show ?thesis using fb_invI[OF t(2)] by blast
qed

section \<open>Initialisation\<close>

lemma fold_pops: "fold (\<lambda>i s. snd (free_block_pop s)) xs s = snd (fb.takes (length xs) s)"
  by (induction xs arbitrary: s) (auto split: prod.splits)

text \<open>The root directory as \<open>dnode_init(2, 2)\<close> builds it.\<close>

definition dir_node :: "ushort \<Rightarrow> ushort \<Rightarrow> inode_t" where
  "dir_node inum pnum =
     set_idir_dinum 1 \<lparr>de_name = dotdot_name, de_inum = pnum\<rparr>
       (set_idir_dinum 0 \<lparr>de_name = dot_name, de_inum = inum\<rparr>
         (set_size 2 (set_pno pnum (set_ino inum (set_nlink 2 (set_isdir 1 (zeros INODE_SIZE)))))))"

definition file_node :: "ushort \<Rightarrow> ushort \<Rightarrow> inode_t" where
  "file_node inum pnum =
     set_fsize 0 (set_size 0 (set_pno pnum (set_ino inum (set_nlink 1 (set_isdir 0 (zeros INODE_SIZE))))))"

lemma dnode_init_eq: "dnode_init inum pnum s = inode_dump (uint inum) (dir_node inum pnum) s"
  by (simp add: dnode_init_def dir_node_def Let_def)

lemma fnode_init_eq: "fnode_init inum pnum s = inode_dump (uint inum) (file_node inum pnum) s"
  by (simp add: fnode_init_def file_node_def Let_def)

lemma length_di_ent_bytes [simp]: "length (de_name e) = 14 \<Longrightarrow> length (di_ent_bytes e) = 16"
  by (simp add: di_ent_bytes_def)

lemma di_ent_of_bytes [simp]: "length (de_name e) = 14 \<Longrightarrow> di_ent_of (di_ent_bytes e) = e"
  by (simp add: di_ent_of_def di_ent_bytes_def get16_def mget_append1 mget_append2 mem_simps)

lemma length_names [simp]: "length dot_name = 14" "length dotdot_name = 14"
  by (simp_all add: dot_name_def dotdot_name_def)

lemma length_dir_node [simp]: "length (dir_node i p) = INODE_SIZE"
  by (simp add: dir_node_def layout_defs)

lemma length_file_node [simp]: "length (file_node i p) = INODE_SIZE"
  by (simp add: file_node_def layout_defs)

lemma fb_ready_dump:
  assumes "fb_ready s" "n < MAX_INODES" "length nd = INODE_SIZE"
  shows "fb_ready (inode_dump (int n) nd s)"
  using assms disk_ok_dump[of s n nd] by (simp add: fb_ready_def buffers_ok_def)

text \<open>Storing an inode from 1 to 4095 keeps the invariant, the free list and the bitmap.\<close>

lemma fs_ok_dump:
  assumes s: "fs_ok s" and n: "0 < n" "n < 4096" and nd: "length nd = INODE_SIZE"
  defines "t \<equiv> inode_dump (int n) nd s"
  shows "fs_ok t \<and> free_list t = free_list s \<and> free_inodes t = free_inodes s"
proof -
  have d: "disk_ok s" using s by (rule fs_ok_disk)
  have n': "n < MAX_INODES" "n div 4 < 1024" using n(2) by simp_all
  note e = inode_dump_eq[OF d n'(1) nd]
  have f: "file_blk t = (file_blk s)(n div 4 := file_blk t (n div 4))" by (simp add: t_def e)
  have dt: "disk_ok t" unfolding t_def by (rule disk_ok_dump[OF d n'(1) nd])
  have r: "fb_ready t" unfolding t_def using s n'(1) nd by (intro fb_ready_dump) (auto simp: fs_ok_def fb_inv_ready)
  have "fb_inv t \<and> free_list t = free_list s"
  proof (rule fb_inv_write[OF _ _ _ _ _ f r])
    show "length (file_blk t (n div 4)) = 512" using dt by (simp add: disk_simps)
    show "mget 0 128 (file_blk t (n div 4)) = mget 0 128 (file_blk s 0)" if "n div 4 = 0"
      using superblock_dump[OF d n'(1) nd] n(1) that by (simp add: t_def)
  qed (use s n' in \<open>simp_all add: fs_ok_def\<close>)
  moreover have "free_inodes t = free_inodes s" using n' by (simp add: free_inodes_def t_def e)
  ultimately show ?thesis using s dt by (simp add: fs_ok_def ib_inv_def) (simp add: t_def)
qed

lemma fs_ok_bitmap:
  assumes s: "fs_ok s" and t: "t = s\<lparr>file_blk := (file_blk s)(1024 := b)\<rparr>" "length b = 512" "ib_inv t"
  shows "fs_ok t \<and> free_list t = free_list s"
proof -
  have "fb_ready t" using s t by (auto simp: fs_ok_def ok_defs dest!: fb_inv_ready)
  then have "fb_inv t \<and> free_list t = free_list s"
    using s t(2) by (intro fb_inv_write[where k = 1024 and B = b]) (auto simp: fs_ok_def t(1))
  then show ?thesis using s t(3) by (simp add: fs_ok_def) (simp add: t(1))
qed

lemma bitmap_init_free: "free_inodes s = {3..<1024}" if "file_blk s 1024 = bitmap_init"
proof -
  have b: "bit (0xff :: byte) (7 - n mod 8)" "bit (0x1f :: byte) (7 - n mod 8) \<longleftrightarrow> 3 \<le> n mod 8" for n :: nat
  proof -
    have m: "(0xff :: byte) = mask 8" "(0x1f :: byte) = mask 5" by (simp_all add: mask_eq_exp_minus_1)
    have "7 - n mod 8 < 8" "7 - n mod 8 < 5 \<longleftrightarrow> 3 \<le> n mod 8" by linarith+
    then show "bit (0xff :: byte) (7 - n mod 8)" "bit (0x1f :: byte) (7 - n mod 8) \<longleftrightarrow> 3 \<le> n mod 8"
      unfolding m bit_mask_iff by simp_all
  qed
  have "bm_bit bitmap_init n \<longleftrightarrow> 3 \<le> n" if "n < 1024" for n
  proof (cases "n < 8")
    case True
    then show ?thesis using b(2)[of n] by (simp add: bm_bit_def bitmap_init_def)
  next
    case False
    then have "n div 8 \<noteq> 0" "n div 8 < 512" using that by auto
    then show ?thesis using False b(1)[of n] by (simp add: bm_bit_def bitmap_init_def)
  qed
  then show ?thesis using that by (auto simp: free_inodes_def)
qed

lemma length_bitmap_init [simp]: "length bitmap_init = 512"
  by (simp add: bitmap_init_def)

text \<open>Formatting and mounting.\<close>

lemma mount_aux:
  assumes s: "host_ok s" "arrays_ok s"
  defines "m \<equiv> inode_init (free_block_init s)"
  shows "fs_ok m \<and> free_list m = blocks_from 1025 \<and> free_inodes m = {3..<1024}
     \<and> inode_at m 2 = dir_node 2 2 \<and> ERRNO m = ERRNO s"
proof -
  let ?t0 = "free_block_init s"
  note t0 = free_block_init_aux[OF s(1)]
  define t1 where "t1 = snd (fb.takes 1024 ?t0)"
  have "snd (free_block_pop (fold (\<lambda>i s. snd (free_block_pop s)) [1..<1024] ?t0))
      = fold (\<lambda>i s. snd (free_block_pop s)) ([1..<1024] @ [0]) ?t0" by (simp del: upt_rec_numeral)
  also have "\<dots> = t1" unfolding fold_pops t1_def length_append length_upt by simp
  finally have pops: "snd (free_block_pop (fold (\<lambda>i s. snd (free_block_pop s)) [1..<1024] ?t0)) = t1" .
  obtain xs where tk: "fb.takes 1024 ?t0 = (xs, t1)" by (auto simp: t1_def prod_eq_iff)
  have card: "1024 \<le> card (set (free_list ?t0))"
    using t0 fb.stk_distinct[of ?t0] by (simp add: distinct_card)
  have t1: "fb_inv t1" "free_list t1 = blocks_from 1025" "ERRNO t1 = ERRNO s" "fb_keep ?t0 t1"
    using fb.takes_in_order[of ?t0 1024] fb.takes_enough[OF _ card tk] t0 tk by (auto simp: drop_blocks_from)
  then have d1: "disk_ok t1" by (simp add: fb_inv_ready[unfolded fb_ready_def])
  define t2 where "t2 = t1\<lparr>file_blk := (file_blk t1)(1024 := bitmap_init)\<rparr>"
  have "snd (block_write 1024 bitmap_init t1) = t2" using d1 by (simp add: bitmap_write t2_def)
  then have m: "m = inode_dump (int 2) (dir_node 2 2) t2"
    using pops by (simp add: m_def inode_init_def Let_def dnode_init_eq)
  have free2: "free_inodes t2 = {3..<1024}" by (rule bitmap_init_free) (simp add: t2_def)
  have d2: "disk_ok t2" using d1 by (simp add: t2_def disk_simps)
  have "fb_ready t2" using fb_inv_ready[OF t1(1)] by (simp add: t2_def ok_defs)
  then have "fb_inv t2 \<and> free_list t2 = free_list t1"
    by (intro fb_inv_write[OF t1(1), where k = 1024 and B = bitmap_init])
       (auto simp: t2_def t1(2) set_blocks_from)
  moreover have "d_arr t2 = d_arr s" "f_arr t2 = f_arr s"
    using more_arrays[of t1 s] t0 t1(4) by (simp_all add: t2_def fb_keep_def)
  ultimately have "fs_ok t2" using s(2) d2 free2 t1(2)
    by (auto simp: fs_ok_def arrays_ok_def ib_inv_def set_blocks_from)
  from fs_ok_dump[OF this, of 2 "dir_node 2 2"] free2 t1(2,3) \<open>fb_inv t2 \<and> free_list t2 = free_list t1\<close>
  show ?thesis using inode_at_dump[OF d2, of 2 "dir_node 2 2" 2] by (simp add: m) (simp add: t2_def)
qed

section \<open>A freshly mounted disk\<close>

definition blank_fs :: fs where
  "blank_fs = \<lparr>ERRNO = 0, diskfile = 3, fd_open = True, file_len = 0, file_blk = (\<lambda>_. zeros 512),
     SuperBlockBuf = zeros 128, BlockBuf = zeros 512, EmptyBlk = zeros 512,
     iblockbuf = zeros 512, d_arr = zeros ARR_BYTES, f_arr = zeros ARR_BYTES\<rparr>"

definition mounted :: fs where
  "mounted = inode_init (free_block_init blank_fs)"

lemma blank_fs_ok: "host_ok blank_fs" "arrays_ok blank_fs" "ERRNO blank_fs = 0"
  by (simp_all add: blank_fs_def host_ok_def arrays_ok_def)

lemma mounted: "fs_ok mounted" "free_list mounted = blocks_from 1025" "free_inodes mounted = {3..<1024}"
  "inode_at mounted 2 = dir_node 2 2" "ERRNO mounted = 0"
  using mount_aux[OF blank_fs_ok(1,2)] blank_fs_ok(3) unfolding mounted_def by simp_all

section \<open>Taking and freeing inodes under the invariant\<close>

lemma free_inode_pop_ok:
  assumes s: "fs_ok s" and n: "free_inodes s \<noteq> {}"
  shows "\<exists>b. free_inode_pop s = (of_nat (Min (free_inodes s)), s\<lparr>file_blk := (file_blk s)(1024 := b)\<rparr>)
     \<and> fs_ok (s\<lparr>file_blk := (file_blk s)(1024 := b)\<rparr>)
     \<and> free_list (s\<lparr>file_blk := (file_blk s)(1024 := b)\<rparr>) = free_list s
     \<and> free_inodes (s\<lparr>file_blk := (file_blk s)(1024 := b)\<rparr>) = free_inodes s - {Min (free_inodes s)}"
proof -
  have d: "disk_ok s" using s by (rule fs_ok_disk)
  have "Min (free_inodes s) \<in> free_inodes s" "\<forall>k\<in>free_inodes s. Min (free_inodes s) \<le> k"
    using n by (auto simp: finite_free_inodes)
  from free_inode_pop_some[OF d this] obtain b where b:
    "free_inode_pop s = (of_nat (Min (free_inodes s)), s\<lparr>file_blk := (file_blk s)(1024 := b)\<rparr>)" "length b = 512"
    "free_inodes (s\<lparr>file_blk := (file_blk s)(1024 := b)\<rparr>) = free_inodes s - {Min (free_inodes s)}" by blast
  let ?t = "s\<lparr>file_blk := (file_blk s)(1024 := b)\<rparr>"
  have "ib_inv ?t" using s b(2,3) by (simp add: fs_ok_def ib_inv_def disk_simps)
  from fs_ok_bitmap[OF s refl b(2) this] b(1,3) show ?thesis by blast
qed

lemma free_inodes_range: "fs_ok s \<Longrightarrow> n \<in> free_inodes s \<Longrightarrow> 2 \<le> n \<and> n < 1024"
  using free_inodes_less[of n s] by (cases "n = 0"; cases "n = 1") (auto simp: fs_ok_def ib_inv_def)

lemma free_inode_push_ok:
  assumes s: "fs_ok s" and w: "2 \<le> unat w" "unat w < 1024"
  shows "\<exists>b. free_inode_push w s = Some (s\<lparr>file_blk := (file_blk s)(1024 := b)\<rparr>)
     \<and> fs_ok (s\<lparr>file_blk := (file_blk s)(1024 := b)\<rparr>)
     \<and> free_list (s\<lparr>file_blk := (file_blk s)(1024 := b)\<rparr>) = free_list s
     \<and> free_inodes (s\<lparr>file_blk := (file_blk s)(1024 := b)\<rparr>) = insert (unat w) (free_inodes s)"
proof -
  have d: "disk_ok s" using s by (rule fs_ok_disk)
  from free_inode_push_some[OF d w(1)] w(2) obtain b where b:
    "free_inode_push w s = Some (s\<lparr>file_blk := (file_blk s)(1024 := b)\<rparr>)" "length b = 512"
    "free_inodes (s\<lparr>file_blk := (file_blk s)(1024 := b)\<rparr>) = insert (unat w) (free_inodes s)" by auto
  let ?t = "s\<lparr>file_blk := (file_blk s)(1024 := b)\<rparr>"
  have "ib_inv ?t" using s b(2,3) w by (auto simp: fs_ok_def ib_inv_def disk_simps)
  from fs_ok_bitmap[OF s refl b(2) this] b(1,3) show ?thesis by blast
qed

lemma inode_at_bitmap [simp]:
  assumes "n < 4096"
  shows "inode_at (s\<lparr>file_blk := (file_blk s)(1024 := b)\<rparr>) n = inode_at s n"
proof -
  have "n div 4 \<noteq> 1024" using assms by linarith
  then show ?thesis by (simp add: inode_at_def)
qed

section \<open>Properties\<close>

text \<open>
  C25. free_inode_pop on every branch: it takes the least free inode and clears only its bit; with
  none free it yields 0, sets ENOSPC and leaves the disk alone. The free-block list and every
  block but the bitmap are unchanged.
\<close>

theorem free_inode_pop_spec:
  assumes "fs_ok s"
  shows "\<exists>s'. free_inode_pop s = (if free_inodes s = {} then 0 else of_nat (Min (free_inodes s)), s')
     \<and> fs_ok s' \<and> free_list s' = free_list s
     \<and> free_inodes s' = (if free_inodes s = {} then {} else free_inodes s - {Min (free_inodes s)})
     \<and> ERRNO s' = (if free_inodes s = {} then - ENOSPC else ERRNO s)
     \<and> (\<forall>n. n \<noteq> 1024 \<longrightarrow> file_blk s' n = file_blk s n)"
proof (cases "free_inodes s = {}")
  case True
  let ?t = "s\<lparr>ERRNO := - ENOSPC\<rparr>"
  have "free_inodes ?t = {}" "free_list ?t = free_list s" "fb_inv ?t = fb_inv s" "disk_ok ?t = disk_ok s"
    using True by (simp_all add: free_inodes_def free_list_def fb_inv_def fb_list_ok_def ok_defs)
  then have "fs_ok ?t" using assms by (simp add: fs_ok_def ib_inv_def)
  then show ?thesis
    using True free_inode_pop_none[OF fs_ok_disk[OF assms] True] \<open>free_list ?t = free_list s\<close>
      \<open>free_inodes ?t = {}\<close> by simp
next
  case False
  from free_inode_pop_ok[OF assms False] show ?thesis using False by auto
qed

theorem free_inode_pop_spec_witness:
  "\<exists>s'. free_inode_pop mounted = (3, s') \<and> fs_ok s' \<and> free_inodes s' = {4..<1024}"
proof -
  have "Min {3..<1024 :: nat} = 3" by (rule Min_eqI) auto
  moreover have "{3..<1024 :: nat} - {3} = {4..<1024}" by auto
  ultimately show ?thesis using free_inode_pop_spec[OF mounted(1)] by (auto simp: mounted(3))
qed

text \<open>
  Freeing an inode: for a number from 2 to 1023 the bit is set and nothing else changes; 0 and 1
  are ignored; a number of 4096 or more writes outside the bitmap block's buffer.
\<close>

theorem free_inode_push_spec:
  assumes "fs_ok s"
  shows "(unat w < 2 \<longrightarrow> free_inode_push w s = Some s)
     \<and> (2 \<le> unat w \<and> unat w < 1024 \<longrightarrow>
         (\<exists>s'. free_inode_push w s = Some s' \<and> fs_ok s' \<and> free_list s' = free_list s
            \<and> free_inodes s' = insert (unat w) (free_inodes s)
            \<and> (\<forall>n. n \<noteq> 1024 \<longrightarrow> file_blk s' n = file_blk s n)))
     \<and> (4096 \<le> unat w \<longrightarrow> free_inode_push w s = None)"
proof (intro conjI impI)
  show "unat w < 2 \<Longrightarrow> free_inode_push w s = Some s" by (simp add: free_inode_push_def)
  show "4096 \<le> unat w \<Longrightarrow> free_inode_push w s = None"
    by (simp add: free_inode_push_def Let_def)
next
  assume "2 \<le> unat w \<and> unat w < 1024"
  with free_inode_push_ok[OF assms, of w]
  show "\<exists>s'. free_inode_push w s = Some s' \<and> fs_ok s' \<and> free_list s' = free_list s
            \<and> free_inodes s' = insert (unat w) (free_inodes s)
            \<and> (\<forall>n. n \<noteq> 1024 \<longrightarrow> file_blk s' n = file_blk s n)" by auto
qed

theorem free_inode_push_spec_witness:
  "(\<exists>s'. free_inode_push 2 mounted = Some s' \<and> free_inodes s' = insert 2 {3..<1024})
   \<and> free_inode_push 5000 mounted = None \<and> free_inode_push 1 mounted = Some mounted"
  using free_inode_push_spec[OF mounted(1), of 2] free_inode_push_spec[OF mounted(1), of 5000]
    free_inode_push_spec[OF mounted(1), of 1] by (auto simp: mounted(3))

text \<open>
  Allocating inodes in a row: while enough are free, n pops yield n different free numbers
  and set no error, and freeing them all restores the set.
\<close>

theorem free_inode_many:
  assumes "ib_inv s" "n \<le> card (ib_avail s)" "ib.takes n s = (ws, s')"
  shows "length ws = n \<and> distinct ws \<and> set ws \<subseteq> ib_avail s \<and> ib_avail s' = ib_avail s - set ws
     \<and> ERRNO s' = ERRNO s
     \<and> (\<exists>s''. ib.gives ws s' = Some s'' \<and> ib_avail s'' = ib_avail s)"
  using ib.takes_enough[OF assms] ib.takes_gives[OF assms] by blast

theorem free_inode_many_witness:
  "\<exists>ws s'. ib.takes 1 mounted = (ws, s') \<and> length ws = 1 \<and> set ws \<subseteq> ib_avail mounted"
proof -
  obtain ws s' where t: "ib.takes 1 mounted = (ws, s')" by (cases "ib.takes 1 mounted")
  have "(3 :: ushort) \<in> ib_avail mounted" by (simp add: ib_avail_def mounted(3))
  then have "1 \<le> card (ib_avail mounted)" by (metis One_nat_def Suc_leI card_gt_0_iff empty_iff finite)
  moreover have "ib_inv mounted" using mounted(1) by (simp add: fs_ok_def)
  ultimately show ?thesis using free_inode_many[OF _ _ t] t by simp
qed

text \<open>
  The signed mask is harmless: the byte scan of free_inode_pop, whose mask is shifted
  arithmetically and so keeps its high bits, gives the same bit and the same byte as a scan with
  a mask of a single bit shifted logically.
\<close>

fun scan_bits_unsigned :: "nat list \<Rightarrow> byte \<Rightarrow> byte \<Rightarrow> (nat \<times> byte) option" where
  "scan_bits_unsigned [] ptr c = None"
| "scan_bits_unsigned (j # js) ptr c =
     (if c AND ptr \<noteq> 0 then Some (j, c AND NOT ptr)
      else scan_bits_unsigned js (drop_bit 1 ptr) c)"

lemma single_bit_test:
  assumes "k < 8" "\<forall>i. bit p i \<longleftrightarrow> i = 7 - k"
  shows "(c :: byte) AND p \<noteq> 0 \<longleftrightarrow> bit c (7 - k)" "c AND NOT p = unset_bit (7 - k) c"
proof -
  have "bit (c AND p) i \<longleftrightarrow> i = 7 - k \<and> bit c i" for i using assms(2) by (auto simp: bit_and_iff)
  then show "c AND p \<noteq> 0 \<longleftrightarrow> bit c (7 - k)" by (auto simp: bit_eq_iff[of "c AND p" 0])
  show "c AND NOT p = unset_bit (7 - k) c"
    by (rule bit_word_eqI) (use assms in \<open>auto simp: bit_simps\<close>)
qed

lemma scan_bits_unsigned_from:
  "k \<le> 8 \<Longrightarrow> mask_at k p \<Longrightarrow> \<forall>i. bit q i \<longleftrightarrow> k < 8 \<and> i = 7 - k \<Longrightarrow> \<forall>i<k. \<not> bit c (7 - i) \<Longrightarrow>
   scan_bits [k..<8] p c = scan_bits_unsigned [k..<8] q c"
proof (induction "8 - k" arbitrary: k p q)
  case 0
  then show ?case by simp
next
  case (Suc m)
  then have k: "k < 8" by simp
  note t = mask_test[OF Suc.prems(2) k Suc.prems(4)]
  have q: "\<forall>i. bit q i \<longleftrightarrow> i = 7 - k" using Suc.prems(3) k by simp
  note u = single_bit_test[OF k q, of c]
  have up: "[k..<8] = k # [Suc k..<8]" using k by (rule upt_conv_Cons)
  show ?case
  proof (cases "bit c (7 - k)")
    case True
    then show ?thesis unfolding up scan_bits.simps scan_bits_unsigned.simps using t u by simp
  next
    case False
    have c: "\<forall>i<Suc k. \<not> bit c (7 - i)" using Suc.prems(4) False by (auto simp: less_Suc_eq)
    have d: "\<forall>i. bit (drop_bit 1 q) i \<longleftrightarrow> Suc k < 8 \<and> i = 7 - Suc k"
    proof
      fix i
      have "bit (drop_bit 1 q) i \<longleftrightarrow> 1 + i = 7 - k" using q by (simp only: bit_drop_bit_eq o_apply)
      then show "bit (drop_bit 1 q) i \<longleftrightarrow> Suc k < 8 \<and> i = 7 - Suc k" by linarith
    qed
    have m: "m = 8 - Suc k" "Suc k \<le> 8" using Suc.hyps(2) k by linarith+
    from Suc.hyps(1)[OF m mask_at_Suc[OF k Suc.prems(2)] d c] show ?thesis
      unfolding up scan_bits.simps scan_bits_unsigned.simps using t(1) u(1) False by (simp only: if_False)
  qed
qed

theorem scan_bits_signed_mask: "scan_bits [0..<8] 0x80 c = scan_bits_unsigned [0..<8] 0x80 c"
proof (rule scan_bits_unsigned_from[OF _ mask_at_0])
  show "\<forall>i. bit (0x80 :: byte) i \<longleftrightarrow> 0 < (8::nat) \<and> i = 7 - 0"
    using mask_at_0 bit_imp_le_length[of "0x80 :: byte"] by (auto simp: mask_at_def)
qed simp_all

end
