(* ===== verification/FS_Listing.thy ===== *)
theory FS_Listing
  imports FS_Mount
begin

text \<open>
  The entry lists of directories and files (\<open>dnode_listing\<close>, \<open>fnode_listing\<close> and their
  \<open>_set\<close> counterparts in \<open>prelude/inode.c\<close>). The entries of an inode fill, in order,
  96 bytes of the inode, four pages of 128 bytes, and four double pages of 64 pages each; a
  listing copies them into the static array \<open>d\<close> or \<open>f\<close>, setting a listing stores the array
  back and takes or frees page inodes. The directory and the file functions are the same text
  over different element sizes, and are modelled once, over the kind of the node.
\<close>

datatype nkind = Dnode | Fnode

text \<open>Bytes of an entry, entries in the inode, entries in a page.\<close>

fun esz :: "nkind \<Rightarrow> nat" where "esz Dnode = 16" | "esz Fnode = 4"
fun ndirect :: "nkind \<Rightarrow> nat" where "ndirect Dnode = 6" | "ndirect Fnode = 24"
fun nper :: "nkind \<Rightarrow> nat" where "nper Dnode = 8" | "nper Fnode = 32"

section \<open>Reading a listing\<close>

text \<open>
  One iteration of a page loop: load the page, copy its 128 bytes to \<open>ptr\<close>, advance, and
  return from the function when the end is reached. \<open>ptr\<close> and \<open>ptr_end\<close> count entries.
\<close>

type_synonym lst_state = "nat \<times> byte list \<times> fs"

definition listing_page :: "nkind \<Rightarrow> nat \<Rightarrow> ushort \<Rightarrow> lst_state \<Rightarrow> bool \<times> lst_state" where
  "listing_page k ptr_end num st =
     (case st of (ptr, a, s) \<Rightarrow>
        let (p_buf, s) = inode_load (uint num) uninit s;
            a = mput (esz k * ptr) p_buf a;
            ptr = ptr + nper k
        in (ptr_end \<le> ptr, (ptr, a, s)))"

definition listing_double :: "nkind \<Rightarrow> nat \<Rightarrow> inode_t \<Rightarrow> nat \<Rightarrow> lst_state \<Rightarrow> bool \<times> lst_state" where
  "listing_double k ptr_end nd i st =
     (case st of (ptr, a, s) \<Rightarrow>
        let (lv1_buf, s) = inode_load (uint (ex_pnum_at nd i)) uninit s
        in loop_ret [0..<64] (\<lambda>j. listing_page k ptr_end (exnum_at lv1_buf j)) (ptr, a, s))"

definition node_listing :: "nkind \<Rightarrow> inode_t \<Rightarrow> nat \<Rightarrow> byte list \<Rightarrow> fs \<Rightarrow> byte list \<times> fs" where
  "node_listing k nd ptr_end a s =
     (let a = mput 0 (mget 16 96 nd) a; ptr = ndirect k
      in if ptr_end \<le> ptr then (a, s)
         else (case loop_ret [0..<4] (\<lambda>i. listing_page k ptr_end (pnum_at nd i)) (ptr, a, s) of
                 (True, (_, a, s)) \<Rightarrow> (a, s)
               | (False, st) \<Rightarrow>
                   (case loop_ret [0..<4] (listing_double k ptr_end nd) st of
                      (_, (_, a, s)) \<Rightarrow> (a, s))))"

text \<open>The returned pointer is the static array, left in the state; the result is \<open>*st_size\<close>.\<close>

definition dnode_listing :: "ushort \<Rightarrow> fs \<Rightarrow> nat \<times> fs" where
  "dnode_listing inum s =
     (let (nd, s) = inode_load (uint inum) uninit s;
          n = unat (md_size nd);
          (a, s) = node_listing Dnode nd n (d_arr s) s
      in (n, s\<lparr>d_arr := a\<rparr>))"

definition fnode_listing :: "ushort \<Rightarrow> fs \<Rightarrow> nat \<times> fs" where
  "fnode_listing inum s =
     (let (nd, s) = inode_load (uint inum) uninit s;
          n = unat (md_size nd);
          (a, s) = node_listing Fnode nd n (f_arr s) s
      in (n, s\<lparr>f_arr := a\<rparr>))"

section \<open>Writing a listing\<close>

text \<open>
  One iteration over a single page: beyond the new end it is freed if the old listing had it;
  otherwise it is taken from the bitmap if the old listing had none, and written.
  \<open>e\<close> is \<open>ptr_end\<close>, \<open>c\<close> is \<open>cache_end\<close>.
\<close>

type_synonym set_state = "nat \<times> inode_t \<times> fs"

definition lset_single ::
    "nkind \<Rightarrow> byte list \<Rightarrow> int \<Rightarrow> int \<Rightarrow> nat \<Rightarrow> set_state \<Rightarrow> set_state option" where
  "lset_single k a e c i st =
     (case st of (ptr, nd, s) \<Rightarrow>
        if e \<le> int ptr
        then do {
          s \<leftarrow> (if int ptr < c then free_inode_push (pnum_at nd i) s else Some s);
          Some (ptr + nper k, nd, s) }
        else
          let (nd, s) = (if c \<le> int ptr
                         then let (n, s) = free_inode_pop s in (set_pnum i n nd, s)
                         else (nd, s));
              p_buf = mget (esz k * ptr) 128 a;
              s = inode_dump (uint (pnum_at nd i)) p_buf s
          in Some (ptr + nper k, nd, s))"

text \<open>The inner loops over a double page: freeing its pages, filling a new one, updating an old one.\<close>

definition lset_free_page :: "nkind \<Rightarrow> int \<Rightarrow> inode_t \<Rightarrow> nat \<Rightarrow> nat \<times> fs \<Rightarrow> (nat \<times> fs) option" where
  "lset_free_page k c lv1_buf j st =
     (case st of (ptr, s) \<Rightarrow> do {
        s \<leftarrow> (if int ptr < c then free_inode_push (exnum_at lv1_buf j) s else Some s);
        Some (ptr + nper k, s) })"

definition lset_new_page :: "nkind \<Rightarrow> byte list \<Rightarrow> int \<Rightarrow> nat \<Rightarrow> set_state \<Rightarrow> set_state" where
  "lset_new_page k a e j st =
     (case st of (ptr, lv1_buf, s) \<Rightarrow>
        let (lv1_buf, s) =
              (if int ptr < e
               then let (n, s) = free_inode_pop s;
                        lv1_buf = set_exnum j n lv1_buf;
                        p_buf = mget (esz k * ptr) 128 a
                    in (lv1_buf, inode_dump (uint (exnum_at lv1_buf j)) p_buf s)
               else (lv1_buf, s))
        in (ptr + nper k, lv1_buf, s))"

definition lset_old_page :: "nkind \<Rightarrow> byte list \<Rightarrow> int \<Rightarrow> int \<Rightarrow> nat \<Rightarrow> set_state \<Rightarrow> set_state" where
  "lset_old_page k a e c j st =
     (case st of (ptr, lv1_buf, s) \<Rightarrow>
        let (lv1_buf, s) =
              (if int ptr < e
               then let (lv1_buf, s) =
                          (if c \<le> int ptr
                           then let (n, s) = free_inode_pop s in (set_exnum j n lv1_buf, s)
                           else (lv1_buf, s));
                        p_buf = mget (esz k * ptr) 128 a
                    in (lv1_buf, inode_dump (uint (exnum_at lv1_buf j)) p_buf s)
               else (lv1_buf, s))
        in (ptr + nper k, lv1_buf, s))"

definition lset_double ::
    "nkind \<Rightarrow> byte list \<Rightarrow> int \<Rightarrow> int \<Rightarrow> nat \<Rightarrow> set_state \<Rightarrow> set_state option" where
  "lset_double k a e c i st =
     (case st of (ptr, nd, s) \<Rightarrow>
        if e \<le> int ptr
        then (if int ptr < c
              then let (lv1_buf, s) = inode_load (uint (ex_pnum_at nd i)) uninit s
                   in do {
                     (ptr, s) \<leftarrow> loop [0..<64] (lset_free_page k c lv1_buf) (ptr, s);
                     s \<leftarrow> free_inode_push (ex_pnum_at nd i) s;
                     Some (ptr, nd, s) }
              else Some (ptr, nd, s))
        else
          let (ptr, lv1_buf, nd, s) =
                (if c \<le> int ptr
                 then let (n, s) = free_inode_pop s;
                          nd = set_ex_pnum i n nd;
                          (ptr, lv1_buf, s) = fold (lset_new_page k a e) [0..<64] (ptr, zeros INODE_SIZE, s)
                      in (ptr, lv1_buf, nd, s)
                 else let (lv1_buf, s) = inode_load (uint (ex_pnum_at nd i)) uninit s;
                          (ptr, lv1_buf, s) = fold (lset_old_page k a e c) [0..<64] (ptr, lv1_buf, s)
                      in (ptr, lv1_buf, nd, s));
              s = inode_dump (uint (ex_pnum_at nd i)) lv1_buf s
          in Some (ptr, nd, s))"

definition node_listing_set :: "nkind \<Rightarrow> byte list \<Rightarrow> ushort \<Rightarrow> int \<Rightarrow> fs \<Rightarrow> fs option" where
  "node_listing_set k a inum newsize s =
     (let (nd, s) = inode_load (uint inum) uninit s;
          oldsize = uint (md_size nd);
          nd = set_size (word_of_int newsize) nd;
          nd = mput 16 (mget 0 96 a) nd
      in do {
        (ptr, nd, s) \<leftarrow> loop [0..<4] (lset_single k a newsize oldsize) (ndirect k, nd, s);
        (ptr, nd, s) \<leftarrow> loop [0..<4] (lset_double k a newsize oldsize) (ptr, nd, s);
        Some (inode_dump (uint (md_ino nd)) nd s) })"

definition dnode_listing_set :: "ushort \<Rightarrow> int \<Rightarrow> fs \<Rightarrow> fs option" where
  "dnode_listing_set inum newsize s =
     (let (newsize, s) = (if DENTRY_MAX_SIZE \<le> newsize
                          then (DENTRY_MAX_SIZE - 1, errno_push (- EFBIG) s) else (newsize, s))
      in node_listing_set Dnode (d_arr s) inum newsize s)"

definition fnode_listing_set :: "ushort \<Rightarrow> int \<Rightarrow> fs \<Rightarrow> fs option" where
  "fnode_listing_set inum newsize s =
     (let (newsize, s) = (if FENTRY_MAX_SIZE < newsize
                          then (FENTRY_MAX_SIZE, errno_push (- EFBIG) s) else (newsize, s))
      in node_listing_set Fnode (f_arr s) inum newsize s)"

end
