(* ===== verification/FS_Nodes.thy ===== *)
theory FS_Nodes
  imports FS_Listing
begin

text \<open>
  What a listing reads (\<open>node_listing_eq\<close>): the entries of a node are the concatenation of the
  bytes in the inode and of its pages, whatever path the page numbers are reached by. The
  vocabulary of the proofs about listings: page index, page number, number of pages.
\<close>

section \<open>Pages of a node\<close>

text \<open>Page \<open>p\<close> of a node (0 to 259): the four single pages, then 64 to each double page.\<close>

definition page_num :: "'z hostdisk_scheme \<Rightarrow> inode_t \<Rightarrow> nat \<Rightarrow> ushort" where
  "page_num s nd p =
     (if p < 4 then pnum_at nd p
      else exnum_at (inode_at s (unat (ex_pnum_at nd ((p - 4) div 64)))) ((p - 4) mod 64))"

definition node_page :: "'z hostdisk_scheme \<Rightarrow> inode_t \<Rightarrow> nat \<Rightarrow> byte list" where
  "node_page s nd p = inode_at s (unat (page_num s nd p))"

definition node_bytes :: "'z hostdisk_scheme \<Rightarrow> inode_t \<Rightarrow> nat \<Rightarrow> byte list" where
  "node_bytes s nd p = mget 16 96 nd @ concat (map (node_page s nd) [0..<p])"

text \<open>The number of pages that hold \<open>n\<close> entries, and of double pages that hold \<open>p\<close> pages.\<close>

definition npages :: "nkind \<Rightarrow> nat \<Rightarrow> nat" where
  "npages k n = (n - ndirect k + (nper k - 1)) div nper k"

definition ndouble :: "nat \<Rightarrow> nat" where
  "ndouble p = (p - 4 + 63) div 64"

abbreviation MAX_PAGES :: nat where "MAX_PAGES \<equiv> 260"

definition ptr_at :: "nkind \<Rightarrow> nat \<Rightarrow> nat" where
  "ptr_at k p = ndirect k + nper k * p"

lemma nper_pos [simp]: "0 < nper k"
  by (cases k) simp_all

lemma npages_le: "npages k n \<le> p \<longleftrightarrow> n \<le> ptr_at k p"
  by (cases k) (simp_all add: npages_def ptr_at_def, linarith+)

lemma npages_mono: "m \<le> n \<Longrightarrow> npages k m \<le> npages k n"
  using npages_le[of k m "npages k n"] npages_le[of k n "npages k n"] by simp

lemma ndouble_le: "ndouble p \<le> g \<longleftrightarrow> p \<le> 4 + 64 * g"
  unfolding ndouble_def by linarith

lemma npages_eq: "n \<le> ptr_at k p \<Longrightarrow> p = 0 \<or> ptr_at k (p - 1) < n \<Longrightarrow> npages k n = p"
  using npages_le[of k n p] npages_le[of k n "p - 1"] by (cases p) auto

lemma ptr_at_Suc: "ptr_at k p + nper k = ptr_at k (Suc p)"
  by (simp add: ptr_at_def)

lemma esz_ptr: "esz k * ptr_at k p = 96 + 128 * p"
  by (cases k) (simp_all add: ptr_at_def)

lemma page_num_double:
  "j < 64 \<Longrightarrow> page_num s nd (4 + 64 * i + j) = exnum_at (inode_at s (unat (ex_pnum_at nd i))) j"
  by (simp add: page_num_def)

lemma length_node_page [simp]: "disk_ok s \<Longrightarrow> length (node_page s nd p) = 128"
  by (simp add: node_page_def)

lemma length_node_bytes [simp]:
  "disk_ok s \<Longrightarrow> length nd = 128 \<Longrightarrow> length (node_bytes s nd p) = 96 + 128 * p"
  by (induction p) (simp_all add: node_bytes_def)

lemma node_bytes_Suc: "node_bytes s nd (Suc p) = node_bytes s nd p @ node_page s nd p"
  by (simp add: node_bytes_def)

lemma node_bytes_cong:
  assumes "mget 16 96 nd = mget 16 96 nd'" "\<And>q. q < p \<Longrightarrow> node_page s nd q = node_page s' nd' q"
  shows "node_bytes s nd p = node_bytes s' nd' p"
proof -
  have "map (node_page s nd) [0..<p] = map (node_page s' nd') [0..<p]" using assms(2) by simp
  then show ?thesis using assms(1) by (simp only: node_bytes_def)
qed

text \<open>A load changes the block buffer only, which no later read depends on.\<close>

lemma iblockbuf_frame [simp]:
  "disk_ok (s\<lparr>iblockbuf := b\<rparr>) = disk_ok s"
  "inode_at (s\<lparr>iblockbuf := b\<rparr>) n = inode_at s n"
  "free_inodes (s\<lparr>iblockbuf := b\<rparr>) = free_inodes s"
  "free_list (s\<lparr>iblockbuf := b\<rparr>) = free_list s"
  "fs_ok (s\<lparr>iblockbuf := b\<rparr>) = fs_ok s"
  by (simp_all add: ok_defs inode_at_def free_inodes_def free_list_def fs_ok_def fb_inv_def
      fb_list_ok_def ib_inv_def)

lemma node_bytes_iblockbuf [simp]: "node_bytes ((s :: fs)\<lparr>iblockbuf := b\<rparr>) nd p = node_bytes s nd p"
  by (rule node_bytes_cong) (simp_all add: node_page_def page_num_def)

section \<open>What a listing reads\<close>

definition lst_at :: "nkind \<Rightarrow> fs \<Rightarrow> inode_t \<Rightarrow> byte list \<Rightarrow> nat \<Rightarrow> lst_state \<Rightarrow> bool" where
  "lst_at k s nd a p st \<longleftrightarrow>
     (\<exists>b. st = (ptr_at k p, mput 0 (node_bytes s nd p) a, s\<lparr>iblockbuf := b\<rparr>))"

lemma listing_page_step:
  assumes "disk_ok s" "length nd = 128" "length a = ARR_BYTES" "p < MAX_PAGES" "lst_at k s nd a p st"
  shows "\<exists>st'. listing_page k n (page_num s nd p) st = (n \<le> ptr_at k (Suc p), st') \<and> lst_at k s nd a (Suc p) st'"
proof -
  obtain b where st: "st = (ptr_at k p, mput 0 (node_bytes s nd p) a, s\<lparr>iblockbuf := b\<rparr>)"
    using assms(5) by (auto simp: lst_at_def)
  have l: "length (node_bytes s nd p) = 96 + 128 * p" using assms by simp
  have "mput (esz k * ptr_at k p) (node_page s nd p) (mput 0 (node_bytes s nd p) a) = mput 0 (node_bytes s nd (Suc p)) a"
    using mput_append_step[of 0 "node_bytes s nd p" "node_page s nd p" a] assms l
    by (simp add: esz_ptr node_bytes_Suc)
  then show ?thesis
    using assms(1) by (auto simp: st listing_page_def Let_def inode_load_ushort ptr_at_Suc lst_at_def node_page_def)
qed

lemma node_listing_eq:
  assumes "disk_ok s" "length nd = 128" "length a = ARR_BYTES" "npages k n \<le> MAX_PAGES"
  shows "\<exists>b. node_listing k nd n a s = (mput 0 (node_bytes s nd (npages k n)) a, s\<lparr>iblockbuf := b\<rparr>)"
proof -
  define Q where "Q = (\<lambda>st. lst_at k s nd a (npages k n) st)"
  define P where "P = (\<lambda>p st. lst_at k s nd a p st \<and> p < npages k n)"
  have step: "case listing_page k n (page_num s nd p) st of (r, st') \<Rightarrow> if r then Q st' else P (Suc p) st'"
    if "P p st" for p st
  proof -
    have p: "p < MAX_PAGES" "lst_at k s nd a p st" "p < npages k n" using that assms(4) by (auto simp: P_def)
    obtain st' where st': "listing_page k n (page_num s nd p) st = (n \<le> ptr_at k (Suc p), st')"
      "lst_at k s nd a (Suc p) st'" using listing_page_step[OF assms(1-3) p(1,2)] by blast
    have "n \<le> ptr_at k (Suc p) \<longleftrightarrow> npages k n \<le> Suc p" by (simp add: npages_le)
    then show ?thesis using st' p(3) by (cases "n \<le> ptr_at k (Suc p)") (auto simp: P_def Q_def le_Suc_eq)
  qed
  have double: "case listing_double k n nd i st of (r, st') \<Rightarrow> if r then Q st' else P (4 + 64 * Suc i) st'"
    if asm: "P (4 + 64 * i) st" for i st
  proof -
    obtain b where st: "st = (ptr_at k (4 + 64 * i), mput 0 (node_bytes s nd (4 + 64 * i)) a, s\<lparr>iblockbuf := b\<rparr>)"
      using asm by (auto simp: P_def lst_at_def)
    let ?st = "(ptr_at k (4 + 64 * i), mput 0 (node_bytes s nd (4 + 64 * i)) a, s\<lparr>iblockbuf := file_blk s (unat (ex_pnum_at nd i) div 4)\<rparr>)"
    let ?lv1 = "inode_at s (unat (ex_pnum_at nd i))"
    have e: "listing_double k n nd i st = loop_ret [0..<64] (\<lambda>j. listing_page k n (exnum_at ?lv1 j)) ?st"
      using assms(1) by (simp add: listing_double_def st Let_def inode_load_ushort)
    have "case loop_ret [0..<64] (\<lambda>j. listing_page k n (exnum_at ?lv1 j)) ?st of
        (r, st') \<Rightarrow> if r then Q st' else P (4 + 64 * i + 64) st'"
    proof (rule loop_ret_rule[where P = "\<lambda>j st. P (4 + 64 * i + j) st"])
      fix j st assume "j < 64" "P (4 + 64 * i + j) st"
      then show "case listing_page k n (exnum_at ?lv1 j) st of
          (r, st') \<Rightarrow> if r then Q st' else P (4 + 64 * i + Suc j) st'"
        using step[of "4 + 64 * i + j" st] by (simp only: page_num_double add_Suc_right)
    qed (use asm st in \<open>auto simp: P_def lst_at_def\<close>)
    moreover have "4 + 64 * i + 64 = 4 + 64 * Suc i" by simp
    ultimately show ?thesis by (simp only: e)
  qed
  define a0 where "a0 = mput 0 (mget 16 96 nd) a"
  have a0: "a0 = mput 0 (node_bytes s nd 0) a" by (simp add: a0_def node_bytes_def)
  have id: "s = s\<lparr>iblockbuf := iblockbuf s\<rparr>" by simp
  show ?thesis
  proof (cases "n \<le> ptr_at k 0")
    case True
    then have "npages k n = 0" by (simp add: npages_eq)
    then show ?thesis using True a0
      by (intro exI[of _ "iblockbuf s"]) (simp add: node_listing_def Let_def ptr_at_def a0_def)
  next
    case False
    then have "P 0 (ptr_at k 0, a0, s)"
      using npages_le[of k n 0] id unfolding P_def lst_at_def a0 by (metis gr0I le_numeral_extra(3))
    then have 1: "case loop_ret [0..<4] (\<lambda>i. listing_page k n (pnum_at nd i)) (ptr_at k 0, a0, s) of
        (r, st') \<Rightarrow> if r then Q st' else P 4 st'"
    proof (intro loop_ret_rule[where P = P])
      fix i st assume "i < (4::nat)" "P i st"
      then show "case listing_page k n (pnum_at nd i) st of (r, st') \<Rightarrow> if r then Q st' else P (Suc i) st'"
        using step[of i st] by (simp add: page_num_def)
    qed simp_all
    have 2: "case loop_ret [0..<4] (listing_double k n nd) st of (r, st') \<Rightarrow> if r then Q st' else P 260 st'"
      if "P 4 st" for st
    proof -
      have "case loop_ret [0..<4] (listing_double k n nd) st of (r, st') \<Rightarrow> if r then Q st' else P (4 + 64 * 4) st'"
        using that double by (intro loop_ret_rule[where P = "\<lambda>i. P (4 + 64 * i)"]) simp_all
      moreover have "4 + 64 * 4 = (260::nat)" by simp
      ultimately show ?thesis by (simp only:)
    qed
    have no: "\<not> P 260 st" for st using assms(4) by (simp add: P_def)
    obtain r st where 3: "loop_ret [0..<4] (\<lambda>i. listing_page k n (pnum_at nd i)) (ptr_at k 0, a0, s) = (r, st)"
      by (rule prod.exhaust)
    have "\<exists>b. node_listing k nd n a s = (mput 0 (node_bytes s nd (npages k n)) a, s\<lparr>iblockbuf := b\<rparr>)"
    proof (cases r)
      case True
      then show ?thesis using 1 3 False by (auto simp: node_listing_def Let_def ptr_at_def a0_def Q_def lst_at_def)
    next
      case r: False
      then have "P 4 st" using 1 3 by simp
      from 2[OF this] no obtain st' where "loop_ret [0..<4] (listing_double k n nd) st = (True, st')" "Q st'"
        by (auto split: prod.splits if_splits)
      then show ?thesis using 3 r False by (auto simp: node_listing_def Let_def ptr_at_def a0_def Q_def lst_at_def)
    qed
    then show ?thesis .
  qed
qed

section \<open>The two listings\<close>

lemma dnode_listing_eq:
  assumes s: "disk_ok s" "arrays_ok s" and n: "npages Dnode (unat (md_size (inode_at s (unat w)))) \<le> MAX_PAGES"
  defines "nd \<equiv> inode_at s (unat w)"
  shows "\<exists>b. dnode_listing w s = (unat (md_size nd),
    s\<lparr>iblockbuf := b, d_arr := mput 0 (node_bytes s nd (npages Dnode (unat (md_size nd)))) (d_arr s)\<rparr>)"
proof -
  let ?s = "s\<lparr>iblockbuf := file_blk s (unat w div 4)\<rparr>"
  from node_listing_eq[of ?s nd "d_arr s" Dnode "unat (md_size nd)"] obtain b where
    "node_listing Dnode nd (unat (md_size nd)) (d_arr s) ?s
      = (mput 0 (node_bytes s nd (npages Dnode (unat (md_size nd)))) (d_arr s), s\<lparr>iblockbuf := b\<rparr>)"
    using s n by (auto simp: nd_def arrays_ok_def)
  then show ?thesis using s(1) by (auto simp: dnode_listing_def Let_def inode_load_ushort nd_def)
qed

lemma fnode_listing_eq:
  assumes s: "disk_ok s" "arrays_ok s" and n: "npages Fnode (unat (md_size (inode_at s (unat w)))) \<le> MAX_PAGES"
  defines "nd \<equiv> inode_at s (unat w)"
  shows "\<exists>b. fnode_listing w s = (unat (md_size nd),
    s\<lparr>iblockbuf := b, f_arr := mput 0 (node_bytes s nd (npages Fnode (unat (md_size nd)))) (f_arr s)\<rparr>)"
proof -
  let ?s = "s\<lparr>iblockbuf := file_blk s (unat w div 4)\<rparr>"
  from node_listing_eq[of ?s nd "f_arr s" Fnode "unat (md_size nd)"] obtain b where
    "node_listing Fnode nd (unat (md_size nd)) (f_arr s) ?s
      = (mput 0 (node_bytes s nd (npages Fnode (unat (md_size nd)))) (f_arr s), s\<lparr>iblockbuf := b\<rparr>)"
    using s n by (auto simp: nd_def arrays_ok_def)
  then show ?thesis using s(1) by (auto simp: fnode_listing_def Let_def inode_load_ushort nd_def)
qed

text \<open>
  C21. What dnode_listing and fnode_listing read: for a list of n entries that fits the 260 pages,
  they yield n and leave in the static array, from its start, the 96 bytes of the inode followed by
  every page that holds an entry, single and double pages alike; the disk is unchanged.
\<close>

theorem listing_reads_pages:
  assumes "disk_ok s" "arrays_ok s"
  shows "(npages Dnode (unat (md_size (inode_at s (unat w)))) \<le> MAX_PAGES \<longrightarrow>
      (\<exists>b. dnode_listing w s = (unat (md_size (inode_at s (unat w))),
        s\<lparr>iblockbuf := b, d_arr := mput 0 (node_bytes s (inode_at s (unat w))
            (npages Dnode (unat (md_size (inode_at s (unat w)))))) (d_arr s)\<rparr>)))
    \<and> (npages Fnode (unat (md_size (inode_at s (unat w)))) \<le> MAX_PAGES \<longrightarrow>
      (\<exists>b. fnode_listing w s = (unat (md_size (inode_at s (unat w))),
        s\<lparr>iblockbuf := b, f_arr := mput 0 (node_bytes s (inode_at s (unat w))
            (npages Fnode (unat (md_size (inode_at s (unat w)))))) (f_arr s)\<rparr>)))"
  using dnode_listing_eq[OF assms, of w] fnode_listing_eq[OF assms, of w] by blast

lemma dir_node_size: "md_size (dir_node i p) = 2"
  by (simp add: dir_node_def layout_defs di_ent_bytes_def mem_simps)

theorem listing_reads_pages_witness:
  "\<exists>b. dnode_listing 2 mounted = (2, mounted\<lparr>iblockbuf := b,
     d_arr := mput 0 (mget 16 96 (dir_node 2 2)) (d_arr mounted)\<rparr>)"
proof -
  have "arrays_ok mounted" using mounted(1) by (simp add: fs_ok_def arrays_ok_def)
  from listing_reads_pages[OF fs_ok_disk[OF mounted(1)] this, of 2]
  show ?thesis by (simp add: mounted(4) dir_node_size npages_def node_bytes_def)
qed

end
