(* ===== verification/FS_NodeSet.thy ===== *)
theory FS_NodeSet
  imports FS_Nodes
begin

text \<open>
  What storing a listing does (\<open>dnode_listing_set\<close>, \<open>fnode_listing_set\<close>). The pages a node
  uses are tracked by a ghost map from keys (\<open>Inl p\<close> for page \<open>p\<close>, \<open>Inr g\<close> for double page
  \<open>g\<close>) to inode numbers. \<open>nodes_inv\<close> says that the numbers are different, in use and inside the
  set \<open>U\<close> the operation may touch; every elementary step keeps it, and the loops move the set of
  keys, page by page, from the old listing's to the new one's.
\<close>

section \<open>Inode numbers held by a node\<close>

type_synonym numbering = "nat + nat \<Rightarrow> nat"

definition nodes_inv :: "nat set \<times> bool \<Rightarrow> fs \<Rightarrow> numbering \<Rightarrow> (nat + nat) set \<Rightarrow> fs \<Rightarrow> bool" where
  "nodes_inv U s0 w A s \<longleftrightarrow>
     fs_ok s \<and> fst U \<subseteq> {2..<1024} \<and> inj_on w A \<and> w ` A \<inter> free_inodes s = {}
     \<and> free_inodes s \<union> w ` A \<subseteq> fst U \<and> (snd U \<or> fst U \<subseteq> free_inodes s \<union> w ` A)
     \<and> (\<forall>m<4096. m \<notin> fst U \<longrightarrow> inode_at s m = inode_at s0 m)
     \<and> (\<forall>b>1024. file_blk s b = file_blk s0 b)
     \<and> free_list s = free_list s0 \<and> ERRNO s = ERRNO s0 \<and> d_arr s = d_arr s0 \<and> f_arr s = f_arr s0"

lemma nodes_invD:
  assumes "nodes_inv U s0 w A s" "x \<in> A"
  shows "2 \<le> w x" "w x < 1024" "w x \<notin> free_inodes s" "w x \<in> fst U"
proof -
  have "w x \<in> fst U" "w x \<notin> free_inodes s" "fst U \<subseteq> {2..<1024}" using assms by (auto simp: nodes_inv_def)
  then show "2 \<le> w x" "w x < 1024" "w x \<notin> free_inodes s" "w x \<in> fst U" by auto
qed

lemma nodes_inv_ok: "nodes_inv U s0 w A s \<Longrightarrow> fs_ok s \<and> disk_ok s"
  by (simp add: nodes_inv_def fs_ok_disk)

lemma nodes_inv_eq_iff: "nodes_inv U s0 w A s \<Longrightarrow> x \<in> A \<Longrightarrow> y \<in> A \<Longrightarrow> w x = w y \<longleftrightarrow> x = y"
  by (auto simp: nodes_inv_def inj_on_def)

text \<open>Keys may be forgotten only where pages may leak.\<close>

lemma nodes_inv_mono: "nodes_inv U s0 w A s \<Longrightarrow> B \<subseteq> A \<Longrightarrow> B = A \<or> snd U \<Longrightarrow> nodes_inv U s0 w B s"
proof -
  assume s: "nodes_inv U s0 w A s" and B: "B \<subseteq> A" and u: "B = A \<or> snd U"
  have h: "inj_on w A" "w ` A \<inter> free_inodes s = {}" "free_inodes s \<union> w ` A \<subseteq> fst U"
    using s by (simp_all add: nodes_inv_def)
  have "inj_on w B" using h(1) B by (rule inj_on_subset)
  moreover have "w ` B \<inter> free_inodes s = {}" "free_inodes s \<union> w ` B \<subseteq> fst U" using h(2,3) B by blast+
  moreover have "snd U \<or> fst U \<subseteq> free_inodes s \<union> w ` B" using s u by (auto simp: nodes_inv_def)
  ultimately show ?thesis using s by (simp add: nodes_inv_def)
qed

lemma nodes_inv_load [simp]: "nodes_inv U s0 w A (s\<lparr>iblockbuf := b\<rparr>) = nodes_inv U s0 w A s"
  by (simp add: nodes_inv_def)

lemma nodes_inv_pop:
  assumes s: "nodes_inv U s0 w A s" and x: "x \<notin> A" and f: "free_inodes s \<noteq> {}"
  shows "\<exists>n s'. free_inode_pop s = (n, s') \<and> nodes_inv U s0 (w(x := unat n)) (insert x A) s'
     \<and> card (free_inodes s) = Suc (card (free_inodes s')) \<and> (\<forall>m<4096. inode_at s' m = inode_at s m)
     \<and> unat n = Min (free_inodes s) \<and> free_inodes s' = free_inodes s - {unat n}"
proof -
  let ?m = "Min (free_inodes s)"
  have ok: "fs_ok s" using s by (simp add: nodes_inv_def)
  from free_inode_pop_ok[OF ok f] obtain b where b:
    "free_inode_pop s = (of_nat ?m, s\<lparr>file_blk := (file_blk s)(1024 := b)\<rparr>)"
    "fs_ok (s\<lparr>file_blk := (file_blk s)(1024 := b)\<rparr>)"
    "free_list (s\<lparr>file_blk := (file_blk s)(1024 := b)\<rparr>) = free_list s"
    "free_inodes (s\<lparr>file_blk := (file_blk s)(1024 := b)\<rparr>) = free_inodes s - {?m}" by blast
  have m: "?m \<in> free_inodes s" using f by (simp add: finite_free_inodes)
  have u: "unat (of_nat ?m :: ushort) = ?m"
    using free_inodes_range[OF ok m] by (simp add: unat_of_nat_ushort)
  have h: "inj_on w A" "w ` A \<inter> free_inodes s = {}" "free_inodes s \<union> w ` A \<subseteq> fst U"
    "snd U \<or> fst U \<subseteq> free_inodes s \<union> w ` A"
    using s by (simp_all add: nodes_inv_def)
  have im: "(w(x := ?m)) ` A = w ` A" using x by (intro image_cong) auto
  have "inj_on (w(x := ?m)) (insert x A)"
    using h(1,2) m x im by (subst inj_on_insert) (auto intro!: inj_on_fun_updI)
  moreover have "insert ?m (w ` A) \<inter> (free_inodes s - {?m}) = {}" "(free_inodes s - {?m}) \<union> insert ?m (w ` A) \<subseteq> fst U"
    "snd U \<or> fst U \<subseteq> (free_inodes s - {?m}) \<union> insert ?m (w ` A)"
    using h m by blast+
  ultimately have "nodes_inv U s0 w' (insert x A) (s\<lparr>file_blk := (file_blk s)(1024 := b)\<rparr>)"
    if "w' = w(x := ?m)" "w' ` insert x A = insert ?m (w ` A)" for w'
    using s b(2-4) that(2) unfolding that(1) by (simp add: nodes_inv_def del: fun_upd_image image_insert)
  moreover have "(w(x := ?m)) ` insert x A = insert ?m (w ` A)"
    using im by (simp only: image_insert fun_upd_same)
  ultimately have "nodes_inv U s0 (w(x := unat (of_nat ?m :: ushort))) (insert x A) (s\<lparr>file_blk := (file_blk s)(1024 := b)\<rparr>)"
    unfolding u by blast
  moreover have "card (free_inodes s) = Suc (card (free_inodes s - {?m}))"
    using m by (metis card.remove finite_free_inodes)
  ultimately show ?thesis using b u by auto
qed

lemma nodes_inv_push:
  assumes s: "nodes_inv U s0 w A s" and x: "x \<in> A" and v: "unat v = w x"
  shows "\<exists>s'. free_inode_push v s = Some s' \<and> nodes_inv U s0 w (A - {x}) s'
     \<and> free_inodes s \<subseteq> free_inodes s' \<and> (\<forall>m<4096. inode_at s' m = inode_at s m)"
proof -
  note r = nodes_invD[OF s x]
  have ok: "fs_ok s" using s by (simp add: nodes_inv_def)
  from free_inode_push_ok[OF ok, of v] r v obtain b where b:
    "free_inode_push v s = Some (s\<lparr>file_blk := (file_blk s)(1024 := b)\<rparr>)"
    "fs_ok (s\<lparr>file_blk := (file_blk s)(1024 := b)\<rparr>)"
    "free_list (s\<lparr>file_blk := (file_blk s)(1024 := b)\<rparr>) = free_list s"
    "free_inodes (s\<lparr>file_blk := (file_blk s)(1024 := b)\<rparr>) = insert (w x) (free_inodes s)" by auto
  have "w ` (A - {x}) = w ` A - {w x}" using s x by (auto simp: nodes_inv_def inj_on_def)
  then have "nodes_inv U s0 w (A - {x}) (s\<lparr>file_blk := (file_blk s)(1024 := b)\<rparr>)"
    using s x b by (auto simp: nodes_inv_def inj_on_diff)
  then show ?thesis using b by auto
qed

lemma nodes_inv_dump:
  assumes s: "nodes_inv U s0 w A s" and x: "x \<in> A" and v: "unat v = w x" and nd: "length nd = INODE_SIZE"
  defines "t \<equiv> inode_dump (uint (v :: ushort)) nd s"
  shows "nodes_inv U s0 w A t" "free_inodes t = free_inodes s"
    "inode_at t m = (if m = w x then nd else inode_at s m)"
proof -
  note r = nodes_invD[OF s x]
  have ok: "fs_ok s" using s by (simp add: nodes_inv_def)
  have t: "t = inode_dump (int (w x)) nd s" by (simp add: t_def v flip: v)
  have n: "w x < MAX_INODES" "0 < w x" "w x < 4096" using r by simp_all
  note d = fs_ok_dump[OF ok n(2,3) nd, folded t]
  show i: "inode_at t m = (if m = w x then nd else inode_at s m)" for m
    unfolding t by (rule inode_at_dump[OF fs_ok_disk[OF ok] n(1) nd])
  have "w x div 4 \<le> 1024" using r by simp
  then have "file_blk t b = file_blk s b" if "1024 < b" for b
    using file_blk_dump[OF fs_ok_disk[OF ok] n(1) nd, of b] that by (simp add: t)
  then show "nodes_inv U s0 w A t" "free_inodes t = free_inodes s"
    using s d i r(4) by (auto simp: nodes_inv_def) (simp_all add: t)
qed

text \<open>
  Storing one page: a new one is taken from the bitmap first, an old one keeps its number.
\<close>

lemma take_page:
  assumes s: "nodes_inv U s0 w A s" and pg: "length pg = INODE_SIZE"
    and old: "x \<in> A \<Longrightarrow> b = False \<and> unat v = w x" and new: "x \<notin> A \<Longrightarrow> b = True \<and> Suc r \<le> card (free_inodes s)"
    and cnt: "r \<le> card (free_inodes s)"
  shows "\<exists>n s1 w'. (if b then free_inode_pop s else (v, s)) = (n, s1)
     \<and> nodes_inv U s0 w' (insert x A) (inode_dump (uint n) pg s1) \<and> w' x = unat n \<and> (\<forall>y\<in>A. w' y = w y)
     \<and> r \<le> card (free_inodes (inode_dump (uint n) pg s1)) \<and> (x \<in> A \<longrightarrow> free_inodes (inode_dump (uint n) pg s1) = free_inodes s)
     \<and> (\<forall>m<4096. inode_at (inode_dump (uint n) pg s1) m = (if m = unat n then pg else inode_at s m))
     \<and> (x \<notin> A \<longrightarrow> unat n = Min (free_inodes s) \<and> free_inodes (inode_dump (uint n) pg s1) = free_inodes s - {unat n})"
proof (cases "x \<in> A")
  case True
  then have "insert x A = A" by blast
  then show ?thesis using old[OF True] nodes_inv_dump[OF s True _ pg, of v] cnt
    by (intro exI[of _ v] exI[of _ s] exI[of _ w]) auto
next
  case False
  then have "free_inodes s \<noteq> {}" using new by auto
  from nodes_inv_pop[OF s False this] obtain n s1 where n:
    "free_inode_pop s = (n, s1)" "nodes_inv U s0 (w(x := unat n)) (insert x A) s1"
    "card (free_inodes s) = Suc (card (free_inodes s1))" "\<forall>m<4096. inode_at s1 m = inode_at s m"
    "unat n = Min (free_inodes s)" "free_inodes s1 = free_inodes s - {unat n}" by blast
  define w' where "w' = w(x := unat n)"
  have w': "w' x = unat n" "\<forall>y\<in>A. w' y = w y" using False by (auto simp: w'_def)
  from nodes_inv_dump[OF n(2)[folded w'_def] insertI1 w'(1)[symmetric] pg] n(1,3-6) new[OF False] w'
  show ?thesis using False by (intro exI[of _ n] exI[of _ s1] exI[of _ w']) auto
qed

section \<open>From the old pages to the new ones\<close>

text \<open>
  With the pages below \<open>P\<close> and the double pages below \<open>G\<close> done, the node holds the new keys
  below and the old keys above; \<open>need\<close> counts the inodes still to be taken.
\<close>

definition own :: "nat \<Rightarrow> nat \<Rightarrow> nat \<Rightarrow> nat \<Rightarrow> bool" where
  "own n1 n0 P p \<longleftrightarrow> (if p < P then p < n1 else p < n0)"

definition held :: "nat \<Rightarrow> nat \<Rightarrow> nat \<Rightarrow> nat \<Rightarrow> (nat + nat) set" where
  "held np npo P G = {x. case x of Inl p \<Rightarrow> own np npo P p | Inr g \<Rightarrow> own (ndouble np) (ndouble npo) G g}"

definition need :: "nat \<Rightarrow> nat \<Rightarrow> nat \<Rightarrow> nat \<Rightarrow> nat" where
  "need np npo P G = (np - max P npo) + (ndouble np - max G (ndouble npo))"

lemma held_iff [simp]:
  "Inl p \<in> held np npo P G \<longleftrightarrow> own np npo P p"
  "Inr g \<in> held np npo P G \<longleftrightarrow> own (ndouble np) (ndouble npo) G g"
  by (simp_all add: held_def)

lemma own_Suc: "own n1 n0 (Suc P) p \<longleftrightarrow> (if p = P then P < n1 else own n1 n0 P p)"
  by (auto simp: own_def less_Suc_eq)

lemma own_here [simp]: "own n1 n0 P P \<longleftrightarrow> P < n0"
  by (simp add: own_def)

lemma held_Suc:
  "P < np \<Longrightarrow> held np npo (Suc P) G = insert (Inl P) (held np npo P G)"
  "np \<le> P \<Longrightarrow> held np npo (Suc P) G = held np npo P G - {Inl P}"
  "G < ndouble np \<Longrightarrow> held np npo P (Suc G) = insert (Inr G) (held np npo P G)"
  "ndouble np \<le> G \<Longrightarrow> held np npo P (Suc G) = held np npo P G - {Inr G}"
  by (auto simp: held_def own_Suc split: sum.splits if_splits)

definition filled :: "byte list \<Rightarrow> numbering \<Rightarrow> nat \<Rightarrow> fs \<Rightarrow> bool" where
  "filled a w n s \<longleftrightarrow> (\<forall>p<n. inode_at s (w (Inl p)) = mget (96 + 128 * p) 128 a)"

definition lv_linked :: "numbering \<Rightarrow> (nat + nat) set \<Rightarrow> nat \<Rightarrow> inode_t \<Rightarrow> bool" where
  "lv_linked w A g lv \<longleftrightarrow> length lv = INODE_SIZE \<and>
     (\<forall>j<64. Inl (4 + 64 * g + j) \<in> A \<longrightarrow> unat (exnum_at lv j) = w (Inl (4 + 64 * g + j)))"

definition linked :: "numbering \<Rightarrow> (nat + nat) set \<Rightarrow> nat set \<Rightarrow> fs \<Rightarrow> bool" where
  "linked w A X s \<longleftrightarrow> (\<forall>g. g \<notin> X \<and> Inr g \<in> A \<longrightarrow> lv_linked w A g (inode_at s (w (Inr g))))"

definition nd_linked :: "numbering \<Rightarrow> (nat + nat) set \<Rightarrow> inode_t \<Rightarrow> bool" where
  "nd_linked w A nd \<longleftrightarrow>
     (\<forall>i<4. (Inl i \<in> A \<longrightarrow> unat (pnum_at nd i) = w (Inl i)) \<and> (Inr i \<in> A \<longrightarrow> unat (ex_pnum_at nd i) = w (Inr i)))"

text \<open>
  A listing that grows takes the least free inodes, in the order in which the loops come to the new pages: the
  single pages, then every double page before its pages.
\<close>

definition node_keys :: "nat \<Rightarrow> (nat + nat) set" where
  "node_keys n = {x. case x of Inl p \<Rightarrow> p < n | Inr g \<Rightarrow> g < ndouble n}"

lemma node_keys_iff [simp]: "Inl p \<in> node_keys n \<longleftrightarrow> p < n" "Inr g \<in> node_keys n \<longleftrightarrow> g < ndouble n"
  by (simp_all add: node_keys_def)

fun key_rank :: "nat + nat \<Rightarrow> nat" where
  "key_rank (Inl p) = (if p < 4 then p else p + (p - 4) div 64 + 1)"
| "key_rank (Inr g) = 4 + 65 * g"

definition in_order :: "fs \<Rightarrow> numbering \<Rightarrow> (nat + nat) set \<Rightarrow> fs \<Rightarrow> bool" where
  "in_order s0 w N s \<longleftrightarrow>
     free_inodes s \<subseteq> free_inodes s0 \<and> w ` N \<subseteq> free_inodes s0
     \<and> (\<forall>x\<in>free_inodes s0 - free_inodes s. \<forall>y\<in>free_inodes s. x < y)
     \<and> (\<forall>x\<in>N. \<forall>y\<in>N. key_rank x < key_rank y \<longrightarrow> w x < w y)"

lemma in_order_load [simp]: "in_order s0 w N (s\<lparr>iblockbuf := b\<rparr>) = in_order s0 w N s"
  by (simp add: in_order_def)

lemma in_order_same:
  assumes s: "in_order s0 w N s" and M: "M \<subseteq> N" "\<forall>y\<in>M. w' y = w y" and t: "free_inodes t = free_inodes s"
  shows "in_order s0 w' M t"
proof -
  have "w' ` M = w ` M" using M(2) by (intro image_cong) auto
  moreover have "w ` M \<subseteq> free_inodes s0" using s M(1) by (auto simp: in_order_def)
  moreover have "\<forall>x\<in>M. \<forall>y\<in>M. key_rank x < key_rank y \<longrightarrow> w' x < w' y"
    using s M subsetD[OF M(1)] by (simp add: in_order_def)
  ultimately show ?thesis using s t unfolding in_order_def by simp
qed

lemma in_order_pop:
  assumes s: "in_order s0 w N s" "w ` N \<inter> free_inodes s = {}" and f: "free_inodes s \<noteq> {}"
    and m: "w' x = Min (free_inodes s)" "free_inodes t = free_inodes s - {w' x}"
    and a: "\<forall>y\<in>N. w' y = w y" "\<forall>y\<in>N. key_rank y < key_rank x"
  shows "in_order s0 w' (insert x N) t"
proof -
  have mi: "w' x \<in> free_inodes s" "\<forall>y\<in>free_inodes s. y \<noteq> w' x \<longrightarrow> w' x < y"
    using f Min_in[OF finite_free_inodes f] Min_le[OF finite_free_inodes] by (auto simp: m(1) order.strict_iff_order)
  have lt: "w' y < w' x" if "y \<in> N" for y
  proof -
    have "w y \<in> free_inodes s0 - free_inodes s" using s that by (auto simp: in_order_def)
    then show ?thesis using s(1) mi(1) a(1) that by (simp add: in_order_def)
  qed
  have "w' ` N = w ` N" using a(1) by (intro image_cong) auto
  then have "w' ` insert x N \<subseteq> free_inodes s0" using s(1) mi(1) by (auto simp: in_order_def)
  moreover have "\<forall>y\<in>free_inodes s0 - free_inodes t. \<forall>z\<in>free_inodes t. y < z"
  proof (intro ballI)
    fix y z assume y: "y \<in> free_inodes s0 - free_inodes t" and z: "z \<in> free_inodes t"
    have "z \<in> free_inodes s" "z \<noteq> w' x" using z by (simp_all add: m(2))
    then show "y < z" using s(1) mi y by (cases "y = w' x") (simp_all add: in_order_def m(2))
  qed
  moreover have "\<forall>y\<in>insert x N. \<forall>z\<in>insert x N. key_rank y < key_rank z \<longrightarrow> w' y < w' z"
  proof (intro ballI impI)
    fix y z assume y: "y \<in> insert x N" "z \<in> insert x N" "key_rank y < key_rank z"
    consider "y \<in> N" "z \<in> N" | "y \<in> N" "z = x" | "y = x" "z \<in> N" | "y = x" "z = x" using y(1,2) by blast
    then show "w' y < w' z"
    proof cases
      case 1
      then show ?thesis using s(1) a(1) y(3) by (simp add: in_order_def)
    next
      case 3
      then show ?thesis using a(2) y(3) less_asym by blast
    qed (use lt y(3) in simp_all)
  qed
  moreover have "free_inodes t \<subseteq> free_inodes s0" using s(1) by (auto simp: in_order_def m(2))
  ultimately show ?thesis by (simp only: in_order_def)
qed

text \<open>
  Pages leak when the new end falls inside a double page that the old listing filled further: the
  functions free no page of a double page they keep.
\<close>

definition leaks :: "nat \<Rightarrow> nat \<Rightarrow> bool" where
  "leaks np npo \<longleftrightarrow> 4 < np \<and> np < npo \<and> np < 4 + 64 * ndouble np"

definition step_inv ::
    "nat set \<times> bool \<Rightarrow> fs \<Rightarrow> byte list \<Rightarrow> nat \<Rightarrow> nat \<Rightarrow> numbering \<Rightarrow> nat set \<Rightarrow> nat \<Rightarrow> nat \<Rightarrow> fs \<Rightarrow> bool" where
  "step_inv U s0 a np npo w X P G s \<longleftrightarrow>
     nodes_inv U s0 w (held np npo P G) s \<and> filled a w (min P np) s
     \<and> linked w (held np npo P G) X s \<and> need np npo P G \<le> card (free_inodes s)
     \<and> (leaks np npo \<longrightarrow> snd U) \<and> (np \<le> npo \<longrightarrow> free_inodes s0 \<subseteq> free_inodes s)
     \<and> (npo \<le> np \<longrightarrow> in_order s0 w (held np npo P G - node_keys npo) s)"

lemma step_inv_load [simp]: "step_inv U s0 a np npo w X P G (s\<lparr>iblockbuf := b\<rparr>) = step_inv U s0 a np npo w X P G s"
  by (simp add: step_inv_def filled_def linked_def)

lemma step_inv_nodes: "step_inv U s0 a np npo w X P G s \<Longrightarrow> nodes_inv U s0 w (held np npo P G) s"
  by (simp add: step_inv_def)

lemma lv_linked_mono:
  "lv_linked w A g lv \<Longrightarrow> \<forall>y\<in>A. w' y = w y \<Longrightarrow> B \<subseteq> insert (Inl P) A \<Longrightarrow> P < 4 \<or> g \<noteq> (P - 4) div 64 \<Longrightarrow> lv_linked w' B g lv"
  unfolding lv_linked_def by (auto dest!: subsetD)

lemma nd_linked_mono:
  "nd_linked w A nd \<Longrightarrow> \<forall>y\<in>A. w' y = w y \<Longrightarrow> \<forall>i<4. (Inl i \<in> B \<longrightarrow> Inl i \<in> A) \<and> (Inr i \<in> B \<longrightarrow> Inr i \<in> A) \<Longrightarrow> nd_linked w' B nd"
  unfolding nd_linked_def by (metis (no_types, lifting))

text \<open>A step that stores nothing and holds no new key.\<close>

lemma step_inv_less:
  assumes s: "step_inv U s0 a np npo w X P G s" and h: "held np npo P' G' \<subseteq> held np npo P G"
    and n: "nodes_inv U s0 w (held np npo P' G') t" "min P' np = min P np" "need np npo P' G' \<le> need np npo P G"
    and t: "free_inodes s \<subseteq> free_inodes t" "\<forall>m<4096. inode_at t m = inode_at s m"
    and f: "npo \<le> np \<Longrightarrow> free_inodes t = free_inodes s"
  shows "step_inv U s0 a np npo w X P' G' t"
proof -
  have lt: "w x < 4096" if "x \<in> held np npo P G" for x
    using nodes_invD(2)[OF step_inv_nodes[OF s] that] by simp
  have "filled a w (min P np) t"
    using s lt t(2) by (auto simp: step_inv_def filled_def own_def)
  moreover have "linked w (held np npo P' G') X t"
    unfolding linked_def lv_linked_def
  proof (intro allI impI, elim conjE)
    fix g assume g: "g \<notin> X" "Inr g \<in> held np npo P' G'"
    then have "Inr g \<in> held np npo P G" using h by blast
    moreover have "linked w (held np npo P G) X s" using s by (simp add: step_inv_def)
    ultimately have "lv_linked w (held np npo P G) g (inode_at t (w (Inr g)))"
      using g(1) lt t(2) by (simp add: linked_def del: held_iff)
    then show "length (inode_at t (w (Inr g))) = INODE_SIZE \<and>
        (\<forall>j<64. Inl (4 + 64 * g + j) \<in> held np npo P' G' \<longrightarrow>
          unat (exnum_at (inode_at t (w (Inr g))) j) = w (Inl (4 + 64 * g + j)))"
      using h unfolding lv_linked_def by blast
  qed
  moreover have "card (free_inodes s) \<le> card (free_inodes t)" by (rule card_mono[OF finite_free_inodes t(1)])
  moreover have "in_order s0 w (held np npo P' G' - node_keys npo) t" if "npo \<le> np"
    by (rule in_order_same[OF _ Diff_mono[OF h subset_refl] _ f[OF that]]) (use s that in \<open>auto simp: step_inv_def\<close>)
  ultimately show ?thesis using s n t(1) by (auto simp: step_inv_def)
qed

text \<open>Page \<open>P\<close> is kept or new: its content is stored under its number.\<close>

lemma page_rank:
  assumes "y \<in> held np npo P (if P < 4 then 0 else Suc ((P - 4) div 64)) - node_keys npo"
  shows "key_rank y < key_rank (Inl P)"
proof (cases y)
  case (Inl p)
  then have "p < P" using assms by (simp add: own_def split: if_splits)
  moreover have "(p - 4) div 64 \<le> (P - 4) div 64" using \<open>p < P\<close> by (intro div_le_mono) simp
  ultimately show ?thesis using Inl by auto
next
  case (Inr g)
  then have "4 \<le> P" "g \<le> (P - 4) div 64" using assms by (auto simp: own_def split: if_splits)
  moreover have "64 * ((P - 4) div 64) \<le> P - 4" by simp
  ultimately show ?thesis using Inr by simp
qed

lemma group_rank:
  assumes "y \<in> held np npo (4 + 64 * G) G - node_keys npo"
  shows "key_rank y < key_rank (Inr G)"
proof (cases y)
  case (Inl p)
  then have p: "p < 4 + 64 * G" using assms by (simp add: own_def split: if_splits)
  then have "(p - 4) div 64 < G" if "4 \<le> p" using that by (simp add: less_mult_imp_div_less)
  then show ?thesis using Inl p by auto
next
  case (Inr g)
  then show ?thesis using assms by (auto simp: own_def split: if_splits)
qed

lemma keep_page:
  assumes s: "step_inv U s0 a np npo w X P G s" and a: "length a = ARR_BYTES" and P: "P < np" "P < MAX_PAGES"
    and X: "4 \<le> P \<Longrightarrow> (P - 4) div 64 \<in> X" and G: "G = (if P < 4 then 0 else Suc ((P - 4) div 64))"
    and old: "P < npo \<Longrightarrow> unat v = w (Inl P)"
  shows "\<exists>n s1 w'. (if npo \<le> P then free_inode_pop s else (v, s)) = (n, s1)
     \<and> step_inv U s0 a np npo w' X (Suc P) G (inode_dump (uint n) (mget (96 + 128 * P) 128 a) s1)
     \<and> w' (Inl P) = unat n \<and> (\<forall>y\<in>held np npo P G. w' y = w y)"
proof -
  let ?A = "held np npo P G" and ?pg = "mget (96 + 128 * P) 128 a"
  have pg: "length ?pg = INODE_SIZE" using a P(2) by simp
  have sub: "insert (Inl P) ?A = held np npo (Suc P) G" using held_Suc(1)[OF P(1)] by simp
  have nd: "need np npo (Suc P) G \<le> need np npo P G" "npo \<le> P \<Longrightarrow> Suc (need np npo (Suc P) G) = need np npo P G"
    using P(1) by (auto simp: need_def)
  from take_page[OF step_inv_nodes[OF s] pg, of "Inl P" "npo \<le> P" v "need np npo (Suc P) G"] old nd s
  obtain n s1 w' where n: "(if npo \<le> P then free_inode_pop s else (v, s)) = (n, s1)"
    "nodes_inv U s0 w' (held np npo (Suc P) G) (inode_dump (uint n) ?pg s1)" "w' (Inl P) = unat n" "\<forall>y\<in>?A. w' y = w y"
    "need np npo (Suc P) G \<le> card (free_inodes (inode_dump (uint n) ?pg s1))"
    "\<forall>m<4096. inode_at (inode_dump (uint n) ?pg s1) m = (if m = unat n then ?pg else inode_at s m)"
    "Inl P \<in> ?A \<longrightarrow> free_inodes (inode_dump (uint n) ?pg s1) = free_inodes s"
    "Inl P \<notin> ?A \<longrightarrow> unat n = Min (free_inodes s) \<and> free_inodes (inode_dump (uint n) ?pg s1) = free_inodes s - {unat n}"
    unfolding sub by (auto simp: step_inv_def)
  let ?t = "inode_dump (uint n) ?pg s1"
  have at: "inode_at ?t (w' x) = inode_at s (w x)" if x: "x \<in> ?A" "x \<noteq> Inl P" for x
  proof -
    have "x \<in> held np npo (Suc P) G" "Inl P \<in> held np npo (Suc P) G" using x(1) sub by blast+
    from nodes_inv_eq_iff[OF n(2) this] nodes_invD(2)[OF n(2) this(1)] x n(3,4,6) show ?thesis by simp
  qed
  have "filled a w' (min (Suc P) np) ?t"
    unfolding filled_def
  proof (intro allI impI)
    fix p assume p: "p < min (Suc P) np"
    have "unat n < 4096" using nodes_invD(2)[OF n(2), of "Inl P"] n(3) P(1) by (simp add: own_def)
    moreover have "filled a w (min P np) s" "Inl p \<in> ?A" if "p \<noteq> P" using s p that by (auto simp: step_inv_def own_def)
    ultimately show "inode_at ?t (w' (Inl p)) = mget (96 + 128 * p) 128 a"
      using p n(3,6) at[of "Inl p"] by (cases "p = P") (auto simp: filled_def)
  qed
  moreover have "linked w' (held np npo (Suc P) G) X ?t"
    unfolding linked_def
  proof (intro allI impI, elim conjE)
    fix g assume g: "g \<notin> X" "Inr g \<in> held np npo (Suc P) G"
    then have gA: "Inr g \<in> ?A" by simp
    have "lv_linked w ?A g (inode_at s (w (Inr g)))"
      using s g(1) gA by (simp add: step_inv_def linked_def del: held_iff)
    moreover have "P < 4 \<or> g \<noteq> (P - 4) div 64" using X g(1) by (cases "P < 4") auto
    ultimately show "lv_linked w' (held np npo (Suc P) G) g (inode_at ?t (w' (Inr g)))"
      using lv_linked_mono[OF _ n(4) eq_refl[OF sub[symmetric]], of g] at[OF gA] by simp
  qed
  moreover have "leaks np npo \<longrightarrow> snd U" using s by (simp add: step_inv_def)
  moreover have "np \<le> npo \<longrightarrow> free_inodes s0 \<subseteq> free_inodes ?t" using s n(7) P(1) by (simp add: step_inv_def)
  moreover have "in_order s0 w' (held np npo (Suc P) G - node_keys npo) ?t" if "npo \<le> np"
  proof -
    have o: "in_order s0 w (?A - node_keys npo) s" using s that by (simp add: step_inv_def)
    show ?thesis
    proof (cases "P < npo")
      case True
      then have "Inl P \<in> ?A" by simp
      then have "held np npo (Suc P) G = ?A" unfolding sub[symmetric] by (rule insert_absorb)
      then show ?thesis using in_order_same[OF o, of _ w' ?t] n(4,7) True by simp
    next
      case False
      then have new: "held np npo (Suc P) G - node_keys npo = insert (Inl P) (?A - node_keys npo)"
        unfolding sub[symmetric] by (subst insert_Diff_if) simp
      have "w ` (?A - node_keys npo) \<inter> free_inodes s = {}" using step_inv_nodes[OF s] by (auto simp: nodes_inv_def)
      moreover have "free_inodes s \<noteq> {}" using s nd(2) False by (auto simp: step_inv_def)
      ultimately show ?thesis unfolding new using n(3,4,8) False page_rank[of _ np npo P, folded G]
        by (intro in_order_pop[OF o]) auto
    qed
  qed
  ultimately show ?thesis using n by (auto simp: step_inv_def)
qed

text \<open>Page \<open>P\<close> is beyond the new end: it is freed, or forgotten when its double page stays.\<close>

lemma skip_page:
  assumes s: "step_inv U s0 a np npo w X P G s" and P: "np \<le> P" "npo \<le> P \<or> snd U"
  shows "step_inv U s0 a np npo w X (Suc P) G s"
proof -
  have h: "held np npo (Suc P) G \<subseteq> held np npo P G" using held_Suc(2)[OF P(1)] by blast
  have "held np npo (Suc P) G = held np npo P G" if "npo \<le> P"
    using held_Suc(2)[OF P(1)] that by simp
  then have "held np npo (Suc P) G = held np npo P G \<or> snd U" using P(2) by blast
  show ?thesis
    by (rule step_inv_less[OF s h nodes_inv_mono[OF step_inv_nodes[OF s] h]]) (fact, use P(1) in \<open>auto simp: need_def\<close>)
qed

lemma free_page:
  assumes s: "step_inv U s0 a np npo w X P G s" and P: "np \<le> P" "P < npo" and v: "unat v = w (Inl P)"
  shows "\<exists>s'. free_inode_push v s = Some s' \<and> step_inv U s0 a np npo w X (Suc P) G s'"
proof -
  have h: "held np npo (Suc P) G = held np npo P G - {Inl P}" using held_Suc(2)[OF P(1)] .
  from nodes_inv_push[OF step_inv_nodes[OF s] _ v] P(2) obtain s' where s':
    "free_inode_push v s = Some s'" "nodes_inv U s0 w (held np npo (Suc P) G) s'"
    "free_inodes s \<subseteq> free_inodes s'" "\<forall>m<4096. inode_at s' m = inode_at s m"
    by (auto simp: h)
  have "step_inv U s0 a np npo w X (Suc P) G s'"
    by (rule step_inv_less[OF s _ s'(2) _ _ s'(3,4)]) (use P h in \<open>auto simp: need_def\<close>)
  with s'(1) show ?thesis by blast
qed

text \<open>
  Double page \<open>G\<close>: while its pages are stored its table is in memory (\<open>G\<close> is exempt from
  \<open>linked\<close>); storing the table closes it.
\<close>

lemma new_group:
  assumes s: "step_inv U s0 a np npo w {} P G s" and G: "G < ndouble np" "ndouble npo \<le> G" and P: "P = 4 + 64 * G"
  shows "\<exists>n s1 w'. free_inode_pop s = (n, s1) \<and> step_inv U s0 a np npo w' {G} P (Suc G) s1
     \<and> w' (Inr G) = unat n \<and> (\<forall>y\<in>held np npo P G. w' y = w y)"
proof -
  let ?A = "held np npo P G"
  have sub: "held np npo P (Suc G) = insert (Inr G) ?A" using held_Suc(3)[OF G(1)] .
  have out: "Inr G \<notin> ?A" using G(2) by simp
  have nd: "Suc (need np npo P (Suc G)) = need np npo P G" and lk: "leaks np npo \<longrightarrow> snd U"
    and big: "\<not> np \<le> npo"
    using G s ndouble_le[of np "ndouble npo"] ndouble_le[of npo "ndouble npo"] by (auto simp: need_def step_inv_def)
  then have ne: "free_inodes s \<noteq> {}" using s by (auto simp: step_inv_def)
  from nodes_inv_pop[OF step_inv_nodes[OF s] out ne] obtain n s1 where n:
    "free_inode_pop s = (n, s1)" "nodes_inv U s0 (w(Inr G := unat n)) (held np npo P (Suc G)) s1"
    "card (free_inodes s) = Suc (card (free_inodes s1))" "\<forall>m<4096. inode_at s1 m = inode_at s m"
    "unat n = Min (free_inodes s)" "free_inodes s1 = free_inodes s - {unat n}"
    unfolding sub by blast
  define w' where "w' = w(Inr G := unat n)"
  have w': "w' (Inr G) = unat n" "\<forall>y\<in>?A. w' y = w y" "w' (Inl p) = w (Inl p)" for p
    using out by (auto simp: w'_def)
  have lt: "w x < 4096" if "x \<in> ?A" for x using nodes_invD(2)[OF step_inv_nodes[OF s] that] by simp
  have "filled a w' (min P np) s1"
    using s lt n(4) by (auto simp: step_inv_def filled_def own_def w'(3))
  moreover have "linked w' (held np npo P (Suc G)) {G} s1"
    unfolding linked_def
  proof (intro allI impI, elim conjE)
    fix g assume g: "g \<notin> {G}" "Inr g \<in> held np npo P (Suc G)"
    then have gA: "Inr g \<in> ?A" using sub by blast
    then have "lv_linked w ?A g (inode_at s1 (w' (Inr g)))"
      using s w'(2) n(4) lt[OF gA] by (simp add: step_inv_def linked_def del: held_iff)
    then show "lv_linked w' (held np npo P (Suc G)) g (inode_at s1 (w' (Inr g)))"
      by (simp add: lv_linked_def w'(3))
  qed
  moreover have "need np npo P (Suc G) \<le> card (free_inodes s1)" using s nd n(3) by (simp add: step_inv_def)
  moreover have "in_order s0 w' (held np npo P (Suc G) - node_keys npo) s1" if "npo \<le> np"
  proof -
    have "in_order s0 w (?A - node_keys npo) s" using s that by (simp add: step_inv_def)
    moreover have "w ` (?A - node_keys npo) \<inter> free_inodes s = {}" using step_inv_nodes[OF s] by (auto simp: nodes_inv_def)
    moreover have "held np npo P (Suc G) - node_keys npo = insert (Inr G) (?A - node_keys npo)"
      using G(2) unfolding sub by (subst insert_Diff_if) simp
    ultimately show ?thesis using w'(1,2) n(5,6) ne group_rank[of _ np npo G] by (auto simp: P intro!: in_order_pop)
  qed
  ultimately show ?thesis using n(1,2) w'(1,2) lk big unfolding w'_def[symmetric] step_inv_def by blast
qed

lemma old_group:
  assumes s: "step_inv U s0 a np npo w {} P G s" and G: "G < ndouble np" "G < ndouble npo"
  shows "step_inv U s0 a np npo w {G} P (Suc G) s"
proof -
  have "held np npo P (Suc G) = held np npo P G" using held_Suc(3)[OF G(1)] G(2) by auto
  moreover have "need np npo P (Suc G) \<le> need np npo P G" by (auto simp: need_def)
  ultimately show ?thesis using s by (auto simp: step_inv_def linked_def)
qed

lemma close_group:
  assumes s: "step_inv U s0 a np npo w {G} P (Suc G) s" and G: "G < ndouble np"
    and lv: "lv_linked w (held np npo P (Suc G)) G lv" and v: "unat (v :: ushort) = w (Inr G)"
  shows "step_inv U s0 a np npo w {} P (Suc G) (inode_dump (uint v) lv s)"
proof -
  let ?A = "held np npo P (Suc G)" and ?t = "inode_dump (uint v) lv s"
  have G': "Inr G \<in> ?A" using G by (simp add: own_def)
  have l: "length lv = INODE_SIZE" using lv by (simp add: lv_linked_def)
  note d = nodes_inv_dump[OF step_inv_nodes[OF s] G' v l]
  have at: "inode_at ?t (w x) = (if x = Inr G then lv else inode_at s (w x))" if "x \<in> ?A" for x
    using d(3) nodes_inv_eq_iff[OF step_inv_nodes[OF s] that G'] by simp
  have "filled a w (min P np) ?t"
    using s at by (auto simp: step_inv_def filled_def own_def)
  moreover have "linked w ?A {} ?t"
    unfolding linked_def
  proof (intro allI impI, elim conjE)
    fix g assume g: "Inr g \<in> ?A"
    show "lv_linked w ?A g (inode_at ?t (w (Inr g)))"
      using s at[OF g] lv g by (cases "g = G") (simp_all add: step_inv_def linked_def del: held_iff)
  qed
  moreover have "in_order s0 w (?A - node_keys npo) ?t" if "npo \<le> np"
    by (rule in_order_same[OF _ subset_refl _ d(2)]) (use s that in \<open>auto simp: step_inv_def\<close>)
  ultimately show ?thesis using d(1,2) s by (simp add: step_inv_def)
qed

lemma skip_group:
  assumes s: "step_inv U s0 a np npo w {} P G s" and G: "ndouble np \<le> G" "ndouble npo \<le> G"
  shows "step_inv U s0 a np npo w {} P (Suc G) s"
proof -
  have h: "held np npo P (Suc G) = held np npo P G" using held_Suc(4)[OF G(1)] G(2) by simp
  show ?thesis
    by (rule step_inv_less[OF s eq_refl[OF h]]) (use step_inv_nodes[OF s] h G in \<open>auto simp: need_def\<close>)
qed

lemma free_group:
  assumes s: "step_inv U s0 a np npo w {} P G s" and G: "ndouble np \<le> G" "G < ndouble npo" and v: "unat v = w (Inr G)"
  shows "\<exists>s'. free_inode_push v s = Some s' \<and> step_inv U s0 a np npo w {} P (Suc G) s'"
proof -
  have h: "held np npo P (Suc G) = held np npo P G - {Inr G}" using held_Suc(4)[OF G(1)] .
  from nodes_inv_push[OF step_inv_nodes[OF s] _ v] G(2) obtain s' where s':
    "free_inode_push v s = Some s'" "nodes_inv U s0 w (held np npo P (Suc G)) s'"
    "free_inodes s \<subseteq> free_inodes s'" "\<forall>m<4096. inode_at s' m = inode_at s m"
    by (auto simp: h)
  have less: "\<not> npo \<le> np" using G ndouble_le[of np G] ndouble_le[of npo G] by linarith
  have "step_inv U s0 a np npo w {} P (Suc G) s'"
    by (rule step_inv_less[OF s _ s'(2) _ _ s'(3,4)]) (use G h less in \<open>simp_all add: need_def\<close>)
  with s'(1) show ?thesis by blast
qed

end
