(* ===== verification/FS_Resize.thy ===== *)
theory FS_Resize
  imports FS_NodeSet
begin

text \<open>
  The loops of the two \<open>_listing_set\<close> functions against the page steps of \<open>FS_NodeSet\<close>, and the
  contract of the functions: the listing stored is the listing read back, the pages it needs are
  taken from the bitmap, the pages it no longer needs are returned, nothing else changes.
\<close>

section \<open>The page numbers in the inode\<close>

lemma get16_put16_slot:
  "i \<noteq> j \<Longrightarrow> b + 2 * i + 2 \<le> length m \<Longrightarrow> get16 (b + 2 * j) (put16 (b + 2 * i) n m) = get16 (b + 2 * j) m"
  by (rule get16_put16_out) (use less_linear[of i j] in auto)

lemma pnum_set [mem_simps]:
  assumes "length nd = INODE_SIZE" "i < 4" "j < 4"
  shows "pnum_at (set_pnum i n nd) j = (if i = j then n else pnum_at nd j)"
    "ex_pnum_at (set_pnum i n nd) j = ex_pnum_at nd j"
    "pnum_at (set_ex_pnum i n nd) j = pnum_at nd j"
    "ex_pnum_at (set_ex_pnum i n nd) j = (if i = j then n else ex_pnum_at nd j)"
proof -
  have "get16 (112 + 2 * j) (put16 (112 + 2 * i) n nd) = get16 (112 + 2 * j) nd"
    "get16 (120 + 2 * j) (put16 (120 + 2 * i) n nd) = get16 (120 + 2 * j) nd" if "i \<noteq> j"
    using assms that by (auto intro!: get16_put16_slot)
  then show "pnum_at (set_pnum i n nd) j = (if i = j then n else pnum_at nd j)"
    "ex_pnum_at (set_pnum i n nd) j = ex_pnum_at nd j"
    "pnum_at (set_ex_pnum i n nd) j = pnum_at nd j"
    "ex_pnum_at (set_ex_pnum i n nd) j = (if i = j then n else ex_pnum_at nd j)"
    using assms by (auto simp: layout_defs mem_simps)
qed

lemma exnum_set [mem_simps]:
  assumes "length nd = INODE_SIZE" "i < 64" "j < 64"
  shows "exnum_at (set_exnum i n nd) j = (if i = j then n else exnum_at nd j)"
  using assms get16_put16_slot[of i j 0 nd n] by (auto simp: layout_defs mem_simps)

definition nd_head :: "inode_t \<Rightarrow> inode_t \<Rightarrow> bool" where
  "nd_head nd1 nd \<longleftrightarrow> length nd = INODE_SIZE \<and> mget 0 112 nd = mget 0 112 nd1"

lemma nd_head_set:
  "nd_head nd1 nd \<Longrightarrow> i < 4 \<Longrightarrow> nd_head nd1 (set_pnum i n nd)"
  "nd_head nd1 nd \<Longrightarrow> i < 4 \<Longrightarrow> nd_head nd1 (set_ex_pnum i n nd)"
  by (simp_all add: nd_head_def layout_defs mem_simps)

lemma nd_linked_set:
  assumes "nd_linked w A nd" "\<forall>y\<in>A. w' y = w y" "nd_head nd1 nd" "i < 4"
  shows "w' (Inl i) = unat n \<Longrightarrow> nd_linked w' (insert (Inl i) A) (set_pnum i n nd)"
    "w' (Inr i) = unat n \<Longrightarrow> nd_linked w' (insert (Inr i) A) (set_ex_pnum i n nd)"
  using assms by (auto simp: nd_linked_def nd_head_def pnum_set)

lemma lv_linked_set:
  assumes "lv_linked w A g lv" "\<forall>y\<in>A. w' y = w y" "j < 64" "w' (Inl (4 + 64 * g + j)) = unat n"
  shows "lv_linked w' (insert (Inl (4 + 64 * g + j)) A) g (set_exnum j n lv)"
  using assms by (auto simp: lv_linked_def exnum_set) (simp_all add: layout_defs)

section \<open>The loop over the single pages\<close>

definition single_inv ::
    "nat set \<times> bool \<Rightarrow> fs \<Rightarrow> byte list \<Rightarrow> nkind \<Rightarrow> nat \<Rightarrow> nat \<Rightarrow> inode_t \<Rightarrow> nat \<Rightarrow> nat \<Rightarrow> set_state \<Rightarrow> bool" where
  "single_inv U s0 a k np npo nd1 P G st \<longleftrightarrow>
     (case st of (ptr, nd, s) \<Rightarrow> ptr = ptr_at k P \<and> nd_head nd1 nd \<and>
        (\<exists>w. step_inv U s0 a np npo w {} P G s \<and> nd_linked w (held np npo P G) nd))"

lemma page_bytes: "mget (esz k * ptr_at k P) 128 a = mget (96 + 128 * P) 128 a"
  by (simp add: esz_ptr)

lemma lset_single_step:
  assumes st: "single_inv U s0 a k (npages k n1) (npages k n0) nd1 i 0 st" and a: "length a = ARR_BYTES" and i: "i < 4"
  shows "\<exists>st'. lset_single k a (int n1) (int n0) i st = Some st'
     \<and> single_inv U s0 a k (npages k n1) (npages k n0) nd1 (Suc i) 0 st'"
proof -
  let ?np = "npages k n1" and ?npo = "npages k n0"
  obtain nd s w where s: "st = (ptr_at k i, nd, s)" "nd_head nd1 nd" "step_inv U s0 a ?np ?npo w {} i 0 s"
    "nd_linked w (held ?np ?npo i 0) nd" using st by (auto simp: single_inv_def)
  have v: "unat (pnum_at nd i) = w (Inl i)" if "i < ?npo" using s(4) i that by (simp add: nd_linked_def)
  show ?thesis
  proof (cases "?np \<le> i")
    case True
    then have e: "n1 \<le> ptr_at k i" by (simp add: npages_le)
    have nd: "nd_linked w (held ?np ?npo (Suc i) 0) nd"
      using nd_linked_mono[OF s(4), of w] held_Suc(2)[OF True, of ?npo 0] by simp
    show ?thesis
    proof (cases "?npo \<le> i")
      case True
      then show ?thesis using e skip_page[OF s(3) \<open>?np \<le> i\<close>] nd s(1,2)
        by (auto simp: lset_single_def single_inv_def ptr_at_Suc npages_le)
    next
      case False
      then have f: "i < ?npo" "\<not> n0 \<le> ptr_at k i"
        using npages_le[of k n0 i] by simp_all
      from free_page[OF s(3) True f(1) v[OF f(1)]] obtain s' where
        "free_inode_push (pnum_at nd i) s = Some s'" "step_inv U s0 a ?np ?npo w {} (Suc i) 0 s'" by blast
      then show ?thesis using e f(2) nd s(1,2)
        by (auto simp: lset_single_def single_inv_def ptr_at_Suc)
    qed
  next
    case False
    then have e: "i < ?np" "\<not> n1 \<le> ptr_at k i"
      using npages_le[of k n1 i] by simp_all
    have m: "i < MAX_PAGES" using i by simp
    from keep_page[OF s(3) a e(1) m _ _ v] i obtain n s1 w' where n:
      "(if ?npo \<le> i then free_inode_pop s else (pnum_at nd i, s)) = (n, s1)"
      "step_inv U s0 a ?np ?npo w' {} (Suc i) 0 (inode_dump (uint n) (mget (96 + 128 * i) 128 a) s1)"
      "w' (Inl i) = unat n" "\<forall>y\<in>held ?np ?npo i 0. w' y = w y" by auto
    have h: "held ?np ?npo (Suc i) 0 = insert (Inl i) (held ?np ?npo i 0)" by (rule held_Suc(1)[OF e(1)])
    show ?thesis
    proof (cases "?npo \<le> i")
      case True
      then have "n0 \<le> ptr_at k i" "free_inode_pop s = (n, s1)" using n(1) by (simp_all add: npages_le)
      then show ?thesis
        using e(2) n(2) nd_linked_set(1)[OF s(4) n(4) s(2) i n(3)] nd_head_set(1)[OF s(2) i, of n] s(1,2) i
        by (auto simp: lset_single_def single_inv_def ptr_at_Suc Let_def page_bytes h pnum_set nd_head_def)
    next
      case False
      then have f: "\<not> n0 \<le> ptr_at k i" "n = pnum_at nd i" "s1 = s" "i < ?npo"
        using n(1) False npages_le[of k n0 i] by simp_all
      have "nd_linked w' (held ?np ?npo (Suc i) 0) nd"
        using nd_linked_mono[OF s(4) n(4)] f(4) h by simp
      then show ?thesis
        using e(2) f n(2) s(1,2) by (auto simp: lset_single_def single_inv_def ptr_at_Suc Let_def page_bytes)
    qed
  qed
qed

section \<open>The loops over a double page\<close>

definition group_inv ::
    "nat set \<times> bool \<Rightarrow> fs \<Rightarrow> byte list \<Rightarrow> nkind \<Rightarrow> nat \<Rightarrow> nat \<Rightarrow> inode_t \<Rightarrow> nat \<Rightarrow> nat \<Rightarrow> set_state \<Rightarrow> bool" where
  "group_inv U s0 a k np npo nd G P st \<longleftrightarrow>
     (case st of (ptr, lv, s) \<Rightarrow> ptr = ptr_at k P \<and>
        (\<exists>w. step_inv U s0 a np npo w {G} P (Suc G) s \<and> lv_linked w (held np npo P (Suc G)) G lv
           \<and> nd_linked w (held np npo P (Suc G)) nd))"

lemma nd_linked_page:
  "nd_linked w A nd \<Longrightarrow> \<forall>y\<in>A. w' y = w y \<Longrightarrow> 4 \<le> P \<Longrightarrow> B \<subseteq> insert (Inl P) A \<Longrightarrow> nd_linked w' B nd"
  by (rule nd_linked_mono) auto

lemma lset_old_page_step:
  assumes st: "group_inv U s0 a k (npages k n1) (npages k n0) nd G (4 + 64 * G + j) st"
    and a: "length a = ARR_BYTES" and G: "G < 4" "j < 64" and Gn: "G < ndouble (npages k n1)"
  shows "group_inv U s0 a k (npages k n1) (npages k n0) nd G (4 + 64 * G + Suc j)
     (lset_old_page k a (int n1) (int n0) j st)"
proof -
  let ?np = "npages k n1" and ?npo = "npages k n0" and ?P = "4 + 64 * G + j"
  let ?A = "held ?np ?npo ?P (Suc G)" and ?B = "held ?np ?npo (Suc ?P) (Suc G)"
  obtain lv s w where s: "st = (ptr_at k ?P, lv, s)" "step_inv U s0 a ?np ?npo w {G} ?P (Suc G) s"
    "lv_linked w ?A G lv" "nd_linked w ?A nd" using st by (auto simp: group_inv_def)
  have P: "?P < MAX_PAGES" "4 \<le> ?P" "(?P - 4) div 64 = G" "4 + 64 * G + Suc j = Suc ?P" using G by auto
  have lv: "length lv = INODE_SIZE" using s(3) by (simp add: lv_linked_def)
  have v: "unat (exnum_at lv j) = w (Inl ?P)" if "?P < ?npo" using s(3) G(2) that by (simp add: lv_linked_def)
  show ?thesis
  proof (cases "?np \<le> ?P")
    case True
    have h: "?B \<subseteq> ?A" using held_Suc(2)[OF True] by blast
    have "lv_linked w ?B G lv" using s(3) h unfolding lv_linked_def by blast
    moreover have "nd_linked w ?B nd" using nd_linked_page[OF s(4) _ P(2)] h by blast
    moreover have "n1 \<le> ptr_at k ?P" using True npages_le[of k n1 ?P] by simp
    moreover have "?npo \<le> ?P \<or> snd U"
    proof (rule ccontr)
      assume c: "\<not> (?npo \<le> ?P \<or> snd U)"
      have "\<not> ?np \<le> 4 + 64 * G" using Gn ndouble_le[of ?np G] by simp
      moreover have "64 * Suc G \<le> 64 * ndouble ?np" using Gn by (intro mult_le_mono2) simp
      ultimately have "leaks ?np ?npo" using True c G(2) by (auto simp: leaks_def)
      then show False using s(2) c by (simp add: step_inv_def)
    qed
    ultimately show ?thesis using skip_page[OF s(2) True]
      unfolding s(1) P(4) by (auto simp: lset_old_page_def group_inv_def ptr_at_Suc)
  next
    case False
    then have e: "?P < ?np" "\<not> n1 \<le> ptr_at k ?P" using npages_le[of k n1 ?P] by simp_all
    have Gp: "Suc G = (if ?P < 4 then 0 else Suc ((?P - 4) div 64))" using P(2,3) by simp
    from keep_page[OF s(2) a e(1) P(1) _ Gp v] P(3) obtain n s1 w' where n:
      "(if ?npo \<le> ?P then free_inode_pop s else (exnum_at lv j, s)) = (n, s1)"
      "step_inv U s0 a ?np ?npo w' {G} (Suc ?P) (Suc G) (inode_dump (uint n) (mget (96 + 128 * ?P) 128 a) s1)"
      "w' (Inl ?P) = unat n" "\<forall>y\<in>?A. w' y = w y" by blast
    have h: "?B = insert (Inl ?P) ?A" by (rule held_Suc(1)[OF e(1)])
    have nd: "nd_linked w' ?B nd" using nd_linked_page[OF s(4) n(4) P(2)] h by blast
    define lv' where "lv' = (if ?npo \<le> ?P then set_exnum j n lv else lv)"
    have lv': "lv_linked w' ?B G lv'"
    proof (cases "?npo \<le> ?P")
      case True
      then show ?thesis using lv_linked_set[OF s(3) n(4) G(2) n(3)] h by (simp add: lv'_def)
    next
      case False
      then have "Inl ?P \<in> ?A" by simp
      then have "?B = ?A" unfolding h by (rule insert_absorb)
      then show ?thesis using s(3) n(4) False by (simp add: lv'_def lv_linked_def del: held_iff)
    qed
    have "exnum_at lv' j = n" using n(1) lv G(2) unfolding lv'_def
      by (cases "?npo \<le> ?P") (simp_all only: if_True if_False exnum_set prod.inject refl)
    moreover have "n0 \<le> ptr_at k ?P \<longleftrightarrow> ?npo \<le> ?P" using npages_le[of k n0 ?P] by simp
    moreover have "(if ?npo \<le> ?P then let (n, s) = free_inode_pop s in (set_exnum j n lv, s) else (lv, s)) = (lv', s1)"
      using n(1) unfolding lv'_def by (cases "?npo \<le> ?P") (simp_all only: if_True if_False Let_def prod.case prod.inject refl simp_thms)
    ultimately have "lset_old_page k a (int n1) (int n0) j st
        = (ptr_at k (Suc ?P), lv', inode_dump (uint n) (mget (96 + 128 * ?P) 128 a) s1)"
      using e(2) unfolding s(1) by (simp add: lset_old_page_def Let_def ptr_at_Suc page_bytes)
    then show ?thesis using n(2) lv' nd unfolding P(4) by (auto simp: group_inv_def)
  qed
qed

lemma lset_new_page_eq:
  "c \<le> int ptr \<Longrightarrow> lset_new_page k a e j (ptr, lv, s) = lset_old_page k a e c j (ptr, lv, s)"
  by (auto simp: lset_new_page_def lset_old_page_def Let_def split: prod.splits)

lemma lset_pages:
  assumes st: "group_inv U s0 a k (npages k n1) (npages k n0) nd G (4 + 64 * G) st"
    and a: "length a = ARR_BYTES" and G: "G < 4" "G < ndouble (npages k n1)"
  shows "group_inv U s0 a k (npages k n1) (npages k n0) nd G (4 + 64 * Suc G) (fold (lset_old_page k a (int n1) (int n0)) [0..<64] st)"
    "npages k n0 \<le> 4 + 64 * G \<Longrightarrow>
     group_inv U s0 a k (npages k n1) (npages k n0) nd G (4 + 64 * Suc G) (fold (lset_new_page k a (int n1)) [0..<64] st)"
proof -
  let ?I = "\<lambda>j. group_inv U s0 a k (npages k n1) (npages k n0) nd G (4 + 64 * G + j)"
  have e: "4 + 64 * G + 64 = 4 + 64 * Suc G" by simp
  have "?I 64 (fold (lset_old_page k a (int n1) (int n0)) [0..<64] st)"
    by (rule fold_upt_rule[where P = ?I]) (use lset_old_page_step[OF _ a G(1) _ G(2)] st in simp_all)
  then show "group_inv U s0 a k (npages k n1) (npages k n0) nd G (4 + 64 * Suc G) (fold (lset_old_page k a (int n1) (int n0)) [0..<64] st)"
    unfolding e .
  assume le: "npages k n0 \<le> 4 + 64 * G"
  have "?I (Suc j) (lset_new_page k a (int n1) j st)" if j: "j < 64" "?I j st" for j st
  proof -
    have "npages k n0 \<le> 4 + 64 * G + j" using le by simp
    then have "n0 \<le> ptr_at k (4 + 64 * G + j)" using npages_le by blast
    then have "lset_new_page k a (int n1) j st = lset_old_page k a (int n1) (int n0) j st"
      using j(2) by (cases st) (auto simp: group_inv_def lset_new_page_eq)
    then show ?thesis using lset_old_page_step[OF j(2) a G(1) j(1) G(2)] by simp
  qed
  then have "?I 64 (fold (lset_new_page k a (int n1)) [0..<64] st)"
    by (intro fold_upt_rule[where P = ?I]) (use st in simp_all)
  then show "group_inv U s0 a k (npages k n1) (npages k n0) nd G (4 + 64 * Suc G) (fold (lset_new_page k a (int n1)) [0..<64] st)"
    unfolding e .
qed

lemma lset_free_pages:
  assumes s: "step_inv U s0 a (npages k n1) (npages k n0) w {} (4 + 64 * G) G s"
    and np: "npages k n1 \<le> 4 + 64 * G" and lv: "lv_linked w (held (npages k n1) (npages k n0) (4 + 64 * G) G) G lv"
  shows "\<exists>s'. loop [0..<64] (lset_free_page k (int n0) lv) (ptr_at k (4 + 64 * G), s) = Some (ptr_at k (4 + 64 * Suc G), s')
     \<and> step_inv U s0 a (npages k n1) (npages k n0) w {} (4 + 64 * Suc G) G s'"
proof -
  let ?np = "npages k n1" and ?npo = "npages k n0"
  let ?I = "\<lambda>j (ptr, s). ptr = ptr_at k (4 + 64 * G + j) \<and> step_inv U s0 a ?np ?npo w {} (4 + 64 * G + j) G s"
  have "\<exists>st'. lset_free_page k (int n0) lv j st = Some st' \<and> ?I (Suc j) st'" if j: "j < 64" "?I j st" for j st
  proof -
    let ?P = "4 + 64 * G + j"
    obtain s where st: "st = (ptr_at k ?P, s)" "step_inv U s0 a ?np ?npo w {} ?P G s" using j(2) by auto
    have P: "?np \<le> ?P" "Suc ?P = 4 + 64 * G + Suc j" using np by simp_all
    show ?thesis
    proof (cases "?npo \<le> ?P")
      case True
      then have "n0 \<le> ptr_at k ?P" using npages_le by blast
      then show ?thesis using skip_page[OF st(2) P(1) disjI1[OF True]]
        by (simp add: lset_free_page_def st(1) ptr_at_Suc)
    next
      case False
      then have c: "?P < ?npo" "\<not> n0 \<le> ptr_at k ?P" using npages_le[of k n0 ?P] by simp_all
      then have "unat (exnum_at lv j) = w (Inl ?P)" using lv j(1) by (simp add: lv_linked_def own_def)
      from free_page[OF st(2) P(1) c(1) this] c(2) show ?thesis
        by (auto simp: lset_free_page_def st(1) ptr_at_Suc)
    qed
  qed
  then have "\<exists>st'. loop [0..<64] (lset_free_page k (int n0) lv) (ptr_at k (4 + 64 * G), s) = Some st' \<and> ?I 64 st'"
    by (intro loop_rule[where P = ?I]) (use s in simp_all)
  moreover have "4 + 64 * G + 64 = 4 + 64 * Suc G" by simp
  ultimately show ?thesis by auto
qed

section \<open>The loop over the double pages\<close>

text \<open>\<open>ptr\<close> stops at the first double page beyond both ends.\<close>

definition double_inv ::
    "nat set \<times> bool \<Rightarrow> fs \<Rightarrow> byte list \<Rightarrow> nkind \<Rightarrow> nat \<Rightarrow> nat \<Rightarrow> inode_t \<Rightarrow> nat \<Rightarrow> set_state \<Rightarrow> bool" where
  "double_inv U s0 a k np npo nd1 g st \<longleftrightarrow>
     (\<exists>h\<le>g. (h < g \<longrightarrow> ndouble np \<le> h \<and> ndouble npo \<le> h) \<and> single_inv U s0 a k np npo nd1 (4 + 64 * h) g st)"

lemma ptr_double: "int n \<le> int (ptr_at k (4 + 64 * h)) \<longleftrightarrow> ndouble (npages k n) \<le> h"
  by (simp only: of_nat_le_iff flip: npages_le ndouble_le)

lemma lset_double_none:
  assumes "single_inv U s0 a k (npages k n1) (npages k n0) nd1 (4 + 64 * h) g st" "h \<le> g"
    and "ndouble (npages k n1) \<le> h" "ndouble (npages k n0) \<le> h"
  shows "lset_double k a (int n1) (int n0) g st = Some st"
    "single_inv U s0 a k (npages k n1) (npages k n0) nd1 (4 + 64 * h) (Suc g) st"
proof -
  let ?np = "npages k n1" and ?npo = "npages k n0"
  obtain nd s w where s: "st = (ptr_at k (4 + 64 * h), nd, s)" "nd_head nd1 nd"
    "step_inv U s0 a ?np ?npo w {} (4 + 64 * h) g s" "nd_linked w (held ?np ?npo (4 + 64 * h) g) nd"
    using assms(1) by (auto simp: single_inv_def)
  have g: "ndouble ?np \<le> g" "ndouble ?npo \<le> g" using assms by simp_all
  show "lset_double k a (int n1) (int n0) g st = Some st"
    using assms(3,4) ptr_double[of n1 k h] ptr_double[of n0 k h] by (simp add: s(1) lset_double_def)
  have "nd_linked w (held ?np ?npo (4 + 64 * h) (Suc g)) nd"
    using nd_linked_mono[OF s(4), of w] held_Suc(4)[OF g(1), of ?npo] by simp
  then show "single_inv U s0 a k ?np ?npo nd1 (4 + 64 * h) (Suc g) st"
    using skip_group[OF s(3) g] s(1,2) by (auto simp: single_inv_def)
qed

lemma lset_double_keep:
  assumes st: "single_inv U s0 a k (npages k n1) (npages k n0) nd1 (4 + 64 * g) g st"
    and a: "length a = ARR_BYTES" and g: "g < 4" "g < ndouble (npages k n1)"
  shows "\<exists>st'. lset_double k a (int n1) (int n0) g st = Some st'
     \<and> single_inv U s0 a k (npages k n1) (npages k n0) nd1 (4 + 64 * Suc g) (Suc g) st'"
proof -
  let ?np = "npages k n1" and ?npo = "npages k n0" and ?P = "4 + 64 * g" and ?Q = "4 + 64 * Suc g"
  let ?I = "group_inv U s0 a k ?np ?npo"
  obtain nd s w where s: "st = (ptr_at k ?P, nd, s)" "nd_head nd1 nd"
    "step_inv U s0 a ?np ?npo w {} ?P g s" "nd_linked w (held ?np ?npo ?P g) nd"
    using st by (auto simp: single_inv_def)
  have dok: "disk_ok s" using nodes_inv_ok[OF step_inv_nodes[OF s(3)]] by simp
  have e: "\<not> int n1 \<le> int (ptr_at k ?P)" using g(2) ptr_double[of n1 k g] by simp
  have c: "int n0 \<le> int (ptr_at k ?P) \<longleftrightarrow> ndouble ?npo \<le> g" by (rule ptr_double)
  have fin: "single_inv U s0 a k ?np ?npo nd1 ?Q (Suc g) (ptr, nd', inode_dump (uint (ex_pnum_at nd' g)) lv t)"
    if inv: "?I nd' g ?Q (ptr, lv, t)" and hd: "nd_head nd1 nd'" for nd' ptr lv t
  proof -
    obtain w where t: "ptr = ptr_at k ?Q" "step_inv U s0 a ?np ?npo w {g} ?Q (Suc g) t"
      "lv_linked w (held ?np ?npo ?Q (Suc g)) g lv" "nd_linked w (held ?np ?npo ?Q (Suc g)) nd'"
      using inv by (auto simp: group_inv_def)
    have "unat (ex_pnum_at nd' g) = w (Inr g)" using t(4) g by (simp add: nd_linked_def own_def)
    from close_group[OF t(2) g(2) t(3) this] t(1,4) hd show ?thesis by (auto simp: single_inv_def)
  qed
  show ?thesis
  proof (cases "ndouble ?npo \<le> g")
    case True
    from new_group[OF s(3) g(2) True refl] obtain n s1 w' where n: "free_inode_pop s = (n, s1)"
      "step_inv U s0 a ?np ?npo w' {g} ?P (Suc g) s1" "w' (Inr g) = unat n" "\<forall>y\<in>held ?np ?npo ?P g. w' y = w y" by blast
    have h: "held ?np ?npo ?P (Suc g) = insert (Inr g) (held ?np ?npo ?P g)" by (rule held_Suc(3)[OF g(2)])
    have npo: "?npo \<le> ?P" using True by (simp add: ndouble_le)
    define nd' where "nd' = set_ex_pnum g n nd"
    have "nd_linked w' (held ?np ?npo ?P (Suc g)) nd'"
      unfolding h nd'_def by (rule nd_linked_set(2)[OF s(4) n(4) s(2) g(1) n(3)])
    moreover have "lv_linked w' (held ?np ?npo ?P (Suc g)) g (zeros INODE_SIZE)"
      using npo by (auto simp: lv_linked_def own_def)
    ultimately have I: "?I nd' g ?P (ptr_at k ?P, zeros INODE_SIZE, s1)" using n(2) by (auto simp: group_inv_def)
    obtain ptr lv t where f: "fold (lset_new_page k a (int n1)) [0..<64] (ptr_at k ?P, zeros INODE_SIZE, s1) = (ptr, lv, t)"
      by (rule prod_cases3)
    from fin[OF lset_pages(2)[OF I a g npo, unfolded f]] nd_head_set(2)[OF s(2) g(1)]
    show ?thesis using e c True n(1) f by (simp add: lset_double_def s(1) Let_def nd'_def)
  next
    case False
    then have lt: "g < ndouble ?npo" by simp
    let ?s = "s\<lparr>iblockbuf := file_blk s (unat (ex_pnum_at nd g) div 4)\<rparr>"
    let ?lv = "inode_at s (w (Inr g))"
    have v: "unat (ex_pnum_at nd g) = w (Inr g)" using s(4) g(1) lt by (simp add: nd_linked_def)
    have h: "held ?np ?npo ?P (Suc g) = held ?np ?npo ?P g" using held_Suc(3)[OF g(2), of ?npo ?P] lt by auto
    have "lv_linked w (held ?np ?npo ?P g) g ?lv" using s(3) lt by (simp add: step_inv_def linked_def)
    then have I: "?I nd g ?P (ptr_at k ?P, ?lv, ?s)"
      using old_group[OF s(3) g(2) lt] s(4) h by (auto simp: group_inv_def)
    obtain ptr lv t where f: "fold (lset_old_page k a (int n1) (int n0)) [0..<64] (ptr_at k ?P, ?lv, ?s) = (ptr, lv, t)"
      by (rule prod_cases3)
    from fin[OF lset_pages(1)[OF I a g, unfolded f] s(2)]
    show ?thesis using e c False f by (simp add: lset_double_def s(1) Let_def inode_load_ushort[OF dok] v)
  qed
qed

lemma lset_double_free:
  assumes st: "single_inv U s0 a k (npages k n1) (npages k n0) nd1 (4 + 64 * g) g st"
    and g: "g < 4" "ndouble (npages k n1) \<le> g" "g < ndouble (npages k n0)"
  shows "\<exists>st'. lset_double k a (int n1) (int n0) g st = Some st'
     \<and> single_inv U s0 a k (npages k n1) (npages k n0) nd1 (4 + 64 * Suc g) (Suc g) st'"
proof -
  let ?np = "npages k n1" and ?npo = "npages k n0" and ?P = "4 + 64 * g" and ?Q = "4 + 64 * Suc g"
  obtain nd s w where s: "st = (ptr_at k ?P, nd, s)" "nd_head nd1 nd"
    "step_inv U s0 a ?np ?npo w {} ?P g s" "nd_linked w (held ?np ?npo ?P g) nd"
    using st by (auto simp: single_inv_def)
  have dok: "disk_ok s" using nodes_inv_ok[OF step_inv_nodes[OF s(3)]] by simp
  have e: "int n1 \<le> int (ptr_at k ?P)" "\<not> int n0 \<le> int (ptr_at k ?P)"
    using g(2,3) ptr_double[of n1 k g] ptr_double[of n0 k g] by simp_all
  have np: "?np \<le> ?P" using g(2) by (simp add: ndouble_le)
  let ?s = "s\<lparr>iblockbuf := file_blk s (unat (ex_pnum_at nd g) div 4)\<rparr>"
  have v: "unat (ex_pnum_at nd g) = w (Inr g)" using s(4) g(1,3) by (simp add: nd_linked_def)
  have "lv_linked w (held ?np ?npo ?P g) g (inode_at s (w (Inr g)))" using s(3) g(3) by (simp add: step_inv_def linked_def)
  with lset_free_pages[OF _ np, of U s0 a n0 w ?s] s(3) obtain t where t:
    "loop [0..<64] (lset_free_page k (int n0) (inode_at s (w (Inr g)))) (ptr_at k ?P, ?s) = Some (ptr_at k ?Q, t)"
    "step_inv U s0 a ?np ?npo w {} ?Q g t" by auto
  from free_group[OF t(2) g(2,3) v] obtain t' where t':
    "free_inode_push (ex_pnum_at nd g) t = Some t'" "step_inv U s0 a ?np ?npo w {} ?Q (Suc g) t'" by blast
  have "nd_linked w (held ?np ?npo ?Q (Suc g)) nd"
    by (rule nd_linked_mono[OF s(4)]) (use np g in \<open>auto simp: own_def\<close>)
  then show ?thesis
    using e t(1) t' s(1,2) by (auto simp: lset_double_def Let_def inode_load_ushort[OF dok] v single_inv_def)
qed

lemma lset_double_step:
  assumes st: "double_inv U s0 a k (npages k n1) (npages k n0) nd1 g st"
    and a: "length a = ARR_BYTES" and g: "g < 4"
  shows "\<exists>st'. lset_double k a (int n1) (int n0) g st = Some st'
     \<and> double_inv U s0 a k (npages k n1) (npages k n0) nd1 (Suc g) st'"
proof -
  let ?np = "npages k n1" and ?npo = "npages k n0"
  obtain h where h: "h \<le> g" "h < g \<longrightarrow> ndouble ?np \<le> h \<and> ndouble ?npo \<le> h"
    "single_inv U s0 a k ?np ?npo nd1 (4 + 64 * h) g st" using st by (auto simp: double_inv_def)
  consider "ndouble ?np \<le> h \<and> ndouble ?npo \<le> h" | "h = g" "g < ndouble ?np"
    | "h = g" "ndouble ?np \<le> g" "g < ndouble ?npo" using h(1,2) by linarith
  then show ?thesis
  proof cases
    case 1
    with lset_double_none[OF h(3,1)] h(1) show ?thesis
      by (auto simp: double_inv_def intro!: exI[of _ h])
  next
    case 2
    with lset_double_keep[OF h(3)[unfolded 2(1)] a g] show ?thesis by (force simp: double_inv_def)
  next
    case 3
    with lset_double_free[OF h(3)[unfolded 3(1)] g] show ?thesis by (force simp: double_inv_def)
  qed
qed

end
