(* ===== verification/FS_Contract.thy ===== *)
theory FS_Contract
  imports FS_Resize
begin

text \<open>
  The contract of listings: what it is for an inode to be a node of the file system
  (\<open>node_ok\<close>), and that storing a listing keeps it one, stores exactly the array's prefix, takes
  the pages it needs, returns those it does not, and leaves every other inode and block alone.
\<close>

section \<open>Nodes\<close>

definition node_num :: "'z hostdisk_scheme \<Rightarrow> inode_t \<Rightarrow> nat + nat \<Rightarrow> nat" where
  "node_num s nd x = (case x of Inl p \<Rightarrow> unat (page_num s nd p) | Inr g \<Rightarrow> unat (ex_pnum_at nd g))"

text \<open>The entries, pages and page inodes of the node at inode \<open>i\<close>.\<close>

definition entries_of :: "'z hostdisk_scheme \<Rightarrow> nat \<Rightarrow> nat" where
  "entries_of s i = unat (md_size (inode_at s i))"

definition pages_of :: "nkind \<Rightarrow> 'z hostdisk_scheme \<Rightarrow> nat \<Rightarrow> nat" where
  "pages_of k s i = npages k (entries_of s i)"

definition nodes_of :: "nkind \<Rightarrow> 'z hostdisk_scheme \<Rightarrow> nat \<Rightarrow> nat set" where
  "nodes_of k s i = node_num s (inode_at s i) ` node_keys (pages_of k s i)"

definition node_ok :: "nkind \<Rightarrow> fs \<Rightarrow> nat \<Rightarrow> bool" where
  "node_ok k s i \<longleftrightarrow>
     2 \<le> i \<and> i < 1024 \<and> i \<notin> free_inodes s \<and> md_ino (inode_at s i) = of_nat i
     \<and> pages_of k s i \<le> MAX_PAGES \<and> inj_on (node_num s (inode_at s i)) (node_keys (pages_of k s i))
     \<and> nodes_of k s i \<subseteq> {2..<1024} - free_inodes s - {i}"

text \<open>Everything outside the inodes \<open>F\<close> and the bitmap is unchanged on disk, and the arrays are.\<close>

definition kept :: "fs \<Rightarrow> nat set \<Rightarrow> fs \<Rightarrow> bool" where
  "kept s F s' \<longleftrightarrow> (\<forall>m<4096. m \<notin> F \<longrightarrow> inode_at s' m = inode_at s m)
     \<and> (\<forall>b>1024. file_blk s' b = file_blk s b) \<and> free_list s' = free_list s \<and> ERRNO s' = ERRNO s"

definition unchanged :: "fs \<Rightarrow> nat set \<Rightarrow> fs \<Rightarrow> bool" where
  "unchanged s F s' \<longleftrightarrow> kept s F s' \<and> d_arr s' = d_arr s \<and> f_arr s' = f_arr s"

lemma kept_trans: "kept s F s' \<Longrightarrow> kept s' F s'' \<Longrightarrow> kept s F s''"
  by (simp add: kept_def)

lemma kept_inodes: "kept s F s' \<Longrightarrow> \<forall>m<4096. m \<notin> F \<longrightarrow> inode_at s' m = inode_at s m"
  by (simp add: kept_def)

lemma kept_mono: "kept s F s' \<Longrightarrow> F \<subseteq> G \<Longrightarrow> kept s G s'"
  by (auto simp: kept_def)

lemma node_num_simps [simp]:
  "node_num s nd (Inl p) = unat (page_num s nd p)" "node_num s nd (Inr g) = unat (ex_pnum_at nd g)"
  by (simp_all add: node_num_def)

lemma held_start: "held np npo 0 0 = node_keys npo"
  by (auto simp: held_def node_keys_def own_def split: sum.splits)

lemma held_end:
  assumes "np \<le> P" "npo \<le> P" "ndouble np \<le> 4" "ndouble npo \<le> 4"
  shows "held np npo P 4 = node_keys np"
  using assms by (auto simp: held_def node_keys_def own_def split: sum.splits)

section \<open>The start of the loops\<close>

definition set_head :: "byte list \<Rightarrow> nat \<Rightarrow> inode_t \<Rightarrow> inode_t" where
  "set_head a n nd = mput 16 (mget 0 96 a) (set_size (of_nat n) nd)"

lemma set_head_simps:
  assumes "length nd = INODE_SIZE" "length a = ARR_BYTES"
  shows "length (set_head a n nd) = INODE_SIZE" "mget 16 96 (set_head a n nd) = mget 0 96 a"
    "md_size (set_head a n nd) = of_nat n" "md_ino (set_head a n nd) = md_ino nd"
    "md_pno (set_head a n nd) = md_pno nd" "md_nlink (set_head a n nd) = md_nlink nd"
    "md_fsize (set_head a n nd) = md_fsize nd" "md_isdir (set_head a n nd) = md_isdir nd"
    "i < 4 \<Longrightarrow> pnum_at (set_head a n nd) i = pnum_at nd i" "i < 4 \<Longrightarrow> ex_pnum_at (set_head a n nd) i = ex_pnum_at nd i"
  using assms by (simp_all add: set_head_def layout_defs mem_simps) (simp add: put16_def nth_mput)

lemma head_fields:
  assumes "nd_head nd1 nd" "length nd1 = INODE_SIZE"
  shows "mget 16 96 nd = mget 16 96 nd1" "md_size nd = md_size nd1" "md_ino nd = md_ino nd1" "md_pno nd = md_pno nd1"
    "md_nlink nd = md_nlink nd1" "md_fsize nd = md_fsize nd1" "md_isdir nd = md_isdir nd1"
proof -
  have "mget 0 112 nd = mget 0 112 nd1" "length nd = INODE_SIZE" using assms(1) by (simp_all add: nd_head_def)
  then have "mget b n nd = mget b n nd1" if "b + n \<le> 112" for b n
    using mget_mget[OF that, of 0 nd] mget_mget[OF that, of 0 nd1] by simp
  moreover have "nd ! 12 = nd1 ! 12"
    using \<open>mget 0 112 nd = mget 0 112 nd1\<close> nth_mget[of 12 112 0 nd] nth_mget[of 12 112 0 nd1] assms
    by (simp add: nd_head_def)
  ultimately show "mget 16 96 nd = mget 16 96 nd1" "md_size nd = md_size nd1" "md_ino nd = md_ino nd1" "md_pno nd = md_pno nd1"
    "md_nlink nd = md_nlink nd1" "md_fsize nd = md_fsize nd1" "md_isdir nd = md_isdir nd1"
    by (simp_all add: layout_defs get16_def get32_def)
qed

lemma loops_start:
  assumes s: "fs_ok s" and i: "node_ok k s i" and a: "length a = ARR_BYTES"
    and cnt: "need np (pages_of k s i) 0 0 \<le> card (free_inodes s)"
    and U: "U = (free_inodes s \<union> nodes_of k s i, leaks np (pages_of k s i))"
  shows "single_inv U s a k np (pages_of k s i) (set_head a n (inode_at s i)) 0 0
    (ndirect k, set_head a n (inode_at s i), s\<lparr>iblockbuf := b\<rparr>)"
proof -
  let ?nd = "inode_at s i" and ?npo = "pages_of k s i"
  let ?w = "node_num s ?nd"
  have d: "disk_ok s" using s by (rule fs_ok_disk)
  have l: "length ?nd = INODE_SIZE" using d by simp
  have "free_inodes s \<subseteq> {2..<1024}" using free_inodes_range[OF s] by auto
  then have "nodes_inv U s ?w (node_keys ?npo) s"
    using s i by (auto simp: U nodes_inv_def node_ok_def nodes_of_def)
  moreover have "linked ?w (node_keys ?npo) {} s"
    using l d by (auto simp: linked_def lv_linked_def page_num_double)
  ultimately have "step_inv U s a np ?npo ?w {} 0 0 s"
    using cnt by (simp add: step_inv_def held_start filled_def U in_order_def)
  moreover have "nd_linked ?w (node_keys ?npo) (set_head a n ?nd)"
    using set_head_simps(9,10)[OF l a] by (simp add: nd_linked_def page_num_def)
  moreover have "nd_head (set_head a n ?nd) (set_head a n ?nd)" using set_head_simps(1)[OF l a] by (simp add: nd_head_def)
  ultimately show ?thesis by (auto simp: single_inv_def held_start ptr_at_def)
qed

section \<open>The end of the loops\<close>

lemma loops_end:
  assumes st: "double_inv U s0 a k np npo nd1 4 (ptr, nd, t)" and np: "np \<le> MAX_PAGES" "npo \<le> MAX_PAGES"
  shows "\<exists>w. nodes_inv U s0 w (node_keys np) t \<and> nd_head nd1 nd \<and> nd_linked w (node_keys np) nd
     \<and> filled a w np t \<and> linked w (node_keys np) {} t \<and> (leaks np npo \<longrightarrow> snd U)
     \<and> (np \<le> npo \<longrightarrow> free_inodes s0 \<subseteq> free_inodes t)
     \<and> (npo \<le> np \<longrightarrow> in_order s0 w (node_keys np - node_keys npo) t)"
proof -
  have nx: "ndouble np \<le> 4" "ndouble npo \<le> 4" using np by (simp_all add: ndouble_le)
  obtain h where h: "h \<le> 4" "h < 4 \<longrightarrow> ndouble np \<le> h \<and> ndouble npo \<le> h"
    "single_inv U s0 a k np npo nd1 (4 + 64 * h) 4 (ptr, nd, t)" using st by (auto simp: double_inv_def)
  have le: "np \<le> 4 + 64 * h" "npo \<le> 4 + 64 * h"
    using h(1,2) np ndouble_le[of np h] ndouble_le[of npo h] by (cases "h < 4"; simp)+
  have e: "held np npo (4 + 64 * h) 4 = node_keys np" by (rule held_end[OF le nx])
  show ?thesis using h(3) le(1) by (auto simp: single_inv_def e step_inv_def min_absorb2)
qed

lemma page_group:
  "4 \<le> p \<Longrightarrow> p < n \<Longrightarrow> \<exists>g j. p = 4 + 64 * g + j \<and> j < 64 \<and> g < ndouble n"
proof -
  assume p: "4 \<le> p" "p < n"
  let ?g = "(p - 4) div 64" and ?j = "(p - 4) mod 64"
  have "p = 4 + 64 * ?g + ?j" "?j < 64" using p(1) by simp_all
  moreover have "\<not> n \<le> 4 + 64 * ?g" using p div_mult_mod_eq[of "p - 4" 64] by linarith
  ultimately show ?thesis using ndouble_le[of n ?g] by (intro exI[of _ ?g] exI[of _ ?j]) simp
qed

lemma linked_num:
  assumes "nd_linked w (node_keys np) nd" "linked w (node_keys np) {} t" "np \<le> MAX_PAGES" "x \<in> node_keys np"
    and at: "\<And>y. y \<in> node_keys np \<Longrightarrow> inode_at t' (w y) = inode_at t (w y)"
  shows "node_num t' nd x = w x"
proof (cases x)
  case (Inr g)
  then have "g < ndouble np" using assms(4) by simp
  moreover have "ndouble np \<le> 4" using assms(3) by (simp add: ndouble_le)
  ultimately show ?thesis using assms(1) Inr by (simp add: nd_linked_def)
next
  case (Inl p)
  show ?thesis
  proof (cases "p < 4")
    case True
    then show ?thesis using assms(1,4) Inl by (simp add: nd_linked_def page_num_def)
  next
    case False
    then obtain g j where g: "p = 4 + 64 * g + j" "j < 64" "g < ndouble np"
      using page_group[of p np] assms(4) Inl by auto
    have "ndouble np \<le> 4" using assms(3) by (simp add: ndouble_le)
    then have ex: "unat (ex_pnum_at nd g) = w (Inr g)" using assms(1) g(3) by (simp add: nd_linked_def)
    have "unat (exnum_at (inode_at t (w (Inr g))) j) = w (Inl p)"
      using assms(2,4) g Inl by (simp add: linked_def lv_linked_def)
    then show ?thesis using g Inl ex at[of "Inr g"] by (simp add: page_num_double)
  qed
qed

lemma filled_bytes:
  assumes f: "\<And>p. p < np \<Longrightarrow> node_page t nd p = mget (96 + 128 * p) 128 a" and h: "mget 16 96 nd = mget 0 96 a"
  shows "node_bytes t nd np = mget 0 (96 + 128 * np) a"
proof -
  have "q \<le> np \<Longrightarrow> node_bytes t nd q = mget 0 (96 + 128 * q) a" for q
  proof (induction q)
    case 0
    then show ?case by (simp add: node_bytes_def h)
  next
    case (Suc q)
    have "mget 0 (96 + 128 * q + 128) a = mget 0 (96 + 128 * q) a @ mget (96 + 128 * q) 128 a"
      by (simp only: mget_split add_0)
    then show ?case using Suc f[of q] by (simp add: node_bytes_Suc add.commute)
  qed
  then show ?thesis by blast
qed

section \<open>The contract\<close>

lemma node_listing_set_ok:
  assumes s: "fs_ok s" and i: "node_ok k s i" and a: "length a = ARR_BYTES"
    and n: "n < 65536" "npages k n \<le> MAX_PAGES"
    and cnt: "need (npages k n) (pages_of k s i) 0 0 \<le> card (free_inodes s)"
  shows "\<exists>s'. node_listing_set k a (of_nat i) (int n) s = Some s' \<and> fs_ok s' \<and> node_ok k s' i
     \<and> nd_head (set_head a n (inode_at s i)) (inode_at s' i)
     \<and> node_bytes s' (inode_at s' i) (npages k n) = mget 0 (96 + 128 * npages k n) a
     \<and> free_inodes s' \<union> nodes_of k s' i \<subseteq> free_inodes s \<union> nodes_of k s i
     \<and> (\<not> leaks (npages k n) (pages_of k s i) \<longrightarrow> free_inodes s' \<union> nodes_of k s' i = free_inodes s \<union> nodes_of k s i)
     \<and> (npages k n \<le> pages_of k s i \<longrightarrow> free_inodes s \<subseteq> free_inodes s')
     \<and> (pages_of k s i \<le> npages k n \<longrightarrow> in_order s (node_num s' (inode_at s' i)) (node_keys (npages k n) - node_keys (pages_of k s i)) s')
     \<and> unchanged s ({i} \<union> free_inodes s \<union> nodes_of k s i) s'"
proof -
  let ?np = "npages k n" and ?npo = "pages_of k s i"
  define nd1 where "nd1 = set_head a n (inode_at s i)"
  define U where "U = (free_inodes s \<union> nodes_of k s i, leaks ?np ?npo)"
  have d: "disk_ok s" using s by (rule fs_ok_disk)
  have l: "length (inode_at s i) = INODE_SIZE" using d by simp
  note hd = set_head_simps[OF l a, of n, folded nd1_def]
  have ui: "unat (of_nat i :: ushort) = i" using i by (simp add: node_ok_def unat_of_nat_ushort)
  have uii: "uint (of_nat i :: ushort) = int i" using i by (intro uint_of_nat_ushort) (simp add: node_ok_def)
  have npo: "npages k (entries_of s i) \<le> MAX_PAGES" using i by (simp add: node_ok_def pages_of_def)
  have "single_inv U s a k ?np ?npo nd1 0 0 (ndirect k, nd1, s\<lparr>iblockbuf := file_blk s (i div 4)\<rparr>)"
    unfolding nd1_def by (rule loops_start[OF s i a cnt U_def])
  then have "\<exists>st. loop [0..<4] (lset_single k a (int n) (int (entries_of s i))) (ndirect k, nd1, s\<lparr>iblockbuf := file_blk s (i div 4)\<rparr>)
      = Some st \<and> single_inv U s a k ?np ?npo nd1 4 0 st"
    using lset_single_step[OF _ a, of U s k n "entries_of s i" nd1, folded pages_of_def] by (intro loop_rule) simp_all
  then obtain st1 where st1: "loop [0..<4] (lset_single k a (int n) (int (entries_of s i)))
      (ndirect k, nd1, s\<lparr>iblockbuf := file_blk s (i div 4)\<rparr>) = Some st1" "single_inv U s a k ?np ?npo nd1 4 0 st1" by blast
  from st1(2) have "double_inv U s a k ?np ?npo nd1 0 st1" by (auto simp: double_inv_def)
  then have "\<exists>st. loop [0..<4] (lset_double k a (int n) (int (entries_of s i))) st1 = Some st \<and> double_inv U s a k ?np ?npo nd1 4 st"
    using lset_double_step[OF _ a, of U s k n "entries_of s i" nd1, folded pages_of_def] by (intro loop_rule) simp_all
  then obtain ptr nd t where st2: "loop [0..<4] (lset_double k a (int n) (int (entries_of s i))) st1 = Some (ptr, nd, t)"
    "double_inv U s a k ?np ?npo nd1 4 (ptr, nd, t)" by (metis prod_cases3)
  obtain w where w: "nodes_inv U s w (node_keys ?np) t" "nd_head nd1 nd" "nd_linked w (node_keys ?np) nd"
    "filled a w ?np t" "linked w (node_keys ?np) {} t" "?np \<le> ?npo \<longrightarrow> free_inodes s \<subseteq> free_inodes t"
    "?npo \<le> ?np \<longrightarrow> in_order s w (node_keys ?np - node_keys ?npo) t"
    using loops_end[OF st2(2) n(2)] npo by (auto simp: pages_of_def)
  have ino: "md_ino nd = of_nat i" using head_fields(3)[OF w(2) hd(1)] hd(4) i by (simp add: node_ok_def)
  define s' where "s' = inode_dump (int i) nd t"
  have run: "node_listing_set k a (of_nat i) (int n) s = Some s'"
    using st1(1) st2(1) ino uii inode_load_eq[OF d, of i] i
    by (simp add: node_listing_set_def Let_def s'_def entries_of_def nd1_def set_head_def node_ok_def)
  have il: "0 < i" "i < 4096" "i < MAX_INODES" "length nd = INODE_SIZE" using i w(2) by (auto simp: node_ok_def nd_head_def)
  have t: "fs_ok t" "disk_ok t" using nodes_inv_ok[OF w(1)] by simp_all
  note f = fs_ok_dump[OF t(1) il(1,2,4), folded s'_def]
  have at: "inode_at s' m = (if m = i then nd else inode_at t m)" for m
    unfolding s'_def by (rule inode_at_dump[OF t(2) il(3,4)])
  have iU: "i \<notin> fst U" using i by (auto simp: U_def node_ok_def)
  have wi: "inode_at s' (w y) = inode_at t (w y)" if "y \<in> node_keys ?np" for y
    using nodes_invD(4)[OF w(1) that] iU at by auto
  have num: "node_num s' nd x = w x" if "x \<in> node_keys ?np" for x
    by (rule linked_num[OF w(3,5) n(2) that wi])
  have ent: "entries_of s' i = n" "pages_of k s' i = ?np"
    using at[of i] head_fields(2)[OF w(2) hd(1)] hd(3) n(1) by (simp_all add: pages_of_def entries_of_def unat_of_nat_ushort)
  have nodes: "nodes_of k s' i = w ` node_keys ?np" using num at[of i] by (simp add: nodes_of_def ent)
  have inj: "inj_on (node_num s' nd) (node_keys ?np)"
    using w(1) num by (simp add: nodes_inv_def cong: inj_on_cong)
  have "nodes_of k s' i \<subseteq> {2..<1024} - free_inodes s' - {i}"
    using w(1) iU f nodes by (auto simp: nodes_inv_def)
  moreover have "i \<notin> free_inodes s'" using w(1) iU f by (auto simp: nodes_inv_def)
  ultimately have ok: "node_ok k s' i"
    using i n(2) inj at[of i] ino by (simp add: node_ok_def ent)
  have "node_page s' nd p = mget (96 + 128 * p) 128 a" if "p < ?np" for p
    using num[of "Inl p"] wi[of "Inl p"] w(4) that by (simp add: node_page_def filled_def)
  then have bytes: "node_bytes s' nd ?np = mget 0 (96 + 128 * ?np) a"
    using head_fields(1)[OF w(2) hd(1)] hd(2) by (intro filled_bytes) simp_all
  have "i div 4 \<le> 1024" using il(2) by linarith
  then have "file_blk s' b = file_blk t b" if "1024 < b" for b
    using file_blk_dump[OF t(2) il(3,4), of b] that by (simp add: s'_def)
  then have "unchanged s ({i} \<union> free_inodes s \<union> nodes_of k s i) s'"
    using w(1) f at unfolding unchanged_def kept_def nodes_inv_def U_def by (auto simp: s'_def)
  moreover have "free_inodes s' \<union> nodes_of k s' i \<subseteq> free_inodes s \<union> nodes_of k s i"
    "\<not> leaks ?np ?npo \<longrightarrow> free_inodes s' \<union> nodes_of k s' i = free_inodes s \<union> nodes_of k s i"
    using w(1) f nodes by (auto simp: nodes_inv_def U_def)
  moreover have "?np \<le> ?npo \<longrightarrow> free_inodes s \<subseteq> free_inodes s'" using w(6) f by simp
  moreover have "?npo \<le> ?np \<longrightarrow> in_order s (node_num s' (inode_at s' i)) (node_keys ?np - node_keys ?npo) s'"
  proof (rule impI, rule in_order_same[OF _ subset_refl])
    show "in_order s w (node_keys ?np - node_keys ?npo) t" if "?npo \<le> ?np" using w(7) that by blast
    show "free_inodes s' = free_inodes t" using f by simp
    show "\<forall>y\<in>node_keys ?np - node_keys ?npo. node_num s' (inode_at s' i) y = w y" using num at[of i] by simp
  qed
  moreover have "nd_head (set_head a n (inode_at s i)) (inode_at s' i)" using w(2) at[of i] by (simp add: nd1_def)
  moreover have "node_bytes s' (inode_at s' i) ?np = mget 0 (96 + 128 * ?np) a" using bytes at[of i] by simp
  moreover have "fs_ok s'" using f by simp
  ultimately show ?thesis using run ok by (intro exI[of _ s'] conjI)
qed

section \<open>The two functions\<close>

text \<open>Nothing but the error cell depends on the pending error, and no read on the arrays.\<close>

lemma node_bytes_cong_disk: "file_blk s = file_blk t \<Longrightarrow> node_bytes s nd p = node_bytes t nd p"
  by (rule node_bytes_cong) (simp_all add: node_page_def page_num_def inode_at_def)

lemma node_num_cong_disk: "file_blk s = file_blk t \<Longrightarrow> node_num s nd = node_num t nd"
  by (rule ext) (simp add: node_num_def page_num_def inode_at_def split: sum.splits)

lemma errno_frame [simp]:
  "inode_at ((s :: fs)\<lparr>ERRNO := e\<rparr>) n = inode_at s n"
  "free_inodes (s\<lparr>ERRNO := e\<rparr>) = free_inodes s"
  "free_list (s\<lparr>ERRNO := e\<rparr>) = free_list s"
  "disk_ok (s\<lparr>ERRNO := e\<rparr>) = disk_ok s"
  "fs_ok (s\<lparr>ERRNO := e\<rparr>) = fs_ok s"
  "node_num (s\<lparr>ERRNO := e\<rparr>) nd = node_num s nd"
  "node_bytes (s\<lparr>ERRNO := e\<rparr>) nd p = node_bytes s nd p"
  by (simp_all add: inode_at_def free_inodes_def free_list_def ok_defs fs_ok_def fb_inv_def fb_list_ok_def
      ib_inv_def node_num_cong_disk[of "s\<lparr>ERRNO := e\<rparr>" s] node_bytes_cong_disk[of "s\<lparr>ERRNO := e\<rparr>" s])

lemma node_errno_frame [simp]:
  "entries_of ((s :: fs)\<lparr>ERRNO := e\<rparr>) i = entries_of s i"
  "pages_of k (s\<lparr>ERRNO := e\<rparr>) i = pages_of k s i"
  "nodes_of k (s\<lparr>ERRNO := e\<rparr>) i = nodes_of k s i"
  "node_ok k (s\<lparr>ERRNO := e\<rparr>) i = node_ok k s i"
  by (simp_all add: entries_of_def pages_of_def nodes_of_def node_ok_def)

fun list_arr :: "nkind \<Rightarrow> fs \<Rightarrow> byte list" where
  "list_arr Dnode s = d_arr s" | "list_arr Fnode s = f_arr s"

fun max_entries :: "nkind \<Rightarrow> nat" where "max_entries Dnode = 2085" | "max_entries Fnode = 8344"

lemma npages_max: "n \<le> max_entries k \<Longrightarrow> npages k n \<le> MAX_PAGES \<and> n < 65536"
  by (cases k) (simp_all add: npages_def)

text \<open>The size stored, and the error left, for a requested size.\<close>

definition clamp_size :: "nkind \<Rightarrow> int \<Rightarrow> nat" where
  "clamp_size k z = nat (min z (int (max_entries k)))"

definition resized :: "nkind \<Rightarrow> fs \<Rightarrow> nat \<Rightarrow> nat \<Rightarrow> fs \<Rightarrow> bool" where
  "resized k s i n s' \<longleftrightarrow>
     fs_ok s' \<and> node_ok k s' i \<and> entries_of s' i = n
     \<and> nd_head (set_head (list_arr k s) n (inode_at s i)) (inode_at s' i)
     \<and> node_bytes s' (inode_at s' i) (npages k n) = mget 0 (96 + 128 * npages k n) (list_arr k s)
     \<and> free_inodes s' \<union> nodes_of k s' i \<subseteq> free_inodes s \<union> nodes_of k s i
     \<and> (\<not> leaks (npages k n) (pages_of k s i) \<longrightarrow> free_inodes s' \<union> nodes_of k s' i = free_inodes s \<union> nodes_of k s i)
     \<and> (npages k n \<le> pages_of k s i \<longrightarrow> free_inodes s \<subseteq> free_inodes s')
     \<and> (pages_of k s i \<le> npages k n \<longrightarrow> in_order s (node_num s' (inode_at s' i)) (node_keys (npages k n) - node_keys (pages_of k s i)) s')"

lemma resized_aux:
  assumes "fs_ok s" "node_ok k s i" "n \<le> max_entries k"
    and "need (npages k n) (pages_of k s i) 0 0 \<le> card (free_inodes s)"
  shows "\<exists>s'. node_listing_set k (list_arr k s) (of_nat i) (int n) s = Some s' \<and> resized k s i n s'
     \<and> unchanged s ({i} \<union> free_inodes s \<union> nodes_of k s i) s'"
proof -
  have a: "length (list_arr k s) = ARR_BYTES" using assms(1) by (cases k) (simp_all add: fs_ok_def)
  have n: "n < 65536" "npages k n \<le> MAX_PAGES" using npages_max[OF assms(3)] by simp_all
  have l: "length (inode_at s i) = INODE_SIZE" using fs_ok_disk[OF assms(1)] by simp
  from node_listing_set_ok[OF assms(1,2) a n assms(4)] obtain s' where s':
    "node_listing_set k (list_arr k s) (of_nat i) (int n) s = Some s'" "fs_ok s'" "node_ok k s' i"
    "nd_head (set_head (list_arr k s) n (inode_at s i)) (inode_at s' i)"
    "node_bytes s' (inode_at s' i) (npages k n) = mget 0 (96 + 128 * npages k n) (list_arr k s)"
    "free_inodes s' \<union> nodes_of k s' i \<subseteq> free_inodes s \<union> nodes_of k s i"
    "\<not> leaks (npages k n) (pages_of k s i) \<longrightarrow> free_inodes s' \<union> nodes_of k s' i = free_inodes s \<union> nodes_of k s i"
    "npages k n \<le> pages_of k s i \<longrightarrow> free_inodes s \<subseteq> free_inodes s'"
    "pages_of k s i \<le> npages k n \<longrightarrow> in_order s (node_num s' (inode_at s' i)) (node_keys (npages k n) - node_keys (pages_of k s i)) s'"
    "unchanged s ({i} \<union> free_inodes s \<union> nodes_of k s i) s'" by blast
  have "entries_of s' i = n"
    using head_fields(2)[OF s'(4)] set_head_simps(1,3)[OF l a] n(1) by (simp add: entries_of_def unat_of_nat_ushort)
  with s' show ?thesis by (auto simp: resized_def)
qed

lemma listing_set_ok:
  assumes "fs_ok s" "node_ok k s i" "0 \<le> z"
    and "need (npages k (clamp_size k z)) (pages_of k s i) 0 0 \<le> card (free_inodes s)"
  shows "\<exists>s'. (case k of Dnode \<Rightarrow> dnode_listing_set | Fnode \<Rightarrow> fnode_listing_set) (of_nat i) z s = Some s'
     \<and> resized k s i (clamp_size k z) s'
     \<and> unchanged (s\<lparr>ERRNO := (if int (max_entries k) < z then - EFBIG else ERRNO s)\<rparr>)
         ({i} \<union> free_inodes s \<union> nodes_of k s i) s'"
proof -
  let ?n = "clamp_size k z" and ?s = "s\<lparr>ERRNO := (if int (max_entries k) < z then - EFBIG else ERRNO s)\<rparr>"
  have n: "?n \<le> max_entries k" "int ?n = (if int (max_entries k) < z then int (max_entries k) else z)"
    using assms(3) by (auto simp: clamp_size_def)
  have e: "(case k of Dnode \<Rightarrow> dnode_listing_set | Fnode \<Rightarrow> fnode_listing_set) (of_nat i) z s
      = node_listing_set k (list_arr k ?s) (of_nat i) (int ?n) ?s"
    using n(2) by (cases k) (auto simp: dnode_listing_set_def fnode_listing_set_def errno_push_def)
  have r: "resized k ?s i ?n s' = resized k s i ?n s'" for s'
    by (cases k) (simp_all add: resized_def in_order_def)
  show ?thesis using resized_aux[of ?s k i ?n] assms n(1) unfolding e r by simp
qed

lemma of_nat_ushort: "node_ok k s i \<Longrightarrow> unat (of_nat i :: ushort) = i"
  by (simp add: node_ok_def unat_of_nat_ushort)

text \<open>Reading a stored listing back, whatever the array holds by then.\<close>

lemma dnode_listing_resized:
  assumes "resized Dnode s i n s'" "length d = ARR_BYTES"
  shows "\<exists>b. dnode_listing (of_nat i) (s'\<lparr>d_arr := d\<rparr>) =
    (n, s'\<lparr>iblockbuf := b, d_arr := mput 0 (mget 0 (96 + 128 * npages Dnode n) (d_arr s)) d\<rparr>)"
proof -
  let ?t = "s'\<lparr>d_arr := d\<rparr>"
  have t: "disk_ok ?t" "arrays_ok ?t" "inode_at ?t i = inode_at s' i"
    using assms fs_ok_disk[of s'] by (auto simp: resized_def fs_ok_def arrays_ok_def ok_defs inode_at_def)
  have w: "unat (of_nat i :: ushort) = i" "npages Dnode n \<le> MAX_PAGES" "entries_of s' i = n"
    using assms(1) of_nat_ushort[of Dnode s' i] by (auto simp: resized_def node_ok_def pages_of_def)
  show ?thesis using dnode_listing_eq[OF t(1,2), of "of_nat i"] w t(3) assms(1) node_bytes_cong_disk[of ?t s']
    by (auto simp: entries_of_def resized_def)
qed

lemma fnode_listing_resized:
  assumes "resized Fnode s i n s'" "length f = ARR_BYTES"
  shows "\<exists>b. fnode_listing (of_nat i) (s'\<lparr>f_arr := f\<rparr>) =
    (n, s'\<lparr>iblockbuf := b, f_arr := mput 0 (mget 0 (96 + 128 * npages Fnode n) (f_arr s)) f\<rparr>)"
proof -
  let ?t = "s'\<lparr>f_arr := f\<rparr>"
  have t: "disk_ok ?t" "arrays_ok ?t" "inode_at ?t i = inode_at s' i"
    using assms fs_ok_disk[of s'] by (auto simp: resized_def fs_ok_def arrays_ok_def ok_defs inode_at_def)
  have w: "unat (of_nat i :: ushort) = i" "npages Fnode n \<le> MAX_PAGES" "entries_of s' i = n"
    using assms(1) of_nat_ushort[of Fnode s' i] by (auto simp: resized_def node_ok_def pages_of_def)
  show ?thesis using fnode_listing_eq[OF t(1,2), of "of_nat i"] w t(3) assms(1) node_bytes_cong_disk[of ?t s']
    by (auto simp: entries_of_def resized_def)
qed

section \<open>Properties\<close>

text \<open>
  C7. dnode_listing_set keeps the file system: with as many inodes free as new pages are needed, it
  stores the first entries of the array d in the inode and its pages (clamping the size to 2085
  with EFBIG pending), leaves a well-formed node, and changes no inode outside the node's own and
  the free ones, no data block and no free list. Unless the new end falls inside a double page
  that stays, every page inode is either used or free again.
\<close>

theorem dnode_listing_set_spec:
  assumes "fs_ok s" "node_ok Dnode s i" "0 \<le> z"
    and "need (npages Dnode (clamp_size Dnode z)) (pages_of Dnode s i) 0 0 \<le> card (free_inodes s)"
  shows "\<exists>s'. dnode_listing_set (of_nat i) z s = Some s' \<and> resized Dnode s i (clamp_size Dnode z) s'
     \<and> unchanged (s\<lparr>ERRNO := (if 2085 < z then - EFBIG else ERRNO s)\<rparr>) ({i} \<union> free_inodes s \<union> nodes_of Dnode s i) s'"
  using listing_set_ok[OF assms] by simp

lemma node_ok_root: "node_ok Dnode mounted 2" "pages_of Dnode mounted 2 = 0" "nodes_of Dnode mounted 2 = {}"
proof -
  show p: "pages_of Dnode mounted 2 = 0" by (simp add: pages_of_def entries_of_def mounted(4) dir_node_size npages_def)
  have k: "node_keys 0 = {}" by (auto simp: node_keys_def ndouble_def split: sum.splits)
  show n: "nodes_of Dnode mounted 2 = {}" by (simp add: nodes_of_def p k)
  have "md_ino (dir_node 2 2) = 2" by (simp add: dir_node_def layout_defs di_ent_bytes_def mem_simps)
  then show "node_ok Dnode mounted 2" using n by (simp add: node_ok_def p k mounted(3,4))
qed

theorem dnode_listing_set_spec_witness:
  "\<exists>s'. dnode_listing_set 2 7 mounted = Some s' \<and> resized Dnode mounted 2 7 s'"
  using dnode_listing_set_spec[OF mounted(1) node_ok_root(1), of 7]
  by (auto simp: clamp_size_def node_ok_root(2) mounted(3) npages_def need_def ndouble_def)

text \<open>
  fnode_listing_set keeps the file system in the same way, for the block numbers of a file in the
  array f, up to 8344 of them.
\<close>

theorem fnode_listing_set_spec:
  assumes "fs_ok s" "node_ok Fnode s i" "0 \<le> z"
    and "need (npages Fnode (clamp_size Fnode z)) (pages_of Fnode s i) 0 0 \<le> card (free_inodes s)"
  shows "\<exists>s'. fnode_listing_set (of_nat i) z s = Some s' \<and> resized Fnode s i (clamp_size Fnode z) s'
     \<and> unchanged (s\<lparr>ERRNO := (if 8344 < z then - EFBIG else ERRNO s)\<rparr>) ({i} \<union> free_inodes s \<union> nodes_of Fnode s i) s'"
  using listing_set_ok[OF assms] by simp

lemma node_ok_root_file: "node_ok Fnode mounted 2" "pages_of Fnode mounted 2 = 0"
proof -
  show p: "pages_of Fnode mounted 2 = 0" by (simp add: pages_of_def entries_of_def mounted(4) dir_node_size npages_def)
  have k: "node_keys 0 = {}" by (auto simp: node_keys_def ndouble_def split: sum.splits)
  have "md_ino (dir_node 2 2) = 2" by (simp add: dir_node_def layout_defs di_ent_bytes_def mem_simps)
  then show "node_ok Fnode mounted 2" by (simp add: node_ok_def p k nodes_of_def mounted(3,4))
qed

theorem fnode_listing_set_spec_witness:
  "\<exists>s'. fnode_listing_set 2 9000 mounted = Some s' \<and> resized Fnode mounted 2 8344 s' \<and> ERRNO s' = -27"
  using fnode_listing_set_spec[OF mounted(1) node_ok_root_file(1), of 9000]
  by (auto simp: clamp_size_def node_ok_root_file(2) mounted(3) npages_def need_def ndouble_def unchanged_def kept_def EFBIG_def)

text \<open>
  C20. A listing is read back as it was stored: after dnode_listing_set, dnode_listing yields the size
  and copies the stored entries over the front of the array, whatever the array holds by then.
\<close>

theorem listing_roundtrip:
  assumes "fs_ok s" "node_ok Dnode s i" "0 \<le> z" "z \<le> 2085"
    and "need (npages Dnode (nat z)) (pages_of Dnode s i) 0 0 \<le> card (free_inodes s)"
  shows "\<exists>s'. dnode_listing_set (of_nat i) z s = Some s' \<and>
     (\<forall>d. length d = ARR_BYTES \<longrightarrow> (\<exists>b. dnode_listing (of_nat i) (s'\<lparr>d_arr := d\<rparr>) =
        (nat z, s'\<lparr>iblockbuf := b, d_arr := mput 0 (mget 0 (96 + 128 * npages Dnode (nat z)) (d_arr s)) d\<rparr>)))"
proof -
  have c: "clamp_size Dnode z = nat z" using assms(4) by (simp add: clamp_size_def)
  from listing_set_ok[of s Dnode i z] assms obtain s' where
    "dnode_listing_set (of_nat i) z s = Some s'" "resized Dnode s i (nat z) s'" by (auto simp: c)
  then show ?thesis using dnode_listing_resized by blast
qed

theorem listing_roundtrip_witness:
  "\<exists>s' b. dnode_listing_set 2 7 mounted = Some s' \<and> dnode_listing 2 (s'\<lparr>d_arr := replicate ARR_BYTES 1\<rparr>) =
     (7, s'\<lparr>iblockbuf := b, d_arr := mput 0 (mget 0 224 (d_arr mounted)) (replicate ARR_BYTES 1)\<rparr>)"
proof -
  have "\<exists>s'. dnode_listing_set (of_nat 2) 7 mounted = Some s' \<and>
     (\<forall>d. length d = ARR_BYTES \<longrightarrow> (\<exists>b. dnode_listing (of_nat 2) (s'\<lparr>d_arr := d\<rparr>) =
        (nat 7, s'\<lparr>iblockbuf := b, d_arr := mput 0 (mget 0 (96 + 128 * npages Dnode (nat 7)) (d_arr mounted)) d\<rparr>)))"
    by (rule listing_roundtrip[OF mounted(1) node_ok_root(1)])
       (simp_all add: node_ok_root(2) mounted(3) npages_def need_def ndouble_def)
  then obtain s' where s': "dnode_listing_set 2 7 mounted = Some s'"
    "\<And>d. length d = ARR_BYTES \<Longrightarrow> \<exists>b. dnode_listing 2 (s'\<lparr>d_arr := d\<rparr>) =
       (7, s'\<lparr>iblockbuf := b, d_arr := mput 0 (mget 0 224 (d_arr mounted)) d\<rparr>)"
    by (auto simp: npages_def)
  show ?thesis using s'(1) s'(2)[of "replicate ARR_BYTES 1"] by simp
qed

end
