(* ===== verification/FS_Dir.thy ===== *)
theory FS_Dir
  imports FS_Contract
begin

text \<open>
  Directory entries (\<open>prelude/inode.c\<close>): adding and removing an entry through the listing, and
  the four functions that address one entry by its index. Strings are C memory (\<open>FS_CString\<close>);
  an access past the static array, a page table or an inode is undefined behaviour.
\<close>

section \<open>Adding and removing an entry\<close>

definition d_ent :: "byte list \<Rightarrow> nat \<Rightarrow> di_ent" where
  "d_ent d i = di_ent_of (mget (16 * i) 16 d)"

definition set_d_ent :: "nat \<Rightarrow> di_ent \<Rightarrow> byte list \<Rightarrow> byte list option" where
  "set_d_ent i e d = (if 16 * i + 16 \<le> length d then Some (mput (16 * i) (di_ent_bytes e) d) else None)"

definition dnode_append :: "int \<Rightarrow> di_ent \<Rightarrow> fs \<Rightarrow> fs option" where
  "dnode_append inum new_item s =
     (let (n, s) = dnode_listing (word_of_int inum) s
      in do {
        d \<leftarrow> set_d_ent n new_item (d_arr s);
        s \<leftarrow> dnode_listing_set (word_of_int inum) (int n + 1) (s\<lparr>d_arr := d\<rparr>);
        let (nd, s) = inode_load inum uninit s;
        Some (inode_dump inum (set_nlink (md_nlink nd + 1) nd) s) })"

text \<open>
  One iteration of the removal loop at entry \<open>i\<close>. On a match the last entry replaces it and the
  listing is stored one shorter; the loop goes on, its end unchanged.
\<close>

definition remove_step :: "int \<Rightarrow> byte list \<Rightarrow> nat \<Rightarrow> nat \<Rightarrow> fs \<Rightarrow> fs option" where
  "remove_step inum fname n i s = do {
     eq \<leftarrow> (if 16 * n \<le> length (d_arr s) then strncmp0 (mget (16 * i) 16 (d_arr s)) fname 13 else None);
     (if eq then do {
        s \<leftarrow> dnode_listing_set (word_of_int inum) (int n - 1)
               (s\<lparr>d_arr := mput (16 * i) (mget (16 * (n - 1)) 16 (d_arr s)) (d_arr s)\<rparr>);
        let (nd, s) = inode_load inum uninit s;
        Some (inode_dump inum (set_nlink (md_nlink nd - 1) nd) s) }
      else Some s) }"

definition dnode_remove :: "int \<Rightarrow> byte list \<Rightarrow> fs \<Rightarrow> fs option" where
  "dnode_remove inum fname s =
     (let (n, s) = dnode_listing (word_of_int inum) s
      in loop [0..<n] (remove_step inum fname n) s)"

section \<open>One entry by index\<close>

text \<open>
  The page arithmetic is the source's: \<open>lv2_offset / 64 * 8\<close> is \<open>(lv2_offset div 64) * 8\<close>,
  an index into the four double page numbers, and \<open>lv2_offset / 8\<close> is an index into the 64 page
  numbers of one double page. Offsets are \<open>int\<close>; divisions truncate.
\<close>

definition page_at :: "inode_t \<Rightarrow> int \<Rightarrow> ushort option" where
  "page_at nd i = (if 0 \<le> i \<and> i < 4 then Some (pnum_at nd (nat i)) else None)"

definition ex_page_at :: "inode_t \<Rightarrow> int \<Rightarrow> ushort option" where
  "ex_page_at nd i = (if 0 \<le> i \<and> i < 4 then Some (ex_pnum_at nd (nat i)) else None)"

definition ex_entry_at :: "inode_t \<Rightarrow> int \<Rightarrow> ushort option" where
  "ex_entry_at nd i = (if 0 \<le> i \<and> i < 64 then Some (exnum_at nd (nat i)) else None)"

definition dnode_entry_get :: "ushort \<Rightarrow> int \<Rightarrow> fs \<Rightarrow> (di_ent \<times> fs) option" where
  "dnode_entry_get inum lv0_offset s =
     (let lv2_offset = lv0_offset - 6 - 4 * 8;
          lv1_offset = lv0_offset - 6;
          (nd, s) = inode_load (uint inum) uninit s
      in if uint (md_size nd) \<le> lv0_offset
         then do { e \<leftarrow> di_ent_c [0] 0; Some (e, s) }
         else if 0 \<le> lv2_offset
         then do {
           p1 \<leftarrow> ex_page_at nd (lv2_offset sdiv 64 * 8);
           let (nd1, s) = inode_load (uint p1) nd s;
           p2 \<leftarrow> ex_entry_at nd1 (lv2_offset sdiv 8);
           let (nd2, s) = inode_load (uint p2) nd1 s;
           Some (pdir_dinum nd2 (nat (lv2_offset smod 8)), s) }
         else if 0 \<le> lv1_offset
         then do {
           p1 \<leftarrow> page_at nd (lv1_offset sdiv 8);
           let (nd1, s) = inode_load (uint p1) nd s;
           Some (pdir_dinum nd1 (nat (lv1_offset smod 8)), s) }
         else if 0 \<le> lv0_offset then Some (idir_dinum nd (nat lv0_offset), s) else None)"

definition fnode_entry_get :: "ushort \<Rightarrow> int \<Rightarrow> fs \<Rightarrow> (blknum_t \<times> fs) option" where
  "fnode_entry_get inum lv0_offset s =
     (let lv2_offset = lv0_offset - 24 - 4 * 32;
          lv1_offset = lv0_offset - 24;
          (nd, s) = inode_load (uint inum) uninit s
      in if uint (md_size nd) \<le> lv0_offset then Some (0, s)
         else if 0 \<le> lv2_offset
         then do {
           p1 \<leftarrow> ex_page_at nd (lv2_offset sdiv 64 * 32);
           let (nd1, s) = inode_load (uint p1) nd s;
           p2 \<leftarrow> ex_entry_at nd1 (lv2_offset sdiv 32);
           let (nd2, s) = inode_load (uint p2) nd1 s;
           Some (pfile_blknum nd2 (nat (lv2_offset smod 32)), s) }
         else if 0 \<le> lv1_offset
         then do {
           p1 \<leftarrow> page_at nd (lv1_offset sdiv 32);
           let (nd1, s) = inode_load (uint p1) nd s;
           Some (pfile_blknum nd1 (nat (lv1_offset smod 32)), s) }
         else if 0 \<le> lv0_offset then Some (ifile_blknum nd (nat lv0_offset), s)
         else Some (0, s))"

definition dnode_entry_set :: "ushort \<Rightarrow> int \<Rightarrow> byte list \<Rightarrow> int \<Rightarrow> fs \<Rightarrow> (int \<times> fs) option" where
  "dnode_entry_set inum lv0_offset fname ino s =
     (let lv2_offset = lv0_offset - 6 - 4 * 8;
          lv1_offset = lv0_offset - 6;
          (nd, s) = inode_load (uint inum) uninit s
      in if uint (md_size nd) \<le> lv0_offset then Some (0, s)
         else if 0 \<le> lv2_offset
         then do {
           p1 \<leftarrow> ex_page_at nd (lv2_offset sdiv 64 * 8);
           let (nd1, s) = inode_load (uint p1) nd s;
           p2 \<leftarrow> ex_entry_at nd1 (lv2_offset sdiv 8);
           let (nd2, s) = inode_load (uint p2) nd1 s;
           e \<leftarrow> di_ent_c fname (word_of_int ino);
           Some (1, inode_dump (uint p2) (set_pdir_dinum (nat (lv2_offset smod 8)) e nd2) s) }
         else if 0 \<le> lv1_offset
         then do {
           p1 \<leftarrow> page_at nd (lv1_offset sdiv 8);
           let (nd1, s) = inode_load (uint p1) nd s;
           e \<leftarrow> di_ent_c fname (word_of_int ino);
           Some (1, inode_dump (uint p1) (set_pdir_dinum (nat (lv1_offset smod 8)) e nd1) s) }
         else if 0 \<le> lv0_offset
         then do {
           e \<leftarrow> di_ent_c fname (word_of_int ino);
           Some (1, inode_dump (uint inum) (set_idir_dinum (nat lv0_offset) e nd) s) }
         else None)"

definition fnode_entry_set :: "ushort \<Rightarrow> int \<Rightarrow> blknum_t \<Rightarrow> fs \<Rightarrow> (int \<times> fs) option" where
  "fnode_entry_set inum lv0_offset blknum s =
     (let lv2_offset = lv0_offset - 24 - 4 * 32;
          lv1_offset = lv0_offset - 24;
          (nd, s) = inode_load (uint inum) uninit s
      in if uint (md_size nd) \<le> lv0_offset then Some (0, s)
         else if 0 \<le> lv2_offset
         then do {
           p1 \<leftarrow> ex_page_at nd (lv2_offset sdiv 64 * 32);
           let (nd1, s) = inode_load (uint p1) nd s;
           p2 \<leftarrow> ex_entry_at nd1 (lv2_offset sdiv 32);
           let (nd2, s) = inode_load (uint p2) nd1 s;
           Some (1, inode_dump (uint p2) (set_pfile_blknum (nat (lv2_offset smod 32)) blknum nd2) s) }
         else if 0 \<le> lv1_offset
         then do {
           p1 \<leftarrow> page_at nd (lv1_offset sdiv 32);
           let (nd1, s) = inode_load (uint p1) nd s;
           Some (1, inode_dump (uint p1) (set_pfile_blknum (nat (lv1_offset smod 32)) blknum nd1) s) }
         else if 0 \<le> lv0_offset
         then Some (1, inode_dump (uint inum) (set_ifile_blknum (nat lv0_offset) blknum nd) s)
         else None)"

end
