(* ===== verification/FS_Entries.thy ===== *)
theory FS_Entries
  imports FS_Dir
begin

text \<open>
  Directories as lists of entries (\<open>dir_entries\<close>): adding an entry appends to the list, removing
  one replaces it by the last, and both leave every other node of the file system alone.
\<close>

section \<open>Frames\<close>

lemma disk_frame [simp]:
  "inode_at ((s :: fs)\<lparr>d_arr := a\<rparr>) n = inode_at s n"
  "free_inodes (s\<lparr>d_arr := a\<rparr>) = free_inodes s"
  "free_list (s\<lparr>d_arr := a\<rparr>) = free_list s"
  "disk_ok (s\<lparr>d_arr := a\<rparr>) = disk_ok s"
  "length a = ARR_BYTES \<Longrightarrow> length (d_arr s) = ARR_BYTES \<Longrightarrow> fs_ok (s\<lparr>d_arr := a\<rparr>) = fs_ok s"
  "node_num (s\<lparr>d_arr := a\<rparr>) nd = node_num s nd"
  "node_bytes (s\<lparr>d_arr := a\<rparr>) nd p = node_bytes s nd p"
  by (simp_all add: inode_at_def free_inodes_def free_list_def ok_defs fs_ok_def fb_inv_def fb_list_ok_def
      ib_inv_def node_num_cong_disk[of "s\<lparr>d_arr := a\<rparr>" s] node_bytes_cong_disk[of "s\<lparr>d_arr := a\<rparr>" s])

lemma node_num_iblockbuf [simp]: "node_num ((s :: fs)\<lparr>iblockbuf := b\<rparr>) nd = node_num s nd"
  by (rule node_num_cong_disk) simp

lemma node_frame [simp]:
  "entries_of ((s :: fs)\<lparr>d_arr := a\<rparr>) i = entries_of s i"
  "pages_of k (s\<lparr>d_arr := a\<rparr>) i = pages_of k s i"
  "nodes_of k (s\<lparr>d_arr := a\<rparr>) i = nodes_of k s i"
  "node_ok k (s\<lparr>d_arr := a\<rparr>) i = node_ok k s i"
  "entries_of (s\<lparr>iblockbuf := b\<rparr>) i = entries_of s i"
  "pages_of k (s\<lparr>iblockbuf := b\<rparr>) i = pages_of k s i"
  "nodes_of k (s\<lparr>iblockbuf := b\<rparr>) i = nodes_of k s i"
  "node_ok k (s\<lparr>iblockbuf := b\<rparr>) i = node_ok k s i"
  by (simp_all add: entries_of_def pages_of_def nodes_of_def node_ok_def)

text \<open>A step that changes no inode of a node leaves the node.\<close>

lemma same_node:
  assumes u: "\<forall>m<4096. m \<notin> F \<longrightarrow> inode_at s' m = inode_at s m" and j: "node_ok k s j" "({j} \<union> nodes_of k s j) \<inter> F = {}" and f: "free_inodes s' \<subseteq> F"
  shows "node_ok k s' j \<and> inode_at s' j = inode_at s j \<and> nodes_of k s' j = nodes_of k s j
     \<and> node_bytes s' (inode_at s j) (pages_of k s j) = node_bytes s (inode_at s j) (pages_of k s j)"
proof -
  let ?nd = "inode_at s j" and ?p = "pages_of k s j"
  have same: "inode_at s' m = inode_at s m" if "m \<in> {j} \<union> nodes_of k s j" for m
  proof -
    have "m < 4096" "m \<notin> F" using that j by (auto simp: node_ok_def)
    then show ?thesis using u by blast
  qed
  have nd: "inode_at s' j = ?nd" "entries_of s' j = entries_of s j" "pages_of k s' j = ?p"
    using same[of j] by (simp_all add: entries_of_def pages_of_def)
  have num: "node_num s' ?nd x = node_num s ?nd x" if x: "x \<in> node_keys ?p" for x
  proof (cases x)
    case (Inl p)
    show ?thesis
    proof (cases "p < 4")
      case False
      then have "4 \<le> p" "p < ?p" using x Inl by simp_all
      then obtain g l where g: "p = 4 + 64 * g + l" "l < 64" "g < ndouble ?p" using page_group by blast
      have "node_num s ?nd (Inr g) \<in> nodes_of k s j" using g(3) unfolding nodes_of_def by (intro imageI) simp
      then have "inode_at s' (unat (ex_pnum_at ?nd g)) = inode_at s (unat (ex_pnum_at ?nd g))" using same by simp
      then show ?thesis using Inl g by (simp add: page_num_double)
    qed (simp add: Inl page_num_def)
  qed simp
  have nodes: "nodes_of k s' j = nodes_of k s j"
    unfolding nodes_of_def nd by (rule image_cong[OF refl num])
  have "node_page s' ?nd q = node_page s ?nd q" if "q < ?p" for q
  proof -
    have "node_num s ?nd (Inl q) \<in> nodes_of k s j" using that unfolding nodes_of_def by (intro imageI) simp
    then show ?thesis using num[of "Inl q"] same that by (simp add: node_page_def)
  qed
  then have bytes: "node_bytes s' ?nd ?p = node_bytes s ?nd ?p" by (intro node_bytes_cong) simp_all
  have "nodes_of k s' j \<subseteq> {2..<1024} - free_inodes s' - {j}" "j \<notin> free_inodes s'"
    using j f nodes by (auto simp: node_ok_def)
  moreover have "inj_on (node_num s' ?nd) (node_keys ?p)" using j(1) num by (simp add: node_ok_def cong: inj_on_cong)
  ultimately have "node_ok k s' j" using j(1) by (simp add: node_ok_def nd)
  then show ?thesis using nd(1) nodes bytes by blast
qed

lemmas unchanged_node = same_node[OF kept_inodes]

section \<open>Changing the header of a node\<close>

text \<open>Storing an inode that differs only in the attributes keeps the node and its entries.\<close>

lemma node_store_head:
  assumes s: "fs_ok s" and i: "node_ok k s i" and nd: "length nd = INODE_SIZE" "mget 16 112 nd = mget 16 112 (inode_at s i)"
    "md_ino nd = md_ino (inode_at s i)" "md_size nd = md_size (inode_at s i)"
  defines "s' \<equiv> inode_dump (int i) nd s"
  shows "fs_ok s'" "node_ok k s' i" "inode_at s' i = nd" "entries_of s' i = entries_of s i"
    "pages_of k s' i = pages_of k s i" "nodes_of k s' i = nodes_of k s i"
    "node_bytes s' nd (pages_of k s i) = node_bytes s (inode_at s i) (pages_of k s i)"
    "free_inodes s' = free_inodes s" "unchanged s {i} s'"
proof -
  let ?n0 = "inode_at s i" and ?p = "pages_of k s i"
  have il: "0 < i" "i < 4096" "i < MAX_INODES" using i by (simp_all add: node_ok_def)
  have d: "disk_ok s" using s by (rule fs_ok_disk)
  note f = fs_ok_dump[OF s il(1,2) nd(1), folded s'_def]
  have at: "inode_at s' m = (if m = i then nd else inode_at s m)" for m
    unfolding s'_def by (rule inode_at_dump[OF d il(3) nd(1)])
  show "fs_ok s'" "free_inodes s' = free_inodes s" using f by simp_all
  show ai: "inode_at s' i = nd" by (simp add: at)
  show e: "entries_of s' i = entries_of s i" using ai nd(4) by (simp add: entries_of_def)
  show p: "pages_of k s' i = ?p" by (simp add: pages_of_def e)
  have g: "mget b n nd = mget b n ?n0" if "16 \<le> b" "b + n \<le> 128" for b n
    using mget_mget[of "b - 16" n 112 16 nd] mget_mget[of "b - 16" n 112 16 ?n0] nd(2) that by simp
  have tab: "pnum_at nd q = pnum_at ?n0 q" "ex_pnum_at nd q = ex_pnum_at ?n0 q" if "q < 4" for q
    using that g by (simp_all add: layout_defs get16_def)
  have ni: "node_num s ?n0 x \<noteq> i" if "x \<in> node_keys ?p" for x
  proof -
    have "node_num s ?n0 x \<in> nodes_of k s i" using that unfolding nodes_of_def by (rule imageI)
    then show ?thesis using i by (auto simp: node_ok_def)
  qed
  have p4: "ndouble ?p \<le> 4" using i by (simp add: node_ok_def ndouble_le)
  have num: "page_num s' nd q = page_num s ?n0 q" if q: "q < ?p" for q
  proof (cases "q < 4")
    case True
    then show ?thesis using tab by (simp add: page_num_def)
  next
    case False
    then have "4 \<le> q" by simp
    then obtain h j where h: "q = 4 + 64 * h + j" "j < 64" "h < ndouble ?p" using page_group q by blast
    then have "h < 4" using p4 by simp
    then show ?thesis using h tab ni[of "Inr h"] at by (simp add: page_num_double)
  qed
  have nums: "node_num s' nd x = node_num s ?n0 x" if "x \<in> node_keys ?p" for x
    using that num tab p4 by (cases x) auto
  show nodes: "nodes_of k s' i = nodes_of k s i"
    unfolding nodes_of_def p ai by (rule image_cong[OF refl nums])
  have pg: "node_page s' nd q = node_page s ?n0 q" if "q < ?p" for q
    using num[OF that] ni[of "Inl q"] at that by (simp add: node_page_def)
  show "node_bytes s' nd ?p = node_bytes s ?n0 ?p"
    using pg g by (intro node_bytes_cong) simp_all
  have "inj_on (node_num s' nd) (node_keys ?p)" using i nums by (simp add: node_ok_def cong: inj_on_cong)
  then show "node_ok k s' i" using i f nodes nd(3) by (simp add: node_ok_def p ai)
  have "i div 4 \<le> 1024" using il(2) by linarith
  then have "file_blk s' b = file_blk s b" if "1024 < b" for b
    using file_blk_dump[OF d il(3) nd(1), of b] that by (simp add: s'_def)
  then show "unchanged s {i} s'" using f at by (simp add: unchanged_def kept_def) (simp add: s'_def)
qed

section \<open>The entries of a directory\<close>

definition dir_entries :: "'z hostdisk_scheme \<Rightarrow> nat \<Rightarrow> di_ent list" where
  "dir_entries s i = map (d_ent (node_bytes s (inode_at s i) (pages_of Dnode s i))) [0..<entries_of s i]"

lemma length_dir_entries [simp]: "length (dir_entries s i) = entries_of s i"
  by (simp add: dir_entries_def)

lemma d_ent_mput: "length B \<le> length d \<Longrightarrow> 16 * j + 16 \<le> length B \<Longrightarrow> d_ent (mput 0 B d) j = d_ent B j"
  by (simp add: d_ent_def mem_simps)

lemma d_ent_mget: "16 * j + 16 \<le> m \<Longrightarrow> d_ent (mget 0 m d) j = d_ent d j"
  by (simp add: d_ent_def mem_simps)

lemma entry_bytes: "j < n \<Longrightarrow> 16 * j + 16 \<le> 96 + 128 * npages Dnode n"
  using npages_le[of Dnode n "npages Dnode n"] by (simp add: ptr_at_def)

lemma dir_listing_any:
  assumes d: "disk_ok s" "arrays_ok s" and i: "i < 65536" "pages_of Dnode s i \<le> MAX_PAGES"
  shows "\<exists>b A. dnode_listing (of_nat i) s = (entries_of s i, s\<lparr>iblockbuf := b, d_arr := A\<rparr>)
     \<and> length A = ARR_BYTES \<and> map (d_ent A) [0..<entries_of s i] = dir_entries s i"
proof -
  let ?B = "node_bytes s (inode_at s i) (pages_of Dnode s i)"
  have da: "length (d_arr s) = ARR_BYTES" using d(2) by (simp add: arrays_ok_def)
  have w: "unat (of_nat i :: ushort) = i" "pages_of Dnode s i \<le> MAX_PAGES"
    using i by (simp_all add: unat_of_nat_ushort)
  have B: "length ?B = 96 + 128 * pages_of Dnode s i" using d by simp
  then have "length ?B \<le> ARR_BYTES" using w(2) by simp
  then have "d_ent (mput 0 ?B (d_arr s)) j = d_ent ?B j" if "j < entries_of s i" for j
    using d_ent_mput[of ?B "d_arr s" j] entry_bytes[OF that] B da by (simp add: pages_of_def)
  moreover have "length (mput 0 ?B (d_arr s)) = ARR_BYTES" using \<open>length ?B \<le> ARR_BYTES\<close> da by simp
  moreover obtain b where "dnode_listing (of_nat i) s = (entries_of s i, s\<lparr>iblockbuf := b, d_arr := mput 0 ?B (d_arr s)\<rparr>)"
    using dnode_listing_eq[OF d(1,2), of "of_nat i"] w by (auto simp: entries_of_def pages_of_def)
  ultimately show ?thesis
    by (intro exI[of _ b] exI[of _ "mput 0 ?B (d_arr s)"]) (simp add: dir_entries_def)
qed

lemma dir_listing:
  assumes "fs_ok s" "node_ok Dnode s i"
  shows "\<exists>b A. dnode_listing (of_nat i) s = (entries_of s i, s\<lparr>iblockbuf := b, d_arr := A\<rparr>)
     \<and> length A = ARR_BYTES \<and> map (d_ent A) [0..<entries_of s i] = dir_entries s i"
  using assms fs_ok_disk[OF assms(1)] by (intro dir_listing_any) (simp_all add: fs_ok_def arrays_ok_def node_ok_def)

lemma resized_entries:
  assumes "resized Dnode s i n s'"
  shows "dir_entries s' i = map (d_ent (d_arr s)) [0..<n]"
proof -
  have h: "entries_of s' i = n" "node_bytes s' (inode_at s' i) (npages Dnode n) = mget 0 (96 + 128 * npages Dnode n) (d_arr s)"
    using assms by (simp_all add: resized_def)
  show "dir_entries s' i = map (d_ent (d_arr s)) [0..<n]"
    using h entry_bytes[of _ n] by (simp add: dir_entries_def pages_of_def d_ent_mget)
qed

lemma nlink_store:
  assumes "fs_ok s" "node_ok k s i" "s' = inode_dump (int i) (set_nlink v (inode_at s i)) s"
  shows "fs_ok s' \<and> node_ok k s' i \<and> inode_at s' i = set_nlink v (inode_at s i)
     \<and> entries_of s' i = entries_of s i \<and> nodes_of k s' i = nodes_of k s i
     \<and> dir_entries s' i = map (d_ent (node_bytes s' (set_nlink v (inode_at s i)) (pages_of Dnode s i))) [0..<entries_of s i]
     \<and> node_bytes s' (set_nlink v (inode_at s i)) (pages_of k s i) = node_bytes s (inode_at s i) (pages_of k s i)
     \<and> free_inodes s' = free_inodes s \<and> unchanged s {i} s'"
proof -
  have l: "length (inode_at s i) = INODE_SIZE" using fs_ok_disk[OF assms(1)] by simp
  have nd: "length (set_nlink v (inode_at s i)) = INODE_SIZE"
    "mget 16 112 (set_nlink v (inode_at s i)) = mget 16 112 (inode_at s i)"
    "md_ino (set_nlink v (inode_at s i)) = md_ino (inode_at s i)" "md_size (set_nlink v (inode_at s i)) = md_size (inode_at s i)"
    using l by (simp_all add: layout_defs mem_simps)
  note n = node_store_head[OF assms(1,2) nd, folded assms(3)]
  have "pages_of Dnode s' i = pages_of Dnode s i" using n(4) by (simp add: pages_of_def)
  then show ?thesis using n by (simp add: dir_entries_def)
qed

lemma nlink_store_dir:
  "fs_ok s \<Longrightarrow> node_ok Dnode s i \<Longrightarrow> dir_entries (inode_dump (int i) (set_nlink v (inode_at s i)) s) i = dir_entries s i"
  using nlink_store[of s Dnode i _ v] by (simp add: dir_entries_def[of s])

lemma d_ent_set:
  assumes "set_d_ent n e a = Some a'" "length (de_name e) = 14"
  shows "length a' = length a" "j \<noteq> n \<Longrightarrow> 16 * j + 16 \<le> length a \<Longrightarrow> d_ent a' j = d_ent a j" "d_ent a' n = e"
proof -
  have a: "16 * n + 16 \<le> length a" "a' = mput (16 * n) (di_ent_bytes e) a"
    using assms(1) by (auto simp: set_d_ent_def split: if_splits)
  show "length a' = length a" "d_ent a' n = e" using a assms(2) by (simp_all add: d_ent_def mem_simps)
  assume j: "j \<noteq> n" "16 * j + 16 \<le> length a"
  then have "j < n \<or> n < j" by linarith
  then show "d_ent a' j = d_ent a j" using a j(2) assms(2) by (auto simp: d_ent_def mem_simps)
qed

section \<open>Adding an entry\<close>

lemma take_upt_min: "take k [0..<n] = [0..<min n k]"
  by (simp add: take_upt min_def)

lemma dnode_append_any:
  assumes s: "fs_ok s" and i: "node_ok Dnode s i" and n: "entries_of s i \<le> 2085" and e: "length (de_name e) = 14"
    and cnt: "need (npages Dnode (min (Suc (entries_of s i)) 2085)) (pages_of Dnode s i) 0 0 \<le> card (free_inodes s)"
  shows "\<exists>s'. dnode_append (int i) e s = Some s' \<and> fs_ok s' \<and> node_ok Dnode s' i
     \<and> dir_entries s' i = take 2085 (dir_entries s i @ [e]) \<and> md_nlink (inode_at s' i) = md_nlink (inode_at s i) + 1
     \<and> free_inodes s' \<union> nodes_of Dnode s' i = free_inodes s \<union> nodes_of Dnode s i
     \<and> kept (s\<lparr>ERRNO := (if entries_of s i = 2085 then - EFBIG else ERRNO s)\<rparr>) ({i} \<union> free_inodes s \<union> nodes_of Dnode s i) s'"
proof -
  let ?n = "entries_of s i" and ?F = "{i} \<union> free_inodes s \<union> nodes_of Dnode s i"
  define m where "m = min (Suc ?n) 2085"
  let ?e = "if ?n = 2085 then - EFBIG else ERRNO s"
  obtain b A where A: "dnode_listing (of_nat i) s = (?n, s\<lparr>iblockbuf := b, d_arr := A\<rparr>)" "length A = ARR_BYTES"
    "map (d_ent A) [0..<?n] = dir_entries s i" using dir_listing[OF s i] by blast
  obtain A' where A': "set_d_ent ?n e A = Some A'" using A(2) n by (simp add: set_d_ent_def)
  note a' = d_ent_set[OF A' e]
  let ?t = "s\<lparr>iblockbuf := b, d_arr := A'\<rparr>"
  have fs: "length (d_arr s) = ARR_BYTES" using s by (simp add: fs_ok_def)
  have t: "fs_ok ?t" "node_ok Dnode ?t i" using s i a'(1) A(2) fs by simp_all
  have c: "clamp_size Dnode (int ?n + 1) = m" using n by (auto simp: clamp_size_def m_def min_def)
  from listing_set_ok[OF t, of "int ?n + 1"] cnt n obtain s1 where s1:
    "dnode_listing_set (of_nat i) (int ?n + 1) ?t = Some s1" "resized Dnode ?t i m s1"
    "unchanged (?t\<lparr>ERRNO := ?e\<rparr>) ?F s1" by (auto simp: c m_def split: if_splits)
  have ok1: "fs_ok s1" "node_ok Dnode s1 i" using s1(2) by (simp_all add: resized_def)
  have d1: "disk_ok s1" using ok1(1) by (rule fs_ok_disk)
  have l: "length (inode_at s i) = INODE_SIZE" using fs_ok_disk[OF s] by simp
  have nl: "md_nlink (inode_at s1 i) = md_nlink (inode_at s i)"
    using s1(2) head_fields(5)[of _ "inode_at s1 i"] set_head_simps(1,6)[OF l, of A'] a'(1) A(2)
    by (fastforce simp: resized_def)
  have "?n \<le> m" using n by (simp add: m_def)
  then have nlk: "\<not> leaks (npages Dnode m) (pages_of Dnode s i)"
    using npages_mono[of ?n m Dnode] by (simp add: leaks_def pages_of_def)
  have d1e: "dir_entries s1 i = take 2085 (dir_entries s i @ [e])"
  proof -
    have "dir_entries s1 i = map (d_ent A') [0..<m]" using resized_entries[OF s1(2)] by simp
    also have "\<dots> = take 2085 (map (d_ent A') [0..<Suc ?n])"
      unfolding take_map take_upt_min m_def by simp
    also have "map (d_ent A') [0..<?n] = map (d_ent A) [0..<?n]" using a'(2) A(2) n by simp
    then have "map (d_ent A') [0..<Suc ?n] = dir_entries s i @ [e]" using a'(3) A(3) by simp
    finally show ?thesis .
  qed
  have im: "i < MAX_INODES" using i by (simp add: node_ok_def)
  let ?u = "s1\<lparr>iblockbuf := file_blk s1 (i div 4)\<rparr>"
  define s2 where "s2 = inode_dump (int i) (set_nlink (md_nlink (inode_at s1 i) + 1) (inode_at ?u i)) ?u"
  have run: "dnode_append (int i) e s = Some s2"
    using A(1) A' s1(1) inode_load_eq[OF d1 im] by (simp add: dnode_append_def Let_def s2_def)
  have u: "fs_ok ?u" "node_ok Dnode ?u i" using ok1 by simp_all
  note st = nlink_store[OF u s2_def]
  have "kept (s\<lparr>ERRNO := ?e\<rparr>) ?F s1" using s1(3) by (simp add: unchanged_def kept_def)
  moreover have "kept s1 ?F s2"
    using st kept_mono[of ?u "{i}" s2 ?F] by (simp add: unchanged_def kept_def)
  ultimately have "kept (s\<lparr>ERRNO := ?e\<rparr>) ?F s2" by (rule kept_trans)
  moreover have "dir_entries s2 i = take 2085 (dir_entries s i @ [e])"
    using nlink_store_dir[OF u] d1e by (simp add: s2_def dir_entries_def)
  moreover have "md_nlink (inode_at s2 i) = md_nlink (inode_at s i) + 1"
    using st nl length_inode_at[OF d1, of i] by (simp add: layout_defs mem_simps)
  moreover have "free_inodes s2 \<union> nodes_of Dnode s2 i = free_inodes s \<union> nodes_of Dnode s i"
    using st s1(2) nlk by (simp add: resized_def)
  ultimately show ?thesis using run st by blast
qed

lemma dnode_append_ok:
  assumes "fs_ok s" "node_ok Dnode s i" "entries_of s i < 2085" "length (de_name e) = 14"
    and "need (npages Dnode (Suc (entries_of s i))) (pages_of Dnode s i) 0 0 \<le> card (free_inodes s)"
  shows "\<exists>s'. dnode_append (int i) e s = Some s' \<and> fs_ok s' \<and> node_ok Dnode s' i
     \<and> dir_entries s' i = dir_entries s i @ [e] \<and> md_nlink (inode_at s' i) = md_nlink (inode_at s i) + 1
     \<and> free_inodes s' \<union> nodes_of Dnode s' i = free_inodes s \<union> nodes_of Dnode s i
     \<and> kept s ({i} \<union> free_inodes s \<union> nodes_of Dnode s i) s'"
  using dnode_append_any[OF assms(1,2) _ assms(4)] assms(3,5) by simp

section \<open>Removing an entry\<close>

text \<open>The comparison of the removal loop: the first 13 bytes up to the NUL.\<close>

definition same_name :: "di_ent \<Rightarrow> byte list \<Rightarrow> bool" where
  "same_name e fname \<longleftrightarrow> take 13 (cstr (de_name e)) = take 13 (cstr fname)"

lemma take_cstr: "take n (cstr p) = cstr (take n p)"
  by (induction p arbitrary: n) (auto simp: cstr_Cons take_Cons split: nat.splits)

lemma strncmp_entry:
  assumes "16 * j + 16 \<le> length d" "readable 13 fname"
  shows "strncmp0 (mget (16 * j) 16 d) fname 13 = Some (same_name (d_ent d j) fname)"
proof -
  have "take 13 (mget (16 * j) 16 d) = take 13 (de_name (d_ent d j))"
    using assms(1) by (simp add: d_ent_def di_ent_of_def mget_def min_def)
  then have "take 13 (cstr (mget (16 * j) 16 d)) = take 13 (cstr (de_name (d_ent d j)))" by (simp only: take_cstr)
  moreover have "readable 13 (mget (16 * j) 16 d)" using assms(1) by (simp add: readable_def)
  ultimately show ?thesis using strncmp0_readable[OF _ assms(2)] by (simp add: same_name_def)
qed

lemma remove_entry:
  assumes s: "fs_ok s" "node_ok Dnode s i" and n: "0 < n" "n = entries_of s i" "n \<le> 2086"
    and d: "length (d_arr s) = ARR_BYTES" "m < n"
  shows "\<exists>s' a'. dnode_listing_set (of_nat i) (int n - 1) (s\<lparr>d_arr := mput (16 * m) (mget (16 * (n - 1)) 16 (d_arr s)) (d_arr s)\<rparr>) = Some s'
     \<and> resized Dnode (s\<lparr>d_arr := a'\<rparr>) i (n - 1) s' \<and> length a' = ARR_BYTES
     \<and> d_ent a' m = d_ent (d_arr s) (n - 1) \<and> (\<forall>j<n. j \<noteq> m \<longrightarrow> d_ent a' j = d_ent (d_arr s) j)
     \<and> unchanged (s\<lparr>d_arr := a'\<rparr>) ({i} \<union> free_inodes s \<union> nodes_of Dnode s i) s'"
proof -
  let ?a = "mput (16 * m) (mget (16 * (n - 1)) 16 (d_arr s)) (d_arr s)" and ?F = "{i} \<union> free_inodes s \<union> nodes_of Dnode s i"
  let ?t = "s\<lparr>d_arr := ?a\<rparr>"
  have l: "length (mget (16 * (n - 1)) 16 (d_arr s)) = 16" "16 * m + 16 \<le> ARR_BYTES" using d n by auto
  then have a: "length ?a = ARR_BYTES" using d by simp
  have "d_ent ?a m = d_ent (d_arr s) (n - 1)"
    using l d by (simp add: d_ent_def mem_simps)
  moreover have "d_ent ?a j = d_ent (d_arr s) j" if "j < n" "j \<noteq> m" for j
  proof -
    have "j < m \<or> m < j" using that(2) by linarith
    then show ?thesis using l d that n by (auto simp: d_ent_def mem_simps)
  qed
  moreover have t: "fs_ok ?t" "node_ok Dnode ?t i" using s a d by simp_all
  have c: "clamp_size Dnode (int n - 1) = n - 1" using n by (simp add: clamp_size_def)
  have "npages Dnode (n - 1) \<le> npages Dnode n"
    using npages_le[of Dnode "n - 1" "npages Dnode n"] npages_le[of Dnode n "npages Dnode n"] by simp
  then have nd: "need (npages Dnode (n - 1)) (pages_of Dnode ?t i) 0 0 = 0"
    using n(2) by (simp add: need_def pages_of_def ndouble_def div_le_mono)
  obtain s' where "dnode_listing_set (of_nat i) (int n - 1) ?t = Some s'" "resized Dnode ?t i (n - 1) s'" "unchanged ?t ?F s'"
    using listing_set_ok[OF t, of "int n - 1", unfolded c] nd n(1,3) by (auto simp del: diff_Suc_1)
  ultimately show ?thesis using a by blast
qed

text \<open>After the match the entry is gone and the array shows no other match.\<close>

definition removed :: "fs \<Rightarrow> nat \<Rightarrow> nat \<Rightarrow> fs \<Rightarrow> bool" where
  "removed s i m u \<longleftrightarrow>
     fs_ok u \<and> node_ok Dnode u i \<and> dir_entries u i = butlast ((dir_entries s i)[m := last (dir_entries s i)])
     \<and> md_nlink (inode_at u i) = md_nlink (inode_at s i) - 1
     \<and> free_inodes u \<union> nodes_of Dnode u i \<subseteq> free_inodes s \<union> nodes_of Dnode s i \<and> free_inodes s \<subseteq> free_inodes u
     \<and> kept s ({i} \<union> free_inodes s \<union> nodes_of Dnode s i) u
     \<and> length (d_arr u) = ARR_BYTES \<and> (\<forall>l<entries_of s i. l \<noteq> m \<longrightarrow> d_ent (d_arr u) l = dir_entries s i ! l)"

lemma nth_dir_entries:
  "map (d_ent A) [0..<entries_of s i] = dir_entries s i \<Longrightarrow> j < entries_of s i \<Longrightarrow> d_ent A j = dir_entries s i ! j"
  by (metis length_upt minus_nat.diff_0 nth_map nth_upt add_0)

lemma butlast_update:
  assumes "m < length xs" "length ys = length xs - 1" "m < length ys \<Longrightarrow> ys ! m = last xs"
    "\<And>l. l < length ys \<Longrightarrow> l \<noteq> m \<Longrightarrow> ys ! l = xs ! l"
  shows "ys = butlast (xs[m := last xs])"
  using assms by (intro nth_equalityI) (auto simp: nth_butlast nth_list_update)

text \<open>The iteration at the match: its entry is overwritten by the last and the list shortened.\<close>

lemma remove_step_match:
  assumes s: "fs_ok s" "node_ok Dnode s i" and f: "readable 13 fname" "same_name (dir_entries s i ! m) fname"
    and m: "m < entries_of s i" and A: "length A = ARR_BYTES" "map (d_ent A) [0..<entries_of s i] = dir_entries s i"
  shows "\<exists>u. remove_step (int i) fname (entries_of s i) m (s\<lparr>iblockbuf := b, d_arr := A\<rparr>) = Some u \<and> removed s i m u"
proof -
  let ?n = "entries_of s i" and ?F = "{i} \<union> free_inodes s \<union> nodes_of Dnode s i" and ?t = "s\<lparr>iblockbuf := b, d_arr := A\<rparr>"
  have "length (d_arr s) = ARR_BYTES" using s(1) by (simp add: fs_ok_def)
  then have t: "fs_ok ?t" "node_ok Dnode ?t i" using s A(1) by simp_all
  have nle: "?n \<le> 2086"
    using s(2) npages_le[of Dnode ?n MAX_PAGES] by (simp add: node_ok_def pages_of_def ptr_at_def)
  note ent = nth_dir_entries[OF A(2)]
  have cmp: "strncmp0 (mget (16 * m) 16 (d_arr ?t)) fname 13 = Some True"
    using strncmp_entry[of m A fname] f A(1) m nle ent[OF m] by simp
  have n0: "0 < ?n" using m by simp
  from remove_entry[OF t n0 _ nle _ m] A(1) obtain s1 a' where s1:
    "dnode_listing_set (of_nat i) (int ?n - 1) (?t\<lparr>d_arr := mput (16 * m) (mget (16 * (?n - 1)) 16 A) A\<rparr>) = Some s1"
    "resized Dnode (?t\<lparr>d_arr := a'\<rparr>) i (?n - 1) s1" "length a' = ARR_BYTES" "d_ent a' m = d_ent A (?n - 1)"
    "\<forall>j<?n. j \<noteq> m \<longrightarrow> d_ent a' j = d_ent A j" "unchanged (?t\<lparr>d_arr := a'\<rparr>) ?F s1" by auto
  have ok1: "fs_ok s1" "node_ok Dnode s1 i" using s1(2) by (simp_all add: resized_def)
  have d1: "disk_ok s1" using ok1(1) by (rule fs_ok_disk)
  have im: "i < MAX_INODES" using s(2) by (simp add: node_ok_def)
  let ?u = "s1\<lparr>iblockbuf := file_blk s1 (i div 4)\<rparr>"
  define s2 where "s2 = inode_dump (int i) (set_nlink (md_nlink (inode_at s1 i) - 1) (inode_at ?u i)) ?u"
  have run: "remove_step (int i) fname ?n m ?t = Some s2"
    using cmp s1(1) inode_load_eq[OF d1 im] A(1) nle by (simp add: remove_step_def Let_def s2_def)
  have uu: "fs_ok ?u" "node_ok Dnode ?u i" using ok1 by simp_all
  note st = nlink_store[OF uu s2_def]
  have l: "length (inode_at s i) = INODE_SIZE" using fs_ok_disk[OF s(1)] by simp
  have nl: "md_nlink (inode_at s1 i) = md_nlink (inode_at s i)"
    using s1(2) head_fields(5)[of _ "inode_at s1 i"] set_head_simps(1,6)[OF l s1(3)]
    by (fastforce simp: resized_def)
  have new: "dir_entries s1 i = butlast ((dir_entries s i)[m := last (dir_entries s i)])"
  proof -
    have e: "dir_entries s1 i = map (d_ent a') [0..<?n - 1]" using resized_entries[OF s1(2)] by simp
    have "last (dir_entries s i) = dir_entries s i ! (?n - 1)"
      using n0 by (metis last_conv_nth length_dir_entries length_greater_0_conv)
    then show ?thesis unfolding e using s1(4,5) ent m by (intro butlast_update) auto
  qed
  have "kept s ?F s1" using s1(6) by (simp add: unchanged_def kept_def)
  moreover have "kept s1 ?F s2" using st kept_mono[of ?u "{i}" s2 ?F] by (simp add: unchanged_def kept_def)
  ultimately have k: "kept s ?F s2" by (rule kept_trans)
  have "d_arr s2 = a'" using st s1(6) by (simp add: unchanged_def)
  moreover have "dir_entries s2 i = butlast ((dir_entries s i)[m := last (dir_entries s i)])"
    using nlink_store_dir[OF uu] new by (simp add: s2_def dir_entries_def)
  moreover have "md_nlink (inode_at s2 i) = md_nlink (inode_at s i) - 1"
    using st nl length_inode_at[OF d1, of i] by (simp add: layout_defs mem_simps)
  moreover have "free_inodes s2 \<union> nodes_of Dnode s2 i \<subseteq> free_inodes s \<union> nodes_of Dnode s i"
    using st s1(2) by (simp add: resized_def)
  moreover have "free_inodes s \<subseteq> free_inodes s2"
  proof -
    have "npages Dnode (?n - 1) \<le> pages_of Dnode s i" unfolding pages_of_def by (rule npages_mono) simp
    then show ?thesis using st s1(2) by (simp add: resized_def)
  qed
  ultimately have "removed s i m s2" using st k s1(3,5) ent by (simp add: removed_def)
  then show ?thesis using run by blast
qed

lemma dnode_remove_ok:
  assumes s: "fs_ok s" and i: "node_ok Dnode s i" and f: "readable 13 fname"
    and m: "m < entries_of s i" "\<forall>j<entries_of s i. same_name (dir_entries s i ! j) fname \<longleftrightarrow> j = m"
  shows "\<exists>s'. dnode_remove (int i) fname s = Some s' \<and> removed s i m s'"
proof -
  let ?n = "entries_of s i"
  obtain b A where A: "dnode_listing (of_nat i) s = (?n, s\<lparr>iblockbuf := b, d_arr := A\<rparr>)" "length A = ARR_BYTES"
    "map (d_ent A) [0..<?n] = dir_entries s i" using dir_listing[OF s i] by blast
  let ?t = "s\<lparr>iblockbuf := b, d_arr := A\<rparr>"
  have nle: "?n \<le> 2086"
    using i npages_le[of Dnode ?n MAX_PAGES] by (simp add: node_ok_def pages_of_def ptr_at_def)
  define P where "P = (\<lambda>j u. if j \<le> m then u = ?t else removed s i m u)"
  have "\<exists>u'. remove_step (int i) fname ?n j u = Some u' \<and> P (Suc j) u'" if j: "j < ?n" "P j u" for j u
  proof (cases "j = m")
    case True
    have "same_name (dir_entries s i ! m) fname" using m by blast
    from remove_step_match[OF s i f this m(1) A(2,3), of b] show ?thesis
      using j(2) by (auto simp: P_def True)
  next
    case False
    then have "d_ent (d_arr u) j = dir_entries s i ! j" "length (d_arr u) = ARR_BYTES"
      using j A(2) nth_dir_entries[OF A(3)] by (auto simp: P_def removed_def split: if_splits)
    then have "remove_step (int i) fname ?n j u = Some u"
      using strncmp_entry[of j "d_arr u" fname] f m(2) j(1) nle False by (simp add: remove_step_def)
    then show ?thesis using j(2) False by (auto simp: P_def split: if_splits)
  qed
  then have "\<exists>u'. loop [0..<?n] (remove_step (int i) fname ?n) ?t = Some u' \<and> P ?n u'"
    by (intro loop_rule) (simp_all add: P_def)
  then show ?thesis using A(1) m(1) by (auto simp: dnode_remove_def P_def)
qed

text \<open>Without a match nothing is removed.\<close>

lemma dnode_remove_none:
  assumes s: "fs_ok s" and i: "node_ok Dnode s i" and f: "readable 13 fname"
    and m: "\<forall>j<entries_of s i. \<not> same_name (dir_entries s i ! j) fname"
  shows "\<exists>b A. dnode_remove (int i) fname s = Some (s\<lparr>iblockbuf := b, d_arr := A\<rparr>) \<and> length A = ARR_BYTES"
proof -
  let ?n = "entries_of s i"
  obtain b A where A: "dnode_listing (of_nat i) s = (?n, s\<lparr>iblockbuf := b, d_arr := A\<rparr>)" "length A = ARR_BYTES"
    "map (d_ent A) [0..<?n] = dir_entries s i" using dir_listing[OF s i] by blast
  let ?t = "s\<lparr>iblockbuf := b, d_arr := A\<rparr>"
  have nle: "?n \<le> 2086"
    using i npages_le[of Dnode ?n MAX_PAGES] by (simp add: node_ok_def pages_of_def ptr_at_def)
  have "remove_step (int i) fname ?n j ?t = Some ?t" if "j < ?n" for j
    using strncmp_entry[of j "d_arr ?t" fname] f m that nle nth_dir_entries[OF A(3) that] A(2) by (simp add: remove_step_def)
  then have "\<exists>u. loop [0..<?n] (remove_step (int i) fname ?n) ?t = Some u \<and> u = ?t"
    by (intro loop_rule[where P = "\<lambda>j u. u = ?t"]) auto
  then show ?thesis using A(1,2) by (auto simp: dnode_remove_def)
qed

section \<open>Properties\<close>

text \<open>
  C13. dnode_append adds the entry at the end of the directory and counts it in nlink; the other
  entries, every inode that is neither the directory's nor free, every data block and the list of free blocks stay
  as they are, and no inode is lost. The directory must have room (fewer than 2085 entries) and
  the pages it grows by must be free.
\<close>

theorem dnode_append_spec:
  assumes "fs_ok s" "node_ok Dnode s i" "entries_of s i < 2085" "length (de_name e) = 14"
    and "need (npages Dnode (Suc (entries_of s i))) (pages_of Dnode s i) 0 0 \<le> card (free_inodes s)"
  shows "\<exists>s'. dnode_append (int i) e s = Some s' \<and> fs_ok s' \<and> node_ok Dnode s' i
     \<and> dir_entries s' i = dir_entries s i @ [e] \<and> md_nlink (inode_at s' i) = md_nlink (inode_at s i) + 1
     \<and> free_inodes s' \<union> nodes_of Dnode s' i = free_inodes s \<union> nodes_of Dnode s i
     \<and> kept s ({i} \<union> free_inodes s \<union> nodes_of Dnode s i) s'"
  using dnode_append_ok[OF assms] .

lemma upt_two: "[0..<2] = [0, 1 :: nat]"
  by (simp add: upt_rec)

lemma d_ent_dir_node: "j < 6 \<Longrightarrow> d_ent (mget 16 96 nd) j = idir_dinum nd j"
  by (simp add: d_ent_def idir_dinum_def mem_simps)

lemma dir_node_entries:
  assumes "inode_at s x = dir_node i p"
  shows "dir_entries s x = [\<lparr>de_name = dot_name, de_inum = i\<rparr>, \<lparr>de_name = dotdot_name, de_inum = p\<rparr>]"
proof -
  have e: "entries_of s x = 2" "pages_of Dnode s x = 0" by (simp_all add: pages_of_def entries_of_def assms dir_node_size npages_def)
  have "node_bytes s (dir_node i p) 0 = mget 16 96 (dir_node i p)" by (simp add: node_bytes_def)
  moreover have "idir_dinum (dir_node i p) 0 = \<lparr>de_name = dot_name, de_inum = i\<rparr>"
    "idir_dinum (dir_node i p) 1 = \<lparr>de_name = dotdot_name, de_inum = p\<rparr>"
    by (simp_all add: dir_node_def layout_defs mem_simps)
  ultimately show ?thesis by (simp add: dir_entries_def e assms upt_two d_ent_dir_node)
qed

lemma root_like:
  assumes "free_inodes s = {3..<1024}" "inode_at s 2 = dir_node 2 2"
  shows "node_ok Dnode s 2 \<and> dir_entries s 2 = [\<lparr>de_name = dot_name, de_inum = 2\<rparr>, \<lparr>de_name = dotdot_name, de_inum = 2\<rparr>]"
proof -
  have e: "entries_of s 2 = 2" "pages_of Dnode s 2 = 0" by (simp_all add: pages_of_def entries_of_def assms(2) dir_node_size npages_def)
  have "node_keys 0 = {}" by (auto simp: node_keys_def ndouble_def split: sum.splits)
  moreover have "md_ino (dir_node 2 2) = 2" by (simp add: dir_node_def layout_defs di_ent_bytes_def mem_simps)
  ultimately have "node_ok Dnode s 2" using e assms by (simp add: node_ok_def nodes_of_def)
  then show ?thesis using dir_node_entries[OF assms(2)] by blast
qed

lemma root_entries: "dir_entries mounted 2 = [\<lparr>de_name = dot_name, de_inum = 2\<rparr>, \<lparr>de_name = dotdot_name, de_inum = 2\<rparr>]"
  "entries_of mounted 2 = 2"
  using root_like[OF mounted(3,4)] by (simp_all add: entries_of_def mounted(4) dir_node_size)

theorem dnode_append_spec_witness:
  "\<exists>s'. dnode_append 2 \<lparr>de_name = replicate 13 65 @ [0], de_inum = 5\<rparr> mounted = Some s'
     \<and> map de_inum (dir_entries s' 2) = [2, 2, 5]"
  using dnode_append_spec[OF mounted(1) node_ok_root(1), of "\<lparr>de_name = replicate 13 65 @ [0], de_inum = 5\<rparr>"]
  by (auto simp: root_entries node_ok_root(2) mounted(3) npages_def need_def ndouble_def)

text \<open>
  C14. dnode_remove deletes the only entry whose name agrees with the given one in its first 13
  bytes: the last entry takes its place, the list gets one shorter and nlink one smaller; nothing
  outside the directory's inodes changes.
\<close>

theorem dnode_remove_spec:
  assumes "fs_ok s" "node_ok Dnode s i" "readable 13 fname" "m < entries_of s i"
    and "\<forall>j<entries_of s i. same_name (dir_entries s i ! j) fname \<longleftrightarrow> j = m"
  shows "\<exists>s'. dnode_remove (int i) fname s = Some s' \<and> fs_ok s' \<and> node_ok Dnode s' i
     \<and> dir_entries s' i = butlast ((dir_entries s i)[m := last (dir_entries s i)])
     \<and> md_nlink (inode_at s' i) = md_nlink (inode_at s i) - 1
     \<and> kept s ({i} \<union> free_inodes s \<union> nodes_of Dnode s i) s'"
  using dnode_remove_ok[OF assms] by (auto simp: removed_def)

theorem dnode_remove_spec_witness:
  "\<exists>s'. dnode_remove 2 [46, 0] mounted = Some s' \<and> dir_entries s' 2 = [\<lparr>de_name = dotdot_name, de_inum = 2\<rparr>]"
proof -
  have c: "same_name \<lparr>de_name = dot_name, de_inum = 2\<rparr> [46, 0]" "\<not> same_name \<lparr>de_name = dotdot_name, de_inum = 2\<rparr> [46, 0]"
    by (simp_all add: same_name_def dot_name_def dotdot_name_def cstr_Cons zeros_def)
  have "\<forall>j<entries_of mounted 2. same_name (dir_entries mounted 2 ! j) [46, 0] \<longleftrightarrow> j = 0"
  proof (intro allI impI)
    fix j assume "j < entries_of mounted 2"
    then have "j = 0 \<or> j = 1" by (auto simp: root_entries)
    then show "same_name (dir_entries mounted 2 ! j) [46, 0] \<longleftrightarrow> j = 0" using c by (auto simp: root_entries)
  qed
  with dnode_remove_spec[OF mounted(1) node_ok_root(1), of "[46, 0]" 0] show ?thesis
    by (auto simp: root_entries readable_def terminated_def)
qed

end
