(* ===== verification/FS_Path.thy ===== *)
theory FS_Path
  imports FS_Entries
begin

text \<open>
  Path resolution (\<open>prelude/path.c\<close>): the last component of a path, the lookup of one name in
  one directory, and the walk from the root (inode 2) over the components of a path.
\<close>

definition slash :: byte where "slash = 47"

definition path_basename :: "byte list \<Rightarrow> byte list \<Rightarrow> byte list option" where
  "path_basename path out =
     (case strrchr path slash of
        Some i \<Rightarrow> c_strcpy out (drop (i + 1) path)
      | None \<Rightarrow> c_strcpy out path)"

text \<open>The scan of the entries; reading past the static array is undefined.\<close>

fun find_entry :: "nat list \<Rightarrow> byte list \<Rightarrow> byte list \<Rightarrow> int option" where
  "find_entry [] path d = Some (-1)"
| "find_entry (i # is) path d =
     (if 16 * i + 16 \<le> length d
      then do {
        eq \<leftarrow> strncmp0 path (de_name (d_ent d i)) 14;
        (if eq then Some (uint (de_inum (d_ent d i))) else find_entry is path d) }
      else None)"

definition path_to_inum_elem :: "byte list \<Rightarrow> ushort \<Rightarrow> fs \<Rightarrow> (int \<times> fs) option" where
  "path_to_inum_elem path dest_inum s =
     (if uint dest_inum < 2 then Some (-1, s)
      else do {
        eq \<leftarrow> strcmp0 path [46, 0];
        (if eq then Some (uint dest_inum, s)
         else let (n, s) = dnode_listing dest_inum s
              in do { r \<leftarrow> find_entry [0..<n] path (d_arr s); Some (r, s) }) })"

text \<open>
  The loop over the characters: \<open>cur\<close> is the text from \<open>head\<close> to \<open>tail\<close>, a slash ends
  the component. The result is the inode reached and the last component.
\<close>

fun walk_path :: "byte list \<Rightarrow> byte list \<Rightarrow> int \<Rightarrow> fs \<Rightarrow> (int \<times> byte list \<times> fs) option" where
  "walk_path [] cur inum s = Some (inum, cur, s)"
| "walk_path (c # tail) cur inum s =
     (if c = slash
      then do {
        (inum, s) \<leftarrow> path_to_inum_elem (cur @ [0]) (word_of_int inum) s;
        walk_path tail [] inum s }
      else walk_path tail (cur @ [c]) inum s)"

abbreviation PATH_MAX :: nat where "PATH_MAX \<equiv> 4096"

text \<open>
  \<open>path_to_inum path\<close> yields the inode number and the number stored through \<open>parent\<close>. The
  copy into the local buffer overflows for a path of 4096 bytes or more; an empty path indexes
  the buffer at -1. One trailing slash is cut, and the first character is skipped.
\<close>

definition path_to_inum :: "byte list \<Rightarrow> fs \<Rightarrow> ((int \<times> int) \<times> fs) option" where
  "path_to_inum path s = do {
     n \<leftarrow> c_strlen path;
     (if n + 1 \<le> PATH_MAX \<and> n \<noteq> 0
      then let p = cstr path;
               p = (if last p = slash then butlast p else p)
           in do {
             (parent, final, s) \<leftarrow> walk_path (drop 1 p) [] 2 s;
             (if final \<noteq> []
              then do {
                (inum, s) \<leftarrow> path_to_inum_elem (final @ [0]) (word_of_int parent) s;
                Some ((inum, parent), s) }
              else Some ((parent, parent), s)) }
      else None) }"

end
