(* ===== verification/FS_Lookup.thy ===== *)
theory FS_Lookup
  imports FS_Path
begin

text \<open>
  Path resolution against directories as lists of entries: the lookup of a name is the first entry
  whose name agrees in its first 14 bytes (\<open>dir_lookup\<close>), and the walk of \<open>path_to_inum\<close> over a
  path is the walk over its components (\<open>path_walk\<close>).
\<close>

section \<open>One name in one directory\<close>

definition name_match :: "byte list \<Rightarrow> di_ent \<Rightarrow> bool" where
  "name_match name e \<longleftrightarrow> take 14 name = take 14 (cstr (de_name e))"

definition dir_lookup :: "di_ent list \<Rightarrow> byte list \<Rightarrow> int" where
  "dir_lookup es name = (case List.find (name_match name) es of Some e \<Rightarrow> uint (de_inum e) | None \<Rightarrow> -1)"

text \<open>What a lookup leaves behind: the disk and the pending error as they were.\<close>

definition same_disk :: "fs \<Rightarrow> fs \<Rightarrow> bool" where
  "same_disk s s' \<longleftrightarrow> (\<exists>b A. length A = ARR_BYTES \<and> s' = s\<lparr>iblockbuf := b, d_arr := A\<rparr>)"

lemma same_disk_refl: "fs_ok s \<Longrightarrow> same_disk s s"
  unfolding same_disk_def by (intro exI[of _ "iblockbuf s"] exI[of _ "d_arr s"]) (simp add: fs_ok_def)

lemma same_disk_trans: "same_disk s s' \<Longrightarrow> same_disk s' s'' \<Longrightarrow> same_disk s s''"
  unfolding same_disk_def by (elim exE conjE) (simp, blast)

lemma same_disk_frame:
  assumes "same_disk s s'"
  shows "fs_ok s \<Longrightarrow> fs_ok s'" "node_ok k s' i = node_ok k s i" "dir_entries s' i = dir_entries s i"
    "entries_of s' i = entries_of s i" "pages_of k s' i = pages_of k s i" "nodes_of k s' i = nodes_of k s i"
    "free_inodes s' = free_inodes s" "free_list s' = free_list s" "ERRNO s' = ERRNO s" "file_blk s' = file_blk s"
    "inode_at s' i = inode_at s i"
proof -
  obtain b A where s': "length A = ARR_BYTES" "s' = s\<lparr>iblockbuf := b, d_arr := A\<rparr>" using assms by (auto simp: same_disk_def)
  then show "fs_ok s'" if "fs_ok s" using that by (auto simp: fs_ok_def[of s])
  show "node_ok k s' i = node_ok k s i" "entries_of s' i = entries_of s i" "pages_of k s' i = pages_of k s i"
    "nodes_of k s' i = nodes_of k s i" "dir_entries s' i = dir_entries s i"
    "free_inodes s' = free_inodes s" "free_list s' = free_list s" "ERRNO s' = ERRNO s" "file_blk s' = file_blk s"
    "inode_at s' i = inode_at s i"
    by (simp_all add: s'(2) dir_entries_def)
qed

lemma find_entry_eq:
  assumes "readable 14 path" "\<forall>j\<in>set is. 16 * j + 16 \<le> length d"
  shows "find_entry is path d = Some (dir_lookup (map (d_ent d) is) (cstr path))"
  using assms(2)
proof (induction "is")
  case (Cons i "is")
  have "length (de_name (d_ent d i)) = 14" using Cons.prems by (auto simp: d_ent_def di_ent_of_def min_def)
  then have "readable 14 (de_name (d_ent d i))" by (simp add: readable_def)
  then have "strncmp0 path (de_name (d_ent d i)) 14 = Some (name_match (cstr path) (d_ent d i))"
    using strncmp0_readable[OF assms(1)] by (simp add: name_match_def)
  then show ?case using Cons by (auto simp: dir_lookup_def)
qed (simp add: dir_lookup_def)

definition dot :: "byte list" where "dot = [46]"

lemma elem_any:
  assumes s: "disk_ok s" "arrays_ok s" and i: "2 \<le> i" "i < 65536" "pages_of Dnode s i \<le> MAX_PAGES"
    and c: "terminated path" "cstr path \<noteq> dot"
  shows "\<exists>s'. path_to_inum_elem path (of_nat i) s = Some (dir_lookup (dir_entries s i) (cstr path), s') \<and> same_disk s s'"
proof -
  obtain b A where A: "dnode_listing (of_nat i) s = (entries_of s i, s\<lparr>iblockbuf := b, d_arr := A\<rparr>)" "length A = ARR_BYTES"
    "map (d_ent A) [0..<entries_of s i] = dir_entries s i" using dir_listing_any[OF s i(2,3)] by blast
  have n: "entries_of s i \<le> 2086"
    using i(3) npages_le[of Dnode "entries_of s i" MAX_PAGES] by (simp add: pages_of_def ptr_at_def)
  have "\<not> uint (of_nat i :: ushort) < 2"
    using i(1) by (simp only: uint_of_nat_ushort[OF i(2)])
  moreover have "strcmp0 path [46, 0] = Some False"
    using strcmp0_terminated[OF c(1), of "[46, 0]"] c(2) by (simp add: dot_def terminated_def cstr_Cons)
  moreover have "find_entry [0..<entries_of s i] path A = Some (dir_lookup (dir_entries s i) (cstr path))"
    using find_entry_eq[of path "[0..<entries_of s i]" A] c(1) n A(2,3) by (auto simp: readable_def)
  ultimately show ?thesis using A(1,2) by (auto simp: path_to_inum_elem_def same_disk_def)
qed

definition lookup_in :: "fs \<Rightarrow> nat \<Rightarrow> byte list \<Rightarrow> int" where
  "lookup_in s i name = (if name = dot then int i else dir_lookup (dir_entries s i) name)"

lemma elem_ok:
  assumes "fs_ok s" "node_ok Dnode s i" "terminated path"
  shows "\<exists>s'. path_to_inum_elem path (of_nat i) s = Some (lookup_in s i (cstr path), s') \<and> same_disk s s'"
proof (cases "cstr path = dot")
  case True
  have i: "2 \<le> i" "i < 65536" using assms(2) by (simp_all add: node_ok_def)
  note u = uint_of_nat_ushort[OF i(2)]
  have "strcmp0 path [46, 0] = Some True"
    using strcmp0_terminated[OF assms(3), of "[46, 0]"] True by (simp add: dot_def terminated_def cstr_Cons)
  then show ?thesis using i u same_disk_refl[OF assms(1)] True by (simp add: path_to_inum_elem_def lookup_in_def)
next
  case False
  have "disk_ok s" "arrays_ok s" "2 \<le> i" "i < 65536" "pages_of Dnode s i \<le> MAX_PAGES"
    using assms(1,2) fs_ok_disk[OF assms(1)] by (simp_all add: fs_ok_def arrays_ok_def node_ok_def)
  from elem_any[OF this assms(3) False] show ?thesis using False by (simp add: lookup_in_def)
qed

section \<open>Paths\<close>

inductive path_walk :: "fs \<Rightarrow> int \<Rightarrow> byte list list \<Rightarrow> int \<Rightarrow> bool" for s where
  walk_here: "path_walk s r [] r"
| walk_down: "node_ok Dnode s i \<Longrightarrow> path_walk s (lookup_in s i c) cs r \<Longrightarrow> path_walk s (int i) (c # cs) r"

inductive_cases path_walk_ConsE: "path_walk s i (c # cs) r"
inductive_simps path_walk_Nil: "path_walk s i [] r"

text \<open>A component: not empty, no slash, no NUL; the text of a path from its components.\<close>

definition component :: "byte list \<Rightarrow> bool" where
  "component c \<longleftrightarrow> c \<noteq> [] \<and> slash \<notin> set c \<and> 0 \<notin> set c"

definition dirs_text :: "byte list list \<Rightarrow> byte list" where
  "dirs_text cs = concat (map (\<lambda>c. c @ [slash]) cs)"

definition path_text :: "byte list list \<Rightarrow> byte list \<Rightarrow> byte list" where
  "path_text cs c = slash # dirs_text cs @ c"

lemma walk_path_text: "slash \<notin> set c \<Longrightarrow> walk_path (c @ rest) cur inum s = walk_path rest (cur @ c) inum s"
  by (induction c arbitrary: cur) auto

lemma walk_dirs:
  assumes "path_walk s i cs r" "fs_ok t" "same_disk s t" "\<forall>c\<in>set cs. component c" "slash \<notin> set c"
  shows "\<exists>t'. walk_path (dirs_text cs @ c) [] i t = Some (r, c, t') \<and> same_disk s t' \<and> fs_ok t'"
  using assms
proof (induction arbitrary: t rule: path_walk.induct)
  case (walk_here r)
  then show ?case using walk_path_text[of c "[]"] by (simp add: dirs_text_def)
next
  case (walk_down i d cs r)
  have d: "component d" using walk_down.prems(3) by simp
  have "terminated (d @ [0])" "cstr (d @ [0]) = d"
    using d by (simp_all add: component_def terminated_def)
  from elem_ok[OF walk_down.prems(1) _ this(1), of i, unfolded this(2)] walk_down.hyps(1) same_disk_frame[OF walk_down.prems(2)]
  obtain t' where t': "path_to_inum_elem (d @ [0]) (of_nat i) t = Some (lookup_in t i d, t')" "same_disk t t'" by auto
  have l: "lookup_in t i d = lookup_in s i d" using same_disk_frame[OF walk_down.prems(2)] by (simp add: lookup_in_def)
  have "fs_ok t'" "same_disk s t'"
    using t'(2) walk_down.prems(1,2) same_disk_frame(1) same_disk_trans by blast+
  from walk_down.IH[OF this] walk_down.prems(3,4) obtain t'' where
    "walk_path (dirs_text cs @ c) [] (lookup_in s i d) t' = Some (r, c, t'')" "same_disk s t''" "fs_ok t''" by auto
  then show ?case
    using walk_path_text[of d "slash # dirs_text cs @ c" "[]" "int i" t] d t'(1) l
    by (simp add: dirs_text_def component_def)
qed

lemma path_to_inum_walk:
  assumes cs: "\<forall>d\<in>set cs. component d" "component c" and tr: "trail = [] \<or> trail = [slash]"
    and len: "length (path_text cs c @ trail) < PATH_MAX"
    and w: "walk_path (dirs_text cs @ c) [] 2 s = Some (p, c, t)" "path_to_inum_elem (c @ [0]) (word_of_int p) t = Some (x, s')"
  shows "path_to_inum (path_text cs c @ trail @ 0 # r) s = Some ((x, p), s')"
proof -
  let ?p = "path_text cs c @ trail"
  have c: "c \<noteq> []" "slash \<notin> set c" "0 \<notin> set c" using cs(2) by (simp_all add: component_def)
  have sl: "slash \<noteq> 0" by (simp add: slash_def)
  have "0 \<notin> set (dirs_text cs)" using cs(1) sl by (auto simp: dirs_text_def component_def)
  then have nn: "0 \<notin> set ?p" using c(3) tr sl by (auto simp: path_text_def)
  have str: "cstr (?p @ 0 # r) = ?p" "c_strlen (?p @ 0 # r) = Some (length ?p)"
    using nn by (simp_all add: c_strlen_def del: append_assoc)
  have cut: "(if last ?p = slash then butlast ?p else ?p) = path_text cs c"
    using tr
  proof
    assume "trail = []"
    moreover have "last c \<noteq> slash" using c(1,2) last_in_set by metis
    ultimately show ?thesis using c(1) by (simp add: path_text_def)
  qed (simp only: last_snoc butlast_snoc if_True simp_thms)
  have "length ?p \<noteq> 0" "drop 1 (path_text cs c) = dirs_text cs @ c" by (simp_all add: path_text_def)
  then show ?thesis
    using str cut len w c(1) by (auto simp: path_to_inum_def Let_def simp del: append_assoc simp flip: append_assoc)
qed

lemma path_to_inum_ok:
  assumes s: "fs_ok s" and cs: "\<forall>d\<in>set cs. component d" "component c" and tr: "trail = [] \<or> trail = [slash]"
    and len: "length (path_text cs c @ trail) < PATH_MAX" and w: "path_walk s 2 cs (int i)" "node_ok Dnode s i"
  shows "\<exists>s'. path_to_inum (path_text cs c @ trail @ 0 # r) s = Some ((lookup_in s i c, int i), s') \<and> same_disk s s'"
proof -
  have c: "slash \<notin> set c" "0 \<notin> set c" using cs(2) by (simp_all add: component_def)
  from walk_dirs[OF w(1) s same_disk_refl[OF s] cs(1) c(1)] obtain t where t:
    "walk_path (dirs_text cs @ c) [] 2 s = Some (int i, c, t)" "same_disk s t" "fs_ok t" by blast
  have "terminated (c @ [0])" "cstr (c @ [0]) = c" using c(2) by (simp_all add: terminated_def)
  from elem_ok[OF t(3) _ this(1), of i, unfolded this(2)] w(2) same_disk_frame[OF t(2)] obtain s' where
    e: "path_to_inum_elem (c @ [0]) (word_of_int (int i)) t = Some (lookup_in s i c, s')" "same_disk t s'" by (auto simp: lookup_in_def)
  have "same_disk s s'" using t(2) e(2) by (rule same_disk_trans)
  then show ?thesis using path_to_inum_walk[OF cs tr len t(1) e(1)] by blast
qed

text \<open>A component that is missing: the walk goes on with -1, and as an inode number that is 65535.\<close>

lemma path_walk_append: "path_walk s a cs b \<Longrightarrow> path_walk s b ds r \<Longrightarrow> path_walk s a (cs @ ds) r"
  by (induction rule: path_walk.induct) (simp_all add: walk_down)

lemma path_to_inum_missing:
  assumes s: "fs_ok s" and cs: "\<forall>d\<in>set cs. component d" "component m" "component c" "c \<noteq> dot"
    and len: "length (path_text (cs @ [m]) c) < PATH_MAX" and w: "path_walk s 2 cs (int i)" "node_ok Dnode s i" "lookup_in s i m = -1"
    and p: "pages_of Dnode s 65535 \<le> MAX_PAGES"
  shows "\<exists>s'. path_to_inum (path_text (cs @ [m]) c @ 0 # r) s = Some ((dir_lookup (dir_entries s 65535) c, -1), s') \<and> same_disk s s'"
proof -
  have c: "slash \<notin> set c" "0 \<notin> set c" using cs(3) by (simp_all add: component_def)
  have ds: "\<forall>d\<in>set (cs @ [m]). component d" using cs(1,2) by simp
  have "path_walk s (int i) [m] (-1)" using walk_down[OF w(2), of m "[]"] w(3) by (simp add: walk_here)
  from path_walk_append[OF w(1) this] have pw: "path_walk s 2 (cs @ [m]) (-1)" .
  from walk_dirs[OF pw s same_disk_refl[OF s] ds c(1)] obtain t where t:
    "walk_path (dirs_text (cs @ [m]) @ c) [] 2 s = Some (-1, c, t)" "same_disk s t" "fs_ok t" by blast
  note d = same_disk_frame[OF t(2)]
  have "terminated (c @ [0])" "cstr (c @ [0]) = c" using c(2) by (simp_all add: terminated_def)
  moreover have "disk_ok t" "arrays_ok t" using t(3) fs_ok_disk by (auto simp: fs_ok_def arrays_ok_def)
  ultimately obtain s' where s': "path_to_inum_elem (c @ [0]) (of_nat 65535) t = Some (dir_lookup (dir_entries s 65535) c, s')" "same_disk t s'"
    using elem_any[of t 65535 "c @ [0]"] p cs(4) d by auto
  have "(word_of_int (-1) :: ushort) = of_nat 65535" by simp
  then have "path_to_inum_elem (c @ [0]) (word_of_int (-1)) t = Some (dir_lookup (dir_entries s 65535) c, s')" using s'(1) by (simp only:)
  from path_to_inum_walk[OF ds cs(3) _ _ t(1) this, of "[]" r] len have
    "path_to_inum (path_text (cs @ [m]) c @ 0 # r) s = Some ((dir_lookup (dir_entries s 65535) c, -1), s')" by simp
  moreover have "same_disk s s'" using t(2) s'(2) by (rule same_disk_trans)
  ultimately show ?thesis by blast
qed

lemma path_root: "path_to_inum (slash # 0 # r) s = Some ((2, 2), s)"
  by (simp add: path_to_inum_def c_strlen_def terminated_def cstr_Cons slash_def)

section \<open>Properties\<close>

text \<open>
  C6. Path resolution: path_to_inum of an absolute path, with or without a trailing slash, walks from
  the root over the components, each looked up as the first entry of its directory that agrees
  with it in 14 bytes, and yields the number of the last one (-1 if it has no entry) together
  with its directory; the disk and the pending error are untouched.
\<close>

theorem path_to_inum_resolves:
  assumes "fs_ok s" "\<forall>d\<in>set cs. component d" "component c" "trail = [] \<or> trail = [slash]"
    and "length (path_text cs c @ trail) < PATH_MAX" "path_walk s 2 cs (int i)" "node_ok Dnode s i"
  shows "\<exists>s'. path_to_inum (path_text cs c @ trail @ 0 # r) s = Some ((lookup_in s i c, int i), s') \<and> same_disk s s'"
  by (rule path_to_inum_ok[OF assms])

lemma root_lookup:
  "c \<noteq> [] \<Longrightarrow> c \<noteq> dot \<Longrightarrow> c \<noteq> [46, 46] \<Longrightarrow> lookup_in mounted 2 c = -1"
proof -
  assume c: "c \<noteq> []" "c \<noteq> dot" "c \<noteq> [46, 46]"
  have "take 14 c \<noteq> d" if "length d < 14" "c \<noteq> d" for d
    using that by (metis length_take min_def not_le nat_less_le take_all)
  from this[of "[46]"] this[of "[46, 46]"] c(2,3)
  have "\<not> name_match c \<lparr>de_name = dot_name, de_inum = 2\<rparr>" "\<not> name_match c \<lparr>de_name = dotdot_name, de_inum = 2\<rparr>"
    by (simp_all add: name_match_def dot_name_def dotdot_name_def cstr_Cons zeros_def dot_def)
  then show ?thesis using c(2) by (simp add: lookup_in_def dir_lookup_def root_entries)
qed

theorem path_to_inum_resolves_witness:
  "\<exists>s'. path_to_inum [47, 46, 47, 97, 47, 0] mounted = Some ((-1, 2), s') \<and> same_disk mounted s'"
proof -
  have l: "lookup_in mounted 2 dot = int 2" by (simp add: lookup_in_def)
  have "path_walk mounted (int 2) [dot] (int 2)"
    by (rule walk_down[OF node_ok_root(1)]) (simp add: l walk_here)
  then have "path_walk mounted 2 [dot] (int 2)" by simp
  from path_to_inum_resolves[OF mounted(1) _ _ _ _ this node_ok_root(1), of "[97]" "[slash]" "[]"]
  show ?thesis using root_lookup[of "[97]"]
    by (simp add: component_def dot_def slash_def path_text_def dirs_text_def)
qed

text \<open>
  C36. A directory missing on the way is not noticed: when the component \<open>m\<close> has no entry, the walk goes on with -1, and the next
  component is looked up in inode 65535, whose bytes are the last quarter of data block 16383. With the contents of a
  file there, the result is what an entry in them says. (At most six entries, so that they are in the inode itself.)
\<close>

theorem missing_component_reads_data:
  assumes "fs_ok s" "\<forall>d\<in>set cs. component d" "component m" "component c" "c \<noteq> dot"
    and "length (path_text (cs @ [m]) c) < PATH_MAX" "path_walk s 2 cs (int i)" "node_ok Dnode s i" "lookup_in s i m = -1"
    and "nd = mget 384 128 (file_blk s 16383)" "unat (md_size nd) \<le> 6"
  shows "\<exists>s'. path_to_inum (path_text (cs @ [m]) c @ 0 # r) s
       = Some ((dir_lookup (map (idir_dinum nd) [0..<unat (md_size nd)]) c, -1), s') \<and> same_disk s s'"
proof -
  have nd: "inode_at s 65535 = nd" using assms(10) by (simp add: inode_at_def)
  have n: "entries_of s 65535 = unat (md_size nd)" "pages_of Dnode s 65535 = 0"
    using assms(11) by (simp_all add: entries_of_def pages_of_def nd npages_def)
  have "d_ent (mget 16 96 nd) j = idir_dinum nd j" if "j < 6" for j
    using that by (simp add: d_ent_def idir_dinum_def mem_simps)
  then have "dir_entries s 65535 = map (idir_dinum nd) [0..<unat (md_size nd)]"
    using assms(11) by (simp add: dir_entries_def n nd node_bytes_def)
  then show ?thesis using path_to_inum_missing[OF assms(1-9)] n(2) by simp
qed

text \<open>A fresh disk with the image of a directory at the end of data block 16383: one entry, \<open>a\<close> for inode 7.\<close>

definition forged_node :: inode_t where
  "forged_node = set_idir_dinum 0 \<lparr>de_name = 97 # zeros 13, de_inum = 7\<rparr> (set_size 1 (zeros 128))"

definition forged :: fs where
  "forged = mounted\<lparr>file_blk := (file_blk mounted)(16383 := mput 384 forged_node (file_blk mounted 16383))\<rparr>"

lemma chain_same_links: "\<forall>n. free_block_next (blk' n) = free_block_next (blk n) \<Longrightarrow> chain blk' h bs = chain blk h bs"
  by (induction bs arbitrary: h) simp_all

lemma forged_ok: "fs_ok forged" "mget 384 128 (file_blk forged 16383) = forged_node"
proof -
  have d: "disk_ok mounted" using mounted(1) by (rule fs_ok_disk)
  have l: "length forged_node = 128" "length (file_blk mounted 16383) = 512" using d by (simp_all add: forged_node_def layout_defs disk_simps)
  then show "mget 384 128 (file_blk forged 16383) = forged_node" by (simp add: forged_def mem_simps)
  have fb: "fb_ready mounted" "fb_list_ok mounted (free_list mounted)" using mounted(1) unfolding fs_ok_def by (blast intro: fb_inv_ready fb_inv_list)+
  have "free_block_next (file_blk forged n) = free_block_next (file_blk mounted n)" for n
    using l by (simp add: forged_def free_block_next_def get_int_def get32_def mem_simps)
  then have "fb_list_ok forged (free_list mounted)"
    using fb(2) chain_same_links[of "file_blk forged" "file_blk mounted"] by (simp add: fb_list_ok_def) (simp add: forged_def)
  moreover have r: "fb_ready forged" using fb(1) l by (simp add: forged_def ok_defs)
  ultimately have f: "fb_inv forged" "free_list forged = free_list mounted" using fb_invI by blast+
  have "free_inodes forged = free_inodes mounted" by (simp add: free_inodes_def forged_def)
  then show "fs_ok forged" using f mounted(1) r by (simp add: fs_ok_def ib_inv_def fb_ready_def) (simp add: forged_def)
qed

lemma forged_root: "node_ok Dnode forged 2" "dir_entries forged 2 = dir_entries mounted 2"
proof -
  have i: "inode_at forged 2 = inode_at mounted 2" by (simp add: forged_def inode_at_def)
  have e: "entries_of forged 2 = 2" using root_entries(2) i by (simp add: entries_of_def)
  have f: "free_inodes forged = free_inodes mounted" by (simp add: free_inodes_def forged_def)
  have p: "pages_of Dnode forged 2 = 0" "pages_of Dnode mounted 2 = 0" using e root_entries(2) by (simp_all add: pages_of_def npages_def)
  have "node_keys 0 = {}" by (auto simp: node_keys_def ndouble_def split: sum.splits)
  then show "node_ok Dnode forged 2" using node_ok_root(1) i f p by (simp add: node_ok_def nodes_of_def)
  show "dir_entries forged 2 = dir_entries mounted 2" by (simp add: dir_entries_def i e root_entries(2) p node_bytes_def)
qed

theorem missing_component_reads_data_witness:
  "\<exists>s'. path_to_inum (path_text ([] @ [[120]]) [97] @ [0]) forged = Some ((7, -1), s') \<and> same_disk forged s'"
proof -
  have n: "unat (md_size forged_node) = 1" "idir_dinum forged_node 0 = \<lparr>de_name = 97 # zeros 13, de_inum = 7\<rparr>"
    by (simp_all add: forged_node_def layout_defs mem_simps)
  have c: "\<forall>d\<in>set []. component d" "component [120]" "component [97]" "[97] \<noteq> dot" "length (path_text ([] @ [[120]]) [97]) < PATH_MAX"
    by (simp_all add: component_def slash_def dot_def path_text_def dirs_text_def)
  have w: "path_walk forged 2 [] (int 2)" using walk_here[of forged 2] by simp
  have l: "lookup_in forged 2 [120] = -1"
    using root_lookup[of "[120]"] by (simp add: lookup_in_def dot_def forged_root(2))
  have "unat (md_size forged_node) \<le> 6" using n by simp
  from missing_component_reads_data[OF forged_ok(1) c w forged_root(1) l forged_ok(2)[symmetric] this, of "[]"] show ?thesis
    by (simp add: n dir_lookup_def name_match_def cstr_Cons zeros_def)
qed

end
