(* ===== verification/FS_NewNode.thy ===== *)
theory FS_NewNode
  imports FS_Entries
begin

text \<open>
  A new node: an inode taken from the bitmap and initialised by \<open>fnode_init\<close> or \<open>dnode_init\<close> is a
  well-formed node without pages, and taking it changes nothing else.
\<close>

section \<open>A new inode\<close>

lemma npages_0 [simp]: "npages k 0 = 0" "npages Dnode 2 = 0"
  by (cases k) (simp_all add: npages_def)

lemma node_keys_0 [simp]: "node_keys 0 = {}"
  by (auto simp: node_keys_def ndouble_def split: sum.splits)

text \<open>An inode from the bitmap holding a node without pages.\<close>

lemma new_node:
  assumes s: "fs_ok s" "free_inodes s \<noteq> {}" and x: "x = Min (free_inodes s)"
    and nd: "length nd = INODE_SIZE" "md_ino nd = of_nat x" "npages k (unat (md_size nd)) = 0"
  shows "\<exists>s1. free_inode_pop s = (of_nat x, s1) \<and> fs_ok (inode_dump (int x) nd s1)
     \<and> free_inodes (inode_dump (int x) nd s1) = free_inodes s - {x} \<and> x \<in> free_inodes s
     \<and> node_ok k (inode_dump (int x) nd s1) x \<and> nodes_of k (inode_dump (int x) nd s1) x = {}
     \<and> inode_at (inode_dump (int x) nd s1) x = nd \<and> kept s {x} (inode_dump (int x) nd s1)"
proof -
  obtain b where b: "free_inode_pop s = (of_nat x, s\<lparr>file_blk := (file_blk s)(1024 := b)\<rparr>)"
    "fs_ok (s\<lparr>file_blk := (file_blk s)(1024 := b)\<rparr>)"
    "free_list (s\<lparr>file_blk := (file_blk s)(1024 := b)\<rparr>) = free_list s"
    "free_inodes (s\<lparr>file_blk := (file_blk s)(1024 := b)\<rparr>) = free_inodes s - {x}"
    using free_inode_pop_ok[OF s] unfolding x by blast
  let ?s1 = "s\<lparr>file_blk := (file_blk s)(1024 := b)\<rparr>" and ?t = "inode_dump (int x) nd (s\<lparr>file_blk := (file_blk s)(1024 := b)\<rparr>)"
  have xf: "x \<in> free_inodes s" using s(2) by (simp add: x finite_free_inodes)
  note r = free_inodes_range[OF s(1) xf]
  have xl: "0 < x" "x < 4096" "x < MAX_INODES" using r by simp_all
  have d: "disk_ok ?s1" using b(2) by (rule fs_ok_disk)
  note f = fs_ok_dump[OF b(2) xl(1,2) nd(1)]
  have at: "inode_at ?t m = (if m = x then nd else inode_at ?s1 m)" for m by (rule inode_at_dump[OF d xl(3) nd(1)])
  have "x div 4 \<le> 1024" using xl(2) by linarith
  then have "file_blk ?t m = file_blk s m" if "1024 < m" for m
    using file_blk_dump[OF d xl(3) nd(1), of m] that by simp
  then have "kept s {x} ?t" using f b(3) at by (simp add: kept_def)
  moreover have p: "pages_of k ?t x = 0" using at[of x] nd(3) by (simp add: pages_of_def entries_of_def)
  then have "nodes_of k ?t x = {}" by (simp add: nodes_of_def)
  then have "node_ok k ?t x" using r at[of x] nd(2) p f b(4) by (simp add: node_ok_def)
  ultimately show ?thesis using b(1,4) f xf at[of x] \<open>nodes_of k ?t x = {}\<close> by (intro exI[of _ ?s1]) simp
qed

lemma file_node_fields: "md_ino (file_node x p) = x" "md_size (file_node x p) = 0" "md_nlink (file_node x p) = 1"
  "md_fsize (file_node x p) = 0"
  by (simp_all add: file_node_def layout_defs mem_simps)

lemma file_node_isdir: "md_isdir (file_node x p) = 0"
  by (simp add: file_node_def layout_defs nth_mput put16_def put32_def)

lemma dir_node_ino: "md_ino (dir_node x p) = x"
  by (simp add: dir_node_def layout_defs mem_simps)

end
