(* ===== verification/FS_Stream.thy ===== *)
theory FS_Stream
  imports FS_Dir
begin

text \<open>
  File contents (\<open>prelude/stream.c\<close>): reading and writing a range of bytes through the block
  numbers that \<open>fnode_listing\<close> leaves in the static array \<open>f\<close>, and cutting a file down to a
  number of blocks. The numbers are \<open>int\<close>s; a sum that leaves the \<open>int\<close> range, an index
  outside \<open>f\<close> and a copy outside the work buffer are undefined behaviour. The work buffer is
  zero-filled by \<open>calloc\<close>, which is assumed to succeed.
\<close>

definition f_ent :: "byte list \<Rightarrow> nat \<Rightarrow> blknum_t" where
  "f_ent f i = get32 (4 * i) f"

text \<open>\<open>f[i]\<close> as the block number passed on: a \<open>blknum_t\<close> converted to \<open>int\<close>.\<close>

definition f_get :: "byte list \<Rightarrow> int \<Rightarrow> int option" where
  "f_get f i = (if 0 \<le> i \<and> 4 * nat i + 4 \<le> length f then Some (sint (f_ent f (nat i))) else None)"

definition f_put :: "int \<Rightarrow> int \<Rightarrow> byte list \<Rightarrow> byte list option" where
  "f_put i v f = (if 0 \<le> i \<and> 4 * nat i + 4 \<le> length f
                  then Some (put32 (4 * nat i) (word_of_int v) f) else None)"

definition int_ok :: "int \<Rightarrow> int option" where
  "int_ok v = (if c_int v = v then Some v else None)"

text \<open>A copy of \<open>bs\<close> to offset \<open>off\<close> of a work buffer, and the reverse.\<close>

definition buf_put :: "int \<Rightarrow> byte list \<Rightarrow> byte list \<Rightarrow> byte list option" where
  "buf_put off bs m = (if 0 \<le> off \<and> nat off + length bs \<le> length m then Some (mput (nat off) bs m) else None)"

definition buf_get :: "int \<Rightarrow> int \<Rightarrow> byte list \<Rightarrow> byte list option" where
  "buf_get off n m = (if 0 \<le> off \<and> 0 \<le> n \<and> nat off + nat n \<le> length m then Some (mget (nat off) (nat n) m) else None)"

text \<open>
  The first loop of both functions: \<open>for (i = b_start; i < b_size && i < b_end; i++)\<close> reads
  block \<open>f[i]\<close> into the next 512 bytes of the work buffer. \<open>m\<close> counts the iterations.
\<close>

primrec read_blocks :: "nat \<Rightarrow> int \<Rightarrow> nat \<Rightarrow> byte list \<Rightarrow> fs \<Rightarrow> byte list option" where
  "read_blocks 0 i ptr blkbuf s = Some blkbuf"
| "read_blocks (Suc m) i ptr blkbuf s = do {
     b \<leftarrow> f_get (f_arr s) i;
     blkbuf \<leftarrow> buf_put (int ptr) (snd (block_read b (mget ptr BLOCK_SIZE blkbuf) s)) blkbuf;
     read_blocks m (i + 1) (ptr + BLOCK_SIZE) blkbuf s }"

definition fstream_read :: "int \<Rightarrow> int \<Rightarrow> int \<Rightarrow> fs \<Rightarrow> ((int \<times> byte list) \<times> fs) option" where
  "fstream_read inum sz offset s =
     (let (b_size, s) = fnode_listing (word_of_int inum) s;
          ((_, _, f_size), s) = inode_get_attr_upc (word_of_int inum) s;
          b_start = offset sdiv int BLOCK_SIZE
      in do {
        e \<leftarrow> int_ok (offset + sz);
        let b_end = e sdiv int BLOCK_SIZE + 1;
        let blkbuf = zeros (nat (b_end - b_start) * BLOCK_SIZE);
        blkbuf \<leftarrow> read_blocks (nat (min (int b_size) b_end - b_start)) b_start 0 blkbuf s;
        rest \<leftarrow> int_ok (f_size - offset);
        let sz = (if rest < sz then rest else sz);
        let sz = (if 0 < sz then sz else 0);
        out \<leftarrow> buf_get (offset smod int BLOCK_SIZE) sz blkbuf;
        Some ((sz, out), s) })"

text \<open>
  The second loop of \<open>fstream_write\<close>, \<open>for (i = b_start; i < b_end && i < FENTRY_MAX_SIZE; i++)\<close>:
  an old block is overwritten, a new one allocated, and a failed allocation breaks out. The
  result is the value of \<open>i\<close> after the loop.
\<close>

primrec write_blocks :: "nat \<Rightarrow> int \<Rightarrow> nat \<Rightarrow> nat \<Rightarrow> byte list \<Rightarrow> fs \<Rightarrow> (int \<times> fs) option" where
  "write_blocks 0 i b_size ptr blkbuf s = Some (i, s)"
| "write_blocks (Suc m) i b_size ptr blkbuf s =
     (if i < int b_size
      then do {
        b \<leftarrow> f_get (f_arr s) i;
        write_blocks m (i + 1) b_size (ptr + BLOCK_SIZE) blkbuf
          (snd (block_write b (mget ptr BLOCK_SIZE blkbuf) s)) }
      else
        let (blknum, s) = free_block_allocate (Some (mget ptr BLOCK_SIZE blkbuf)) s
        in if blknum < 0 then Some (i, s)
           else do {
             f \<leftarrow> f_put i blknum (f_arr s);
             write_blocks m (i + 1) b_size (ptr + BLOCK_SIZE) blkbuf (s\<lparr>f_arr := f\<rparr>) })"

definition fstream_write :: "int \<Rightarrow> byte list \<Rightarrow> int \<Rightarrow> int \<Rightarrow> fs \<Rightarrow> (int \<times> fs) option" where
  "fstream_write inum buf sz offset s = do {
     e \<leftarrow> int_ok (offset + sz);
     e1 \<leftarrow> int_ok (e - 1);
     let b_start = offset sdiv int BLOCK_SIZE;
     let b_end = e1 sdiv int BLOCK_SIZE + 1;
     let (b_size, s) = fnode_listing (word_of_int inum) s;
     let ((_, _, fsize), s) = inode_get_attr_upc (word_of_int inum) s;
     let blkbuf = zeros (nat (b_end - b_start) * BLOCK_SIZE);
     blkbuf \<leftarrow> read_blocks (nat (min (int b_size) b_end - b_start)) b_start 0 blkbuf s;
     blkbuf \<leftarrow> (if 0 \<le> sz \<and> nat sz \<le> length buf
                then buf_put (offset smod int BLOCK_SIZE) (take (nat sz) buf) blkbuf else None);
     (i, s) \<leftarrow> write_blocks (nat (min b_end FENTRY_MAX_SIZE - b_start)) b_start b_size 0 blkbuf s;
     let b_size = (if i < int b_size then int b_size else i);
     let fsize = (if e < fsize then fsize else e);
     s \<leftarrow> fnode_listing_set (word_of_int inum) b_size (inode_set_attr_upc (word_of_int inum) None (Some fsize) s);
     let (retstat, s) = errno_pop s;
     Some (if retstat < 0 then retstat else sz, s) }"

text \<open>The loop of \<open>fstream_free\<close> over \<open>f[new_b_size], \<dots>, f[b_size - 1]\<close>.\<close>

primrec free_blocks :: "nat \<Rightarrow> int \<Rightarrow> fs \<Rightarrow> fs option" where
  "free_blocks 0 i s = Some s"
| "free_blocks (Suc m) i s = do {
     b \<leftarrow> f_get (f_arr s) i;
     free_blocks m (i + 1) (snd (free_block_push b s)) }"

definition fstream_free :: "int \<Rightarrow> int \<Rightarrow> fs \<Rightarrow> fs option" where
  "fstream_free inum new_b_size s =
     (let (b_size, s) = fnode_listing (word_of_int inum) s
      in do {
        s \<leftarrow> free_blocks (nat (int b_size - new_b_size)) new_b_size s;
        fnode_listing_set (word_of_int inum) new_b_size s })"

end
