(* ===== verification/FS_Files.thy ===== *)
theory FS_Files
  imports FS_NewNode FS_Stream
begin

text \<open>
  Files as byte sequences: the blocks of a file (\<open>file_blocks\<close>), its content (\<open>content\<close>), and the
  read path. \<open>fstream_read\<close> yields exactly the requested slice of the content.
\<close>

section \<open>Frames of the file array\<close>

lemma f_frame [simp]:
  "inode_at ((s :: fs)\<lparr>f_arr := a\<rparr>) n = inode_at s n"
  "free_inodes (s\<lparr>f_arr := a\<rparr>) = free_inodes s"
  "free_list (s\<lparr>f_arr := a\<rparr>) = free_list s"
  "disk_ok (s\<lparr>f_arr := a\<rparr>) = disk_ok s"
  "length a = ARR_BYTES \<Longrightarrow> length (f_arr s) = ARR_BYTES \<Longrightarrow> fs_ok (s\<lparr>f_arr := a\<rparr>) = fs_ok s"
  "node_num (s\<lparr>f_arr := a\<rparr>) nd = node_num s nd"
  "node_bytes (s\<lparr>f_arr := a\<rparr>) nd p = node_bytes s nd p"
  by (simp_all add: inode_at_def free_inodes_def free_list_def ok_defs fs_ok_def fb_inv_def fb_list_ok_def
      ib_inv_def node_num_cong_disk[of "s\<lparr>f_arr := a\<rparr>" s] node_bytes_cong_disk[of "s\<lparr>f_arr := a\<rparr>" s])

lemma node_f_frame [simp]:
  "entries_of ((s :: fs)\<lparr>f_arr := a\<rparr>) i = entries_of s i"
  "pages_of k (s\<lparr>f_arr := a\<rparr>) i = pages_of k s i"
  "nodes_of k (s\<lparr>f_arr := a\<rparr>) i = nodes_of k s i"
  "node_ok k (s\<lparr>f_arr := a\<rparr>) i = node_ok k s i"
  by (simp_all add: entries_of_def pages_of_def nodes_of_def node_ok_def)

section \<open>The blocks and the content of a file\<close>

definition file_blocks :: "'z hostdisk_scheme \<Rightarrow> nat \<Rightarrow> blknum_t list" where
  "file_blocks s i = map (f_ent (node_bytes s (inode_at s i) (pages_of Fnode s i))) [0..<entries_of s i]"

definition data_of :: "'z hostdisk_scheme \<Rightarrow> blknum_t list \<Rightarrow> byte list" where
  "data_of s bs = concat (map (\<lambda>b. file_blk s (unat b)) bs)"

definition fsize_of :: "'z hostdisk_scheme \<Rightarrow> nat \<Rightarrow> nat" where
  "fsize_of s i = unat (md_fsize (inode_at s i))"

definition content :: "'z hostdisk_scheme \<Rightarrow> nat \<Rightarrow> byte list" where
  "content s i = take (fsize_of s i) (data_of s (file_blocks s i))"

definition data_block :: "blknum_t \<Rightarrow> bool" where
  "data_block b \<longleftrightarrow> 1024 < unat b \<and> unat b < 32768"

text \<open>A well-formed file: its blocks are different data blocks in use, and cover its size.\<close>

definition file_ok :: "fs \<Rightarrow> nat \<Rightarrow> bool" where
  "file_ok s i \<longleftrightarrow> node_ok Fnode s i \<and> md_isdir (inode_at s i) = 0
     \<and> distinct (file_blocks s i)
     \<and> (\<forall>b\<in>set (file_blocks s i). data_block b \<and> uint b \<notin> set (free_list s))
     \<and> fsize_of s i \<le> 512 * entries_of s i"

lemma length_file_blocks [simp]: "length (file_blocks s i) = entries_of s i"
  by (simp add: file_blocks_def)

lemma length_data_of [simp]: "disk_ok s \<Longrightarrow> length (data_of s bs) = 512 * length bs"
  by (induction bs) (simp_all add: data_of_def disk_simps)

lemma data_of_append: "data_of s (xs @ ys) = data_of s xs @ data_of s ys"
  by (simp add: data_of_def)

lemma mget_data_of:
  assumes "disk_ok s" "j + m \<le> length bs"
  shows "mget (512 * j) (512 * m) (data_of s bs) = data_of s (take m (drop j bs))"
proof -
  have "data_of s bs = data_of s (take j bs) @ data_of s (take m (drop j bs)) @ data_of s (drop (j + m) bs)"
    by (metis append_assoc append_take_drop_id data_of_append take_add)
  moreover have "length (data_of s (take j bs)) = 512 * j" "length (data_of s (take m (drop j bs))) = 512 * m"
    using assms by simp_all
  ultimately show ?thesis by (simp add: mget_def)
qed

lemma f_ent_mput: "length B \<le> length d \<Longrightarrow> 4 * j + 4 \<le> length B \<Longrightarrow> f_ent (mput 0 B d) j = f_ent B j"
  by (simp add: f_ent_def get32_def mem_simps)

lemma f_ent_mget: "4 * j + 4 \<le> m \<Longrightarrow> f_ent (mget 0 m d) j = f_ent d j"
  by (simp add: f_ent_def mem_simps)

lemma fentry_bytes: "j < n \<Longrightarrow> 4 * j + 4 \<le> 96 + 128 * npages Fnode n"
  using npages_le[of Fnode n "npages Fnode n"] by (simp add: ptr_at_def)

lemma file_listing:
  assumes s: "fs_ok s" "node_ok Fnode s i"
  shows "\<exists>b A. fnode_listing (of_nat i) s = (entries_of s i, s\<lparr>iblockbuf := b, f_arr := A\<rparr>)
     \<and> length A = ARR_BYTES \<and> (\<forall>j<entries_of s i. f_ent A j = file_blocks s i ! j)"
proof -
  let ?B = "node_bytes s (inode_at s i) (pages_of Fnode s i)"
  have d: "disk_ok s" "arrays_ok s" "length (f_arr s) = ARR_BYTES"
    using s(1) fs_ok_disk by (auto simp: fs_ok_def arrays_ok_def)
  have w: "unat (of_nat i :: ushort) = i" "pages_of Fnode s i \<le> MAX_PAGES"
    using s(2) of_nat_ushort by (auto simp: node_ok_def)
  have B: "length ?B = 96 + 128 * pages_of Fnode s i" using d by simp
  then have le: "length ?B \<le> ARR_BYTES" using w(2) by simp
  have "f_ent (mput 0 ?B (f_arr s)) j = file_blocks s i ! j" if "j < entries_of s i" for j
    using f_ent_mput[of ?B "f_arr s" j] fentry_bytes[OF that] B d(3) le that by (simp add: pages_of_def file_blocks_def)
  moreover obtain b where "fnode_listing (of_nat i) s = (entries_of s i, s\<lparr>iblockbuf := b, f_arr := mput 0 ?B (f_arr s)\<rparr>)"
    using fnode_listing_eq[OF d(1,2), of "of_nat i"] w by (auto simp: entries_of_def pages_of_def)
  ultimately show ?thesis using le d(3) by (intro exI[of _ b] exI[of _ "mput 0 ?B (f_arr s)"]) simp
qed

section \<open>Reading\<close>

lemma int_sdiv: "int a sdiv int b = int (a div b)" "int a smod int b = int (a mod b)"
  by (cases a; cases b; simp add: signed_divide_int_def signed_modulo_int_def zdiv_int zmod_int)+

lemma sint_blknum:
  assumes "unat (w :: blknum_t) < 2147483648"
  shows "sint w = int (unat w)"
proof -
  have u: "uint w = int (unat w)" by (rule uint_nat)
  have "(2 :: int) ^ 31 = 2147483648" by simp
  then have "c_int (uint w) = uint w" using u assms by (intro c_int_id) linarith+
  moreover have "sint w = c_int (uint w)"
    using sint_word_of_int_c_int[of "uint w"] by (simp only: word_of_int_uint)
  ultimately show ?thesis using u by (simp only:)
qed

lemma data_block_int: "data_block b \<Longrightarrow> sint b = uint b"
  using sint_blknum[of b] by (simp add: data_block_def)

lemma data_block_uint: "data_block b \<longleftrightarrow> 1024 < uint b \<and> uint b < 32768"
  unfolding data_block_def uint_nat by linarith

lemma block_write_data:
  "disk_ok s \<Longrightarrow> data_block b \<Longrightarrow> length B = 512 \<Longrightarrow>
   block_write (uint b) B s = (512, s\<lparr>file_blk := (file_blk s)(unat b := B)\<rparr>)"
  using block_write_ok[of s "unat b" B] by (simp add: data_block_def)

lemma block_read_data: "disk_ok s \<Longrightarrow> data_block b \<Longrightarrow> block_read (uint b) x s = (512, file_blk s (unat b))"
  using block_read_ok[of s "unat b" x] by (simp add: data_block_def)

lemma f_get_block:
  assumes "\<forall>l<n. f_ent f l = bs ! l" "j < n" "n \<le> 8344" "length f = ARR_BYTES" "data_block (bs ! j)"
  shows "f_get f (int j) = Some (uint (bs ! j))"
  using assms data_block_int[of "bs ! j"] by (simp add: f_get_def)

lemma buf_put_nat: "buf_put (int p) bs m = (if p + length bs \<le> length m then Some (mput p bs m) else None)"
  by (simp add: buf_put_def)

lemma read_blocks_ok:
  assumes s: "disk_ok s" and f: "\<forall>l<length bs. f_ent (f_arr s) l = bs ! l" "length bs \<le> 8344" "length (f_arr s) = ARR_BYTES"
    and bs: "\<forall>b\<in>set bs. data_block b"
  shows "j + m \<le> length bs \<Longrightarrow> p + 512 * m \<le> length buf \<Longrightarrow>
    read_blocks m (int j) p buf s = Some (mput p (data_of s (take m (drop j bs))) buf)"
proof (induction m arbitrary: j p buf)
  case 0
  then show ?case by (simp add: data_of_def mput_def)
next
  case (Suc m)
  then have j: "j < length bs" by simp
  then have b: "data_block (bs ! j)" using bs by simp
  note rd = block_read_data[OF s b]
  let ?blk = "file_blk s (unat (bs ! j))" and ?rest = "data_of s (take m (drop (Suc j) bs))"
  have l: "length ?blk = 512" using s by (simp add: disk_simps)
  have e: "int (Suc j) = int j + 1" by simp
  have "read_blocks (Suc m) (int j) p buf s = read_blocks m (int (Suc j)) (p + 512) (mput p ?blk buf) s"
    using f_get_block[OF f(1) j f(2,3) b] rd l Suc.prems(2) unfolding e by (simp add: buf_put_nat)
  also have "\<dots> = Some (mput (p + 512) ?rest (mput p ?blk buf))"
    by (rule Suc.IH) (use Suc.prems l in simp_all)
  also have "mput (p + 512) ?rest (mput p ?blk buf) = mput p (?blk @ ?rest) buf"
    using mput_append_step[of p ?blk ?rest buf] l Suc.prems s by (simp add: min_def)
  also have "?blk @ ?rest = data_of s (take (Suc m) (drop j bs))"
    using j by (simp add: data_of_def Cons_nth_drop_Suc[symmetric])
  finally show ?case .
qed

lemma div_512: "a < 512 * b \<Longrightarrow> a div 512 < (b::nat)"
  by (simp add: less_mult_imp_div_less mult.commute)

text \<open>The size that \<open>inode_get_attr_upc\<close> reports of a file.\<close>

lemma get_attr_file:
  assumes "fs_ok s" "node_ok Fnode s i" "md_isdir (inode_at s i) = 0" "fsize_of s i < 2147483648"
  shows "\<exists>b m l. inode_get_attr_upc (of_nat i) s = ((m, l, int (fsize_of s i)), s\<lparr>iblockbuf := b\<rparr>)"
  using sint_blknum[of "md_fsize (inode_at s i)"] assms(2-4) fs_ok_disk[OF assms(1)] of_nat_ushort[OF assms(2)]
  by (simp add: inode_get_attr_upc_def inode_load_ushort Let_def fsize_of_def) blast

text \<open>The slice of the work buffer that is copied out is the slice of the data.\<close>

lemma slice_window:
  assumes "length D = 512 * n" "b = o' div 512" "o' + z \<le> 512 * n" "o' + z \<le> 512 * e" "b \<le> n" "0 < z"
  shows "o' mod 512 + z \<le> 512 * (min n e - b)"
    "mget (o' mod 512) z (mget (512 * b) (512 * (min n e - b)) D) = mget o' z D"
proof -
  have o: "o' = 512 * b + o' mod 512" using assms(2) by simp
  have "o' + z \<le> 512 * min n e" using assms(3,4) by (simp add: min_def)
  then show le: "o' mod 512 + z \<le> 512 * (min n e - b)" using o by (simp add: diff_mult_distrib2)
  show "mget (o' mod 512) z (mget (512 * b) (512 * (min n e - b)) D) = mget o' z D"
    using mget_mget[OF le, of "512 * b" D] o by simp
qed

lemma mget_take: "mget a n (take k xs) = mget a (min n (k - a)) xs"
  by (simp add: mget_def drop_take min.commute)

lemma fstream_read_ok:
  assumes s: "fs_ok s" and i: "file_ok s i" and o: "o' + z < 2147483648" and fz: "fsize_of s i < 2147483648"
  shows "\<exists>b A. fstream_read (int i) (int z) (int o') s
     = Some ((int (length (mget o' z (content s i))), mget o' z (content s i)), s\<lparr>iblockbuf := b, f_arr := A\<rparr>)
     \<and> length A = ARR_BYTES"
proof -
  let ?n = "entries_of s i" and ?F = "fsize_of s i"
  have nok: "node_ok Fnode s i" "md_isdir (inode_at s i) = 0" "?F \<le> 512 * ?n" using i by (simp_all add: file_ok_def)
  obtain b A where A: "fnode_listing (of_nat i) s = (?n, s\<lparr>iblockbuf := b, f_arr := A\<rparr>)" "length A = ARR_BYTES"
    "\<forall>j<?n. f_ent A j = file_blocks s i ! j" using file_listing[OF s nok(1)] by blast
  let ?t = "s\<lparr>iblockbuf := b, f_arr := A\<rparr>"
  have fl: "length (f_arr s) = ARR_BYTES" using s by (simp add: fs_ok_def)
  have t: "fs_ok ?t" "node_ok Fnode ?t i" "fsize_of ?t i = ?F" using s nok(1) A(2) fl by (simp_all add: fsize_of_def)
  obtain b' m l where at: "inode_get_attr_upc (of_nat i) ?t = ((m, l, int ?F), ?t\<lparr>iblockbuf := b'\<rparr>)"
    using get_attr_file[OF t(1,2)] nok(2) fz t(3) by auto
  let ?u = "?t\<lparr>iblockbuf := b'\<rparr>"
  have d: "disk_ok ?u" using fs_ok_disk[OF t(1)] by simp
  have n: "?n \<le> 8344" using nok(1) npages_le[of Fnode ?n MAX_PAGES] by (simp add: node_ok_def pages_of_def ptr_at_def)
  define q e D z' where "q = o' div 512" and "e = (o' + z) div 512 + 1" and "D = data_of s (file_blocks s i)"
    and "z' = min z (?F - o')"
  define buf where "buf = zeros (nat (int e - int q) * 512)"
  have q: "q < e" by (simp add: q_def e_def div_le_mono le_imp_less_Suc)
  have bl: "length buf = 512 * (e - q)" by (simp add: buf_def nat_minus_as_int)
  have D: "length D = 512 * ?n" "mget o' z (content s i) = mget o' z' D"
    using fs_ok_disk[OF s] by (simp_all add: D_def z'_def content_def mget_take)
  have blk: "\<forall>b\<in>set (file_blocks s i). data_block b" using i by (simp add: file_ok_def)
  let ?m = "nat (min (int ?n) (int e) - int q)"
  have "\<exists>B. read_blocks ?m (int q) 0 buf ?u = Some B \<and> length B = length buf \<and> (0 < z' \<longrightarrow> mget (o' mod 512) z' B = mget o' z' D)"
  proof (cases "q \<le> ?n")
    case True
    define m where "m = min ?n e - q"
    have m: "?m = m" using True q unfolding m_def by linarith
    have w: "q + m \<le> ?n" "512 * m \<le> length buf" using bl True unfolding m_def by auto
    let ?W = "data_of s (take m (drop q (file_blocks s i)))"
    have W: "length ?W = 512 * m" "?W = mget (512 * q) (512 * m) D"
      using w fs_ok_disk[OF s] by (simp_all add: D_def mget_data_of)
    have "data_of ?u xs = data_of s xs" for xs by (simp add: data_of_def)
    then have "read_blocks ?m (int q) 0 buf ?u = Some (mput 0 ?W buf)"
      unfolding m using read_blocks_ok[OF d, of "file_blocks s i" q m 0 buf] A(2,3) n blk w by simp
    moreover have "mget (o' mod 512) z' (mput 0 ?W buf) = mget o' z' D" if z: "0 < z'"
    proof -
      have le: "o' + z' \<le> 512 * ?n" "o' + z' \<le> 512 * e"
        using z nok(3) by (auto simp: z'_def e_def)
      note sw = slice_window[OF D(1) q_def le True z]
      then show ?thesis using W w(2) by (simp add: m_def mget_mput_in)
    qed
    ultimately show ?thesis using W w(2) by simp
  next
    case False
    then have "?F \<le> o'" using nok(3) by (simp add: q_def)
    then show ?thesis using False by (simp add: z'_def)
  qed
  then obtain B where B: "read_blocks ?m (int q) 0 buf ?u = Some B" "length B = length buf"
    "0 < z' \<longrightarrow> mget (o' mod 512) z' B = mget o' z' D" by blast
  have zz: "(if 0 < (if int ?F - int o' < int z then int ?F - int o' else int z)
      then (if int ?F - int o' < int z then int ?F - int o' else int z) else 0) = int z'"
    by (auto simp: z'_def min_def)
  have fit: "o' mod 512 + z' \<le> length B"
  proof -
    have "o' = 512 * q + o' mod 512" "o' + z < 512 * e" by (simp_all add: q_def e_def)
    moreover have "z' \<le> z" by (simp add: z'_def)
    ultimately show ?thesis unfolding B(2) bl diff_mult_distrib2 by linarith
  qed
  have "buf_get (int (o' mod 512)) (int z') B = Some (mget o' z' D)"
    using fit B(3) by (cases "z' = 0") (simp_all add: buf_get_def mget_def)
  moreover have "int_ok (int o' + int z) = Some (int (o' + z))" using o by (simp add: int_ok_def c_int_id)
  moreover have "int_ok (int ?F - int o') = Some (int ?F - int o')" using o fz by (simp add: int_ok_def c_int_id)
  moreover have "int (length (mget o' z' D)) = int z'" using nok(3) D(1) by (simp add: z'_def)
  moreover have "int o' sdiv 512 = int q" "(int o' + int z) sdiv 512 + 1 = int e" "int o' smod 512 = int (o' mod 512)"
    using int_sdiv[of o' 512] int_sdiv(1)[of "o' + z" 512] by (simp_all add: q_def e_def)
  ultimately show ?thesis
    using A(1,2) at B(1) zz unfolding D(2)
    by (intro exI[of _ b'] exI[of _ A]) (simp add: fstream_read_def buf_def Let_def)
qed

end
