(* ===== verification/FS_FileWrite.thy ===== *)
theory FS_FileWrite
  imports FS_Files
begin

text \<open>
  Writing files: \<open>fstream_write\<close> overwrites the blocks a file has, allocates the others from the free
  list, and leaves a file whose content is the old one with the written range replaced.
\<close>

section \<open>Single steps\<close>

text \<open>Blocks other than 0 and outside \<open>B\<close>, and the inodes beside the superblock, are unchanged.\<close>

definition data_kept :: "fs \<Rightarrow> nat set \<Rightarrow> fs \<Rightarrow> bool" where
  "data_kept s B s' \<longleftrightarrow> (\<forall>b. b \<noteq> 0 \<and> b \<notin> B \<longrightarrow> file_blk s' b = file_blk s b)
     \<and> mget 128 384 (file_blk s' 0) = mget 128 384 (file_blk s 0)
     \<and> ERRNO s' = ERRNO s \<and> d_arr s' = d_arr s"

lemma data_kept_mono: "data_kept s A s' \<Longrightarrow> A \<subseteq> B \<Longrightarrow> data_kept s B s'"
  unfolding data_kept_def by blast

lemma data_kept_trans: "data_kept s A s' \<Longrightarrow> data_kept s' B s'' \<Longrightarrow> data_kept s (A \<union> B) s''"
  by (auto simp: data_kept_def)

lemma data_kept_inode:
  assumes "data_kept s B s'" "\<forall>b\<in>B. 1024 < b" "0 < m" "m < 4096"
  shows "inode_at s' m = inode_at s m"
proof (cases "m div 4 = 0")
  case True
  then have "m mod 4 = m" "m < 4" by auto
  then have "mget (128 * (m mod 4)) 128 b = mget (128 * m - 128) 128 (mget 128 384 b)" for b :: "byte list"
    using assms(3) mget_mget[of "128 * m - 128" 128 384 128 b] by simp
  then show ?thesis using assms(1) True by (simp add: inode_at_def data_kept_def)
next
  case False
  have "m div 4 \<notin> B" using assms(2,4) by force
  then show ?thesis using assms(1) False by (simp add: inode_at_def data_kept_def)
qed

lemma data_kept_free: "data_kept s B s' \<Longrightarrow> \<forall>b\<in>B. 1024 < b \<Longrightarrow> free_inodes s' = free_inodes s"
  by (auto simp: data_kept_def free_inodes_def)

lemma data_kept_node:
  assumes k: "data_kept s B u" "\<forall>b\<in>B. 1024 < b" and i: "node_ok k s i"
  shows "node_ok k u i" "inode_at u i = inode_at s i" "nodes_of k u i = nodes_of k s i"
    "node_bytes u (inode_at s i) (pages_of k s i) = node_bytes s (inode_at s i) (pages_of k s i)" "free_inodes u = free_inodes s"
proof -
  show f: "free_inodes u = free_inodes s" by (rule data_kept_free[OF k])
  have "({i} \<union> nodes_of k s i) \<inter> ({0} \<union> free_inodes s) = {}" using i by (auto simp: node_ok_def)
  moreover have "\<forall>m<4096. m \<notin> {0} \<union> free_inodes s \<longrightarrow> inode_at u m = inode_at s m" using data_kept_inode[OF k] by simp
  moreover have "free_inodes u \<subseteq> {0} \<union> free_inodes s" using f by blast
  ultimately show "node_ok k u i" "inode_at u i = inode_at s i" "nodes_of k u i = nodes_of k s i"
    "node_bytes u (inode_at s i) (pages_of k s i) = node_bytes s (inode_at s i) (pages_of k s i)"
    using same_node[of "{0} \<union> free_inodes s" u s k i] i by blast+
qed

lemma data_write_ok:
  assumes s: "fs_ok s" and b: "data_block b" "uint b \<notin> set (free_list s)" and B: "length B = 512"
  shows "\<exists>s'. snd (block_write (uint b) B s) = s' \<and> fs_ok s' \<and> free_list s' = free_list s
     \<and> file_blk s' (unat b) = B \<and> data_kept s {unat b} s' \<and> f_arr s' = f_arr s"
proof -
  let ?s = "s\<lparr>file_blk := (file_blk s)(unat b := B)\<rparr>"
  have lt: "unat b < 32768" "1024 < unat b" using b(1) by (simp_all add: data_block_def)
  have d: "disk_ok s" using s by (rule fs_ok_disk)
  have w: "snd (block_write (uint b) B s) = ?s" using block_write_data[OF d b(1) B] by simp
  have fb: "fb_inv s" using s by (simp add: fs_ok_def)
  have "fb_list_ok ?s (free_list s)"
    by (rule fb_list_ok_other[OF fb_inv_list[OF fb], of "uint b"]) (use b lt in \<open>simp_all add: block_valid_def data_block_uint\<close>)
  moreover have "fb_ready ?s" using fb_inv_ready[OF fb] B by (auto simp: ok_defs)
  ultimately have i: "fb_inv ?s \<and> free_list ?s = free_list s" by (intro fb_invI)
  have k: "data_kept s {unat b} ?s" using lt by (simp add: data_kept_def)
  have "free_inodes ?s = free_inodes s" using data_kept_free[OF k] lt by simp
  then have "fs_ok ?s" using s i disk_ok_upd[OF d B] by (simp add: fs_ok_def ib_inv_def)
  then show ?thesis using w i k by simp
qed

lemma data_alloc_ok:
  assumes s: "fs_ok s" and l: "free_list s = uint b # bs" and B: "length (alloc_content buff) = 512"
  shows "\<exists>s'. free_block_allocate buff s = (uint b, s') \<and> fs_ok s' \<and> free_list s' = bs
     \<and> file_blk s' (unat b) = alloc_content buff \<and> data_kept s {unat b} s' \<and> f_arr s' = f_arr s"
proof -
  have fb: "fb_inv s" "1024 < uint b" using s l by (simp_all add: fs_ok_def)
  have ub: "1024 < unat b" using fb(2) unfolding uint_nat by linarith
  from allocate_Cons_aux[OF fb(1) l, of buff] B obtain s' where s':
    "free_block_allocate buff s = (uint b, s')" "fb_inv s'" "free_list s' = bs" "ERRNO s' = ERRNO s"
    "file_blk s' (unat b) = alloc_content buff" "\<forall>n. n \<noteq> 0 \<and> n \<noteq> unat b \<longrightarrow> file_blk s' n = file_blk s n"
    "mget 128 384 (file_blk s' 0) = mget 128 384 (file_blk s 0)" "fblock.more s' = fblock.more s"
    by auto
  have ar: "d_arr s' = d_arr s" "f_arr s' = f_arr s" using more_arrays[OF s'(8)] by simp_all
  have k: "data_kept s {unat b} s'" using s' ar by (simp add: data_kept_def)
  have "free_inodes s' = free_inodes s" using data_kept_free[OF k] ub by simp
  moreover have "disk_ok s'" using fb_inv_ready[OF s'(2)] by (simp add: fb_ready_def)
  ultimately have "fs_ok s'" using s s'(2,3) l ar by (simp add: fs_ok_def ib_inv_def)
  then show ?thesis using s' k ar by blast
qed

section \<open>The write loop\<close>

text \<open>
  \<open>nb\<close> are the blocks the file ends up with: the \<open>n\<close> it has, then the next ones of the free list.
\<close>

definition writing :: "blknum_t list \<Rightarrow> nat \<Rightarrow> int list \<Rightarrow> nat \<Rightarrow> fs \<Rightarrow> bool" where
  "writing nb n rest j u \<longleftrightarrow> fs_ok u \<and> length (f_arr u) = ARR_BYTES
     \<and> free_list u = map uint (drop (max n j) nb) @ rest
     \<and> (\<forall>l<max n j. f_ent (f_arr u) l = nb ! l)"

lemma f_ent_put:
  assumes "4 * i + 4 \<le> length f"
  shows "f_ent (put32 (4 * i) v f) i = v" "l \<noteq> i \<Longrightarrow> 4 * l + 4 \<le> length f \<Longrightarrow> f_ent (put32 (4 * i) v f) l = f_ent f l"
proof -
  show "f_ent (put32 (4 * i) v f) i = v" using assms by (simp add: f_ent_def mem_simps)
  assume "l \<noteq> i" "4 * l + 4 \<le> length f"
  then have "4 * l + 4 \<le> 4 * i \<or> 4 * i + 4 \<le> 4 * l" by linarith
  then show "f_ent (put32 (4 * i) v f) l = f_ent f l" using assms by (simp add: f_ent_def put32_def mem_simps)
qed

text \<open>One iteration, on a block the file has and on a new one.\<close>

lemma write_step:
  assumes u: "writing nb n rest j u" and nb: "distinct nb" "\<forall>b\<in>set nb. data_block b" "length nb \<le> 8344"
    and rest: "\<forall>b\<in>set (take n nb). uint b \<notin> set rest" and j: "j < length nb" and B: "length B = 512"
    and n: "n \<le> length nb" and pg: "mget p 512 buf = B"
  shows "\<exists>u'. write_blocks (Suc m) (int j) n p buf u = write_blocks m (int (Suc j)) n (p + 512) buf u'
     \<and> writing nb n rest (Suc j) u' \<and> file_blk u' (unat (nb ! j)) = B \<and> data_kept u {unat (nb ! j)} u'"
proof (cases "j < n")
  case True
  have fl: "free_list u = map uint (drop n nb) @ rest" "fs_ok u" "length (f_arr u) = ARR_BYTES"
    "\<forall>l<n. f_ent (f_arr u) l = nb ! l" using u True by (simp_all add: writing_def max_def)
  have b: "data_block (nb ! j)" using nb(2) j by simp
  have tk: "nb ! j \<in> set (take n nb)" using True j by (auto simp: in_set_conv_nth intro!: exI[of _ j])
  moreover have "set (take n nb) \<inter> set (drop n nb) = {}" by (rule set_take_disj_set_drop_if_distinct[OF nb(1)]) simp
  ultimately have "uint (nb ! j) \<notin> set (free_list u)" using rest fl(1) by (auto dest: unsigned_word_eqI)
  from data_write_ok[OF fl(2) b this B] obtain u' where u': "snd (block_write (uint (nb ! j)) B u) = u'"
    "fs_ok u'" "free_list u' = free_list u" "file_blk u' (unat (nb ! j)) = B" "data_kept u {unat (nb ! j)} u'" "f_arr u' = f_arr u"
    by blast
  have "f_get (f_arr u) (int j) = Some (uint (nb ! j))"
    by (rule f_get_block[of n]) (use fl True n nb(3) b in auto)
  then have "write_blocks (Suc m) (int j) n p buf u = write_blocks m (int j + 1) n (p + 512) buf u'"
    using True u'(1) pg by simp
  moreover have "int j + 1 = int (Suc j)" by simp
  moreover have "writing nb n rest (Suc j) u'" using u u' max_absorb1[of "Suc j" n] max_absorb1[of j n] True by (simp add: writing_def)
  ultimately show ?thesis using u'(4,5) by metis
next
  case False
  have mx: "max n j = j" "max n (Suc j) = Suc j" using False by auto
  have "free_list u = uint (nb ! j) # (map uint (drop (Suc j) nb) @ rest)"
    using u j by (simp add: writing_def mx Cons_nth_drop_Suc[symmetric])
  moreover have ok: "fs_ok u" "length (f_arr u) = ARR_BYTES" "\<forall>l<j. f_ent (f_arr u) l = nb ! l"
    using u by (simp_all add: writing_def mx)
  ultimately obtain u1 where u1: "free_block_allocate (Some B) u = (uint (nb ! j), u1)" "fs_ok u1"
    "free_list u1 = map uint (drop (Suc j) nb) @ rest" "file_blk u1 (unat (nb ! j)) = B" "data_kept u {unat (nb ! j)} u1"
    "f_arr u1 = f_arr u" using data_alloc_ok[of u "nb ! j" "map uint (drop (Suc j) nb) @ rest" "Some B"] B by (auto simp: alloc_content_def)
  define f where "f = put32 (4 * j) (nb ! j) (f_arr u)"
  have jl: "4 * j + 4 \<le> length (f_arr u)" using j nb(3) ok(2) by simp
  have lf: "length f = ARR_BYTES" using jl ok(2) by (simp add: f_def)
  have "f_put (int j) (uint (nb ! j)) (f_arr u1) = Some f" using jl u1(6) by (simp add: f_put_def f_def)
  moreover have "\<not> uint (nb ! j) < 0" by simp
  ultimately have "write_blocks (Suc m) (int j) n p buf u = write_blocks m (int j + 1) n (p + 512) buf (u1\<lparr>f_arr := f\<rparr>)"
    using False u1(1) pg by simp
  moreover have "int j + 1 = int (Suc j)" by simp
  moreover have "f_ent f l = nb ! l" if "l < Suc j" for l
    using f_ent_put(1)[OF jl] f_ent_put(2)[OF jl, of l] ok(2,3) that j nb(3) by (cases "l = j") (auto simp: f_def)
  then have "writing nb n rest (Suc j) (u1\<lparr>f_arr := f\<rparr>)"
    using u1(2,3,6) lf ok(2) by (simp add: writing_def mx)
  moreover have "data_kept u {unat (nb ! j)} (u1\<lparr>f_arr := f\<rparr>)" using u1(5) by (simp add: data_kept_def)
  moreover have "file_blk (u1\<lparr>f_arr := f\<rparr>) (unat (nb ! j)) = B" using u1(4) by simp
  ultimately show ?thesis by metis
qed

lemma write_blocks_ok:
  assumes nb: "distinct nb" "\<forall>b\<in>set nb. data_block b" "length nb \<le> 8344" "n \<le> length nb"
    and rest: "\<forall>b\<in>set (take n nb). uint b \<notin> set rest"
  shows "writing nb n rest j u \<Longrightarrow> j + m \<le> length nb \<Longrightarrow> p + 512 * m \<le> length buf \<Longrightarrow>
    \<exists>u'. write_blocks m (int j) n p buf u = Some (int (j + m), u') \<and> writing nb n rest (j + m) u'
     \<and> (\<forall>l. j \<le> l \<and> l < j + m \<longrightarrow> file_blk u' (unat (nb ! l)) = mget (p + 512 * (l - j)) 512 buf)
     \<and> data_kept u ((\<lambda>l. unat (nb ! l)) ` {j..<j + m}) u'"
proof (induction m arbitrary: j p u)
  case 0
  then show ?case by (auto simp: data_kept_def)
next
  case (Suc m)
  let ?B = "mget p 512 buf"
  have j: "j < length nb" "length ?B = 512" using Suc.prems by simp_all
  from write_step[OF Suc.prems(1) nb(1-3) rest j nb(4) refl, of m] obtain u1 where u1:
    "write_blocks (Suc m) (int j) n p buf u = write_blocks m (int (Suc j)) n (p + 512) buf u1"
    "writing nb n rest (Suc j) u1" "file_blk u1 (unat (nb ! j)) = ?B" "data_kept u {unat (nb ! j)} u1" by blast
  have "Suc j + m \<le> length nb" "(p + 512) + 512 * m \<le> length buf" using Suc.prems by simp_all
  from Suc.IH[OF u1(2) this] obtain u' where u': "write_blocks m (int (Suc j)) n (p + 512) buf u1 = Some (int (Suc j + m), u')"
    "writing nb n rest (Suc j + m) u'"
    "\<forall>l. Suc j \<le> l \<and> l < Suc j + m \<longrightarrow> file_blk u' (unat (nb ! l)) = mget (p + 512 + 512 * (l - Suc j)) 512 buf"
    "data_kept u1 ((\<lambda>l. unat (nb ! l)) ` {Suc j..<Suc j + m}) u'" by blast
  have "{unat (nb ! j)} \<union> (\<lambda>l. unat (nb ! l)) ` {Suc j..<Suc j + m} = (\<lambda>l. unat (nb ! l)) ` {j..<j + Suc m}"
  proof -
    have "{j..<j + Suc m} = insert j {Suc j..<Suc j + m}" by auto
    then show ?thesis by simp
  qed
  then have k: "data_kept u ((\<lambda>l. unat (nb ! l)) ` {j..<j + Suc m}) u'"
    using data_kept_trans[OF u1(4) u'(4)] by simp
  have "file_blk u' (unat (nb ! l)) = mget (p + 512 * (l - j)) 512 buf" if l: "j \<le> l" "l < j + Suc m" for l
  proof (cases "l = j")
    case True
    have "data_block (nb ! j)" using nb(2) j(1) by simp
    then have "unat (nb ! j) \<noteq> 0" by (simp add: data_block_def)
    moreover have "unat (nb ! j) \<notin> (\<lambda>l. unat (nb ! l)) ` {Suc j..<Suc j + m}"
      using nb(1) Suc.prems(2) by (auto simp: nth_eq_iff_index_eq dest: unsigned_word_eqI)
    ultimately show ?thesis using u1(3) u'(4) True by (simp add: data_kept_def)
  next
    case False
    then have "Suc j \<le> l" "l < Suc j + m" using l by simp_all
    then have "p + 512 + 512 * (l - Suc j) = p + 512 * (l - j)" by simp
    then show ?thesis using u'(3) \<open>Suc j \<le> l\<close> \<open>l < Suc j + m\<close> by metis
  qed
  then show ?case using u1(1) u'(1,2) k by simp
qed

section \<open>The work buffer\<close>

lemma mget_mput_shift:
  "a \<le> off \<Longrightarrow> off + length bs \<le> a + n \<Longrightarrow> a + n \<le> length m \<Longrightarrow> mget a n (mput off bs m) = mput (off - a) bs (mget a n m)"
  by (intro nth_equalityI) (auto simp: nth_mget nth_mput add.commute)

lemma data_eqI:
  assumes "length X = 512 * length nb" "\<forall>l<length nb. file_blk s (unat (nb ! l)) = mget (512 * l) 512 X"
  shows "data_of s nb = X"
proof -
  have "k \<le> length nb \<Longrightarrow> data_of s (take k nb) = mget 0 (512 * k) X" for k
  proof (induction k)
    case 0
    then show ?case by (simp add: data_of_def mget_def)
  next
    case (Suc k)
    then have "data_of s (take (Suc k) nb) = mget 0 (512 * k) X @ mget (512 * k) 512 X"
      using assms(2) by (simp add: take_Suc_conv_app_nth data_of_append) (simp add: data_of_def)
    also have "\<dots> = mget 0 (512 * k + 512) X" by (simp only: mget_split add_0)
    finally show ?case by (simp add: add.commute)
  qed
  from this[of "length nb"] assms(1) show ?thesis by (simp add: mget_def)
qed

text \<open>What the first loop reads: the window of the old data, padded with zeros.\<close>

lemma read_window:
  assumes "length D = 512 * n" "q \<le> n" "q < e"
  shows "mput 0 (mget (512 * q) (512 * (min n e - q)) D) (zeros (512 * (e - q)))
    = mget (512 * q) (512 * (e - q)) (D @ zeros (512 * (max n e - n)))"
proof (cases "e \<le> n")
  case True
  then show ?thesis using assms by (simp add: mput_all zeros_def min_def max_def)
next
  case False
  then have l: "512 * (e - q) = 512 * (n - q) + 512 * (e - n)" using assms by simp
  have "mget (512 * q) (512 * (n - q)) D = drop (512 * q) D" using assms by (simp add: mget_def)
  moreover have "mget (512 * q) (512 * (e - q)) (D @ zeros (512 * (e - n))) = drop (512 * q) D @ zeros (512 * (e - n))"
    using assms False by (simp add: mget_def l diff_mult_distrib2)
  ultimately show ?thesis using assms False by (simp add: mput_def zeros_def l diff_mult_distrib2 min_def max_def)
qed

section \<open>Storing the size and the block list\<close>

lemma set_attr_file:
  assumes s: "fs_ok s" "node_ok Fnode s i" "md_isdir (inode_at s i) = 0" and F: "F \<le> 8344 * 512"
  shows "\<exists>t. inode_set_attr_upc (of_nat i) None (Some (int F)) s = t \<and> fs_ok t \<and> node_ok Fnode t i
     \<and> inode_at t i = set_fsize (of_nat F) (inode_at s i) \<and> entries_of t i = entries_of s i
     \<and> nodes_of Fnode t i = nodes_of Fnode s i \<and> free_inodes t = free_inodes s \<and> unchanged s {i} t \<and> file_blocks t i = file_blocks s i"
proof -
  let ?u = "s\<lparr>iblockbuf := file_blk s (i div 4)\<rparr>" and ?nd = "set_fsize (of_nat F) (inode_at s i)"
  have d: "disk_ok s" using s(1) by (rule fs_ok_disk)
  have l: "length (inode_at s i) = INODE_SIZE" using d by simp
  have i: "i < MAX_INODES" using s(2) by (simp add: node_ok_def)
  have u: "uint (of_nat i :: ushort) = int i" using s(2) by (intro uint_of_nat_ushort) (simp add: node_ok_def)
  have "\<not> FCONTENT_MAX_SIZE < int F" using F by simp
  then have t: "inode_set_attr_upc (of_nat i) None (Some (int F)) s = inode_dump (int i) ?nd ?u"
    using s(3) u inode_load_eq[OF d i] by (simp add: inode_set_attr_upc_def Let_def)
  have nd: "length ?nd = INODE_SIZE" "mget 16 112 ?nd = mget 16 112 (inode_at ?u i)"
    "md_ino ?nd = md_ino (inode_at ?u i)" "md_size ?nd = md_size (inode_at ?u i)"
    using l by (simp_all add: layout_defs mem_simps)
  have uu: "fs_ok ?u" "node_ok Fnode ?u i" using s by simp_all
  show ?thesis using node_store_head[OF uu nd] unfolding t by (simp add: unchanged_def kept_def file_blocks_def)
qed

lemma resized_blocks:
  assumes "resized Fnode s i n s'"
  shows "file_blocks s' i = map (f_ent (f_arr s)) [0..<n]"
proof -
  have "entries_of s' i = n" "node_bytes s' (inode_at s' i) (npages Fnode n) = mget 0 (96 + 128 * npages Fnode n) (f_arr s)"
    using assms by (simp_all add: resized_def)
  then show ?thesis using fentry_bytes[of _ n] by (simp add: file_blocks_def pages_of_def f_ent_mget)
qed

section \<open>fstream_write\<close>

text \<open>
  The state in which the loop starts: the listing is in the array, the blocks the file will have are its own
  and the next ones of the free list.
\<close>

definition future_blocks :: "fs \<Rightarrow> nat \<Rightarrow> nat \<Rightarrow> blknum_t list" where
  "future_blocks s i e = file_blocks s i @ map word_of_int (take (e - entries_of s i) (free_list s))"

lemma free_list_words:
  assumes "fs_ok s" "b \<in> set (free_list s)"
  shows "data_block (word_of_int b)" "uint (word_of_int b :: blknum_t) = b"
proof -
  have "1024 < b" "b < 32768" using assms fb_inv_list[of s] by (auto simp: fs_ok_def fb_list_ok_def block_valid_def)
  then show "uint (word_of_int b :: blknum_t) = b" by (simp add: uint_word_of_int_eq take_bit_int_eq_self)
  then show "data_block (word_of_int b)" using \<open>1024 < b\<close> \<open>b < 32768\<close> by (simp add: data_block_uint)
qed

lemma future_ok:
  assumes s: "fs_ok s" "file_ok s i" and e: "e - entries_of s i \<le> length (free_list s)"
  defines "nb \<equiv> future_blocks s i e"
  shows "length nb = max (entries_of s i) e" "distinct nb" "\<forall>b\<in>set nb. data_block b"
    "free_list s = map uint (drop (entries_of s i) nb) @ drop (e - entries_of s i) (free_list s)"
    "\<forall>b\<in>set nb. uint b \<notin> set (drop (e - entries_of s i) (free_list s))"
    "\<forall>l<entries_of s i. nb ! l = file_blocks s i ! l"
proof -
  let ?n = "entries_of s i" and ?fl = "free_list s"
  have d: "distinct ?fl" using s(1) fb_inv_list[of s] by (auto simp: fs_ok_def fb_list_ok_def)
  have f: "distinct (file_blocks s i)" "\<forall>b\<in>set (file_blocks s i). data_block b \<and> uint b \<notin> set ?fl"
    using s(2) by (simp_all add: file_ok_def)
  define ws :: "blknum_t list" where "ws = map word_of_int (take (e - ?n) ?fl)"
  have nb: "nb = file_blocks s i @ ws" by (simp add: nb_def future_blocks_def ws_def)
  have m: "map uint ws = take (e - ?n) ?fl"
    using free_list_words(2)[OF s(1)] by (auto simp: ws_def intro!: map_idI dest: in_set_takeD)
  then have tk: "uint b \<in> set (take (e - ?n) ?fl)" if "b \<in> set ws" for b
    using that by (metis image_eqI list.set_map)
  then have fl: "uint b \<in> set ?fl" if "b \<in> set ws" for b using that by (blast dest: in_set_takeD)
  show "length nb = max ?n e" using e by (simp add: nb ws_def)
  have "distinct (map uint ws)" using d by (simp add: m)
  then have "distinct ws" using distinct_map by blast
  then show "distinct nb" using f fl by (auto simp: nb)
  show "\<forall>b\<in>set nb. data_block b"
    using f(2) free_list_words(1)[OF s(1)] by (auto simp: nb ws_def dest: in_set_takeD)
  show "?fl = map uint (drop ?n nb) @ drop (e - ?n) ?fl" by (simp add: nb m)
  have "set (take (e - ?n) ?fl) \<inter> set (drop (e - ?n) ?fl) = {}" by (rule set_take_disj_set_drop_if_distinct[OF d]) simp
  then show "\<forall>b\<in>set nb. uint b \<notin> set (drop (e - ?n) ?fl)"
    using f(2) tk by (auto simp: nb dest: in_set_dropD)
  show "\<forall>l<?n. nb ! l = file_blocks s i ! l" by (simp add: nb nth_append)
qed

text \<open>The two loops: the data of the new block list is the old data with the range replaced.\<close>

lemma write_data:
  assumes w: "writing nb n rest q u" and nb: "distinct nb" "\<forall>b\<in>set nb. data_block b" "length nb \<le> 8344" "length nb = max n e"
    and rest: "\<forall>b\<in>set (take n nb). uint b \<notin> set rest"
    and q: "q = o' div 512" "q \<le> n" and e: "e = (o' + length dat - 1) div 512 + 1" "dat \<noteq> []"
  shows "\<exists>B0 B u1. read_blocks (nat (min (int n) (int e) - int q)) (int q) 0 (zeros (nat (int e - int q) * 512)) u = Some B0
     \<and> buf_put (int (o' mod 512)) dat B0 = Some B
     \<and> write_blocks (nat (min (int e) 8344 - int q)) (int q) n 0 B u = Some (int e, u1)
     \<and> writing nb n rest e u1 \<and> data_kept u (unat ` set nb) u1
     \<and> data_of u1 nb = mput o' dat (data_of u (take n nb) @ zeros (512 * (length nb - n)))"
proof -
  have "o' \<le> o' + length dat - 1" using e(2) by (cases dat) simp_all
  then have qe: "q < e" unfolding q(1) e(1) by (metis add.commute div_le_mono less_Suc_eq_le plus_1_eq_Suc)
  have ok: "fs_ok u" "disk_ok u" "length (f_arr u) = ARR_BYTES" "\<forall>l<n. f_ent (f_arr u) l = nb ! l"
    using w q(2) fs_ok_disk by (auto simp: writing_def max_absorb1)
  have nl: "n \<le> length nb" "e \<le> length nb" using nb(4) by simp_all
  define D where "D = data_of u (take n nb)"
  define Y where "Y = D @ zeros (512 * (max n e - n))"
  have D: "length D = 512 * n" using ok(2) nl by (simp add: D_def)
  have Y: "length Y = 512 * length nb" using D nb(4) by (simp add: Y_def)
  define X where "X = mput o' dat Y"
  have oq: "512 * q \<le> o'" "o' + length dat \<le> 512 * e"
  proof -
    show "512 * q \<le> o'" by (simp add: q(1))
    have "o' + length dat - 1 < 512 * e" by (simp add: e(1))
    then show "o' + length dat \<le> 512 * e" by linarith
  qed
  have X: "length X = 512 * length nb" using oq(2) nl(2) Y by (simp add: X_def)
  define m where "m = min n e - q"
  have m: "nat (min (int n) (int e) - int q) = m" "nat (int e - int q) * 512 = 512 * (e - q)" "nat (min (int e) 8344 - int q) = e - q"
    using nb(3) nl qe q(2) unfolding m_def by linarith+
  have "read_blocks m (int q) 0 (zeros (512 * (e - q))) u = Some (mput 0 (data_of u (take m (drop q (take n nb)))) (zeros (512 * (e - q))))"
    by (rule read_blocks_ok[OF ok(2) _ _ ok(3)])
       (use ok(4) nb(2,3) nl qe q(2) in \<open>auto simp: m_def dest: in_set_takeD\<close>)
  moreover have "data_of u (take m (drop q (take n nb))) = mget (512 * q) (512 * m) D"
    using mget_data_of[OF ok(2), of q m "take n nb"] nl q(2) qe by (simp add: D_def m_def)
  ultimately have B0: "read_blocks m (int q) 0 (zeros (512 * (e - q))) u = Some (mget (512 * q) (512 * (e - q)) Y)"
    using read_window[OF D q(2) qe] by (simp add: m_def Y_def)
  define B where "B = mget (512 * q) (512 * (e - q)) X"
  have eq: "512 * q + 512 * (e - q) = 512 * e" using qe by simp
  have "o' - 512 * q = o' mod 512" by (simp add: q(1) minus_mult_div_eq_mod)
  moreover have "512 * q + 512 * (e - q) \<le> length Y" unfolding eq Y using nl(2) by simp
  ultimately have Bp: "mput (o' mod 512) dat (mget (512 * q) (512 * (e - q)) Y) = B"
    using mget_mput_shift[of "512 * q" o' dat "512 * (e - q)" Y] oq eq by (simp add: B_def X_def)
  have "o' mod 512 + length dat \<le> 512 * (e - q)" using oq eq \<open>o' - 512 * q = o' mod 512\<close> by linarith
  moreover have "length (mget (512 * q) (512 * (e - q)) Y) = 512 * (e - q)" using Y nl(2) qe by (simp add: min_def)
  ultimately have put: "buf_put (int (o' mod 512)) dat (mget (512 * q) (512 * (e - q)) Y) = Some B"
    using Bp by (simp only: buf_put_nat if_True)
  have Bl: "length B = 512 * (e - q)" using X nl(2) qe by (simp add: B_def min_def)
  from write_blocks_ok[OF nb(1-3) nl(1) rest w, of "e - q" 0 B] Bl nl(2) qe obtain u1 where u1:
    "write_blocks (e - q) (int q) n 0 B u = Some (int e, u1)" "writing nb n rest e u1"
    "\<forall>l. q \<le> l \<and> l < e \<longrightarrow> file_blk u1 (unat (nb ! l)) = mget (512 * (l - q)) 512 B"
    "data_kept u ((\<lambda>l. unat (nb ! l)) ` {q..<e}) u1" by auto
  have sub: "(\<lambda>l. unat (nb ! l)) ` {q..<e} \<subseteq> unat ` set nb" using nl(2) by auto
  have "data_of u1 nb = X"
  proof (rule data_eqI[OF X], intro allI impI)
    fix l assume l: "l < length nb"
    show "file_blk u1 (unat (nb ! l)) = mget (512 * l) 512 X"
    proof (cases "q \<le> l \<and> l < e")
      case True
      then have "512 * (l - q) + 512 \<le> 512 * (e - q)" "512 * q + 512 * (l - q) = 512 * l" by auto
      then show ?thesis using u1(3) True mget_mget[of "512 * (l - q)" 512 "512 * (e - q)" "512 * q" X] by (simp add: B_def)
    next
      case False
      then have ln: "l < n" using l nb(4) q(2) by auto
      have "unat (nb ! l) \<notin> (\<lambda>l. unat (nb ! l)) ` {q..<e}"
        using nb(1) l nl(2) False by (auto simp: nth_eq_iff_index_eq dest!: unsigned_word_eqI)
      moreover have "data_block (nb ! l)" using nb(2) l by simp
      ultimately have "file_blk u1 (unat (nb ! l)) = file_blk u (unat (nb ! l))"
        using u1(4) by (auto simp: data_kept_def data_block_def)
      also have "\<dots> = mget (512 * l) 512 D"
        using mget_data_of[OF ok(2), of l 1 "take n nb"] ln nl(1) by (simp add: D_def data_of_def take_Suc_conv_app_nth hd_drop_conv_nth take_Suc)
      also have "\<dots> = mget (512 * l) 512 Y" using ln D by (simp add: Y_def mget_append1)
      also have "\<dots> = mget (512 * l) 512 X"
        using False oq l X Y nl(2) unfolding X_def by (subst mget_mput_out) auto
      finally show ?thesis .
    qed
  qed
  then have "data_of u1 nb = mput o' dat (data_of u (take n nb) @ zeros (512 * (length nb - n)))"
    by (simp add: X_def Y_def D_def nb(4))
  moreover have "data_kept u (unat ` set nb) u1" using data_kept_mono[OF u1(4) sub] .
  ultimately show ?thesis using B0 put u1(1,2) unfolding m by blast
qed

definition room_for_blocks :: "fs \<Rightarrow> nat \<Rightarrow> nat \<Rightarrow> bool" where
  "room_for_blocks s i e \<longleftrightarrow> e \<le> 8344 \<and> e - entries_of s i \<le> length (free_list s)
     \<and> need (npages Fnode (max (entries_of s i) e)) (pages_of Fnode s i) 0 0 \<le> card (free_inodes s)"

text \<open>What a write leaves: the blocks \<open>nb\<close>, their data \<open>X\<close>, the size \<open>F\<close>.\<close>

definition written :: "fs \<Rightarrow> nat \<Rightarrow> blknum_t list \<Rightarrow> byte list \<Rightarrow> nat \<Rightarrow> int list \<Rightarrow> fs \<Rightarrow> bool" where
  "written s i nb X F rest s' \<longleftrightarrow> fs_ok s' \<and> node_ok Fnode s' i \<and> md_isdir (inode_at s' i) = 0
     \<and> file_blocks s' i = nb \<and> data_of s' nb = X \<and> fsize_of s' i = F \<and> free_list s' = rest \<and> ERRNO s' = ERRNO s
     \<and> free_inodes s' \<union> nodes_of Fnode s' i = free_inodes s \<union> nodes_of Fnode s i
     \<and> (\<forall>m<4096. m \<notin> {0, i} \<union> free_inodes s \<union> nodes_of Fnode s i \<longrightarrow> inode_at s' m = inode_at s m)
     \<and> (\<forall>b>1024. b \<notin> unat ` set nb \<longrightarrow> file_blk s' b = file_blk s b)"

lemma fsize_fields:
  assumes "length nd = INODE_SIZE"
  shows "md_fsize (set_fsize v nd) = v" "md_isdir (set_fsize v nd) = md_isdir nd"
proof -
  show "md_fsize (set_fsize v nd) = v" using assms by (simp add: layout_defs mem_simps)
  show "md_isdir (set_fsize v nd) = md_isdir nd" using assms by (simp add: layout_defs put32_def nth_mput)
qed

text \<open>The end of the function: the size and the block list are stored.\<close>

lemma write_meta:
  assumes s: "fs_ok s" "node_ok Fnode s i" "md_isdir (inode_at s i) = 0" "arrays_ok s"
    and u: "fs_ok u" "data_kept s (unat ` set nb) u" "\<forall>l<length nb. f_ent (f_arr u) l = nb ! l" "free_list u = rest"
    and nb: "\<forall>b\<in>set nb. data_block b" "length nb \<le> 8344" "entries_of s i \<le> length nb" and F: "F \<le> 8344 * 512"
    and cnt: "need (npages Fnode (length nb)) (pages_of Fnode s i) 0 0 \<le> card (free_inodes s)"
  shows "\<exists>t s'. inode_set_attr_upc (of_nat i) None (Some (int F)) u = t
     \<and> fnode_listing_set (of_nat i) (int (length nb)) t = Some s' \<and> written s i nb (data_of u nb) F rest s'"
proof -
  let ?G = "{0, i} \<union> free_inodes s \<union> nodes_of Fnode s i"
  have hi: "\<forall>b\<in>unat ` set nb. 1024 < b" using nb(1) by (auto simp: data_block_def)
  have same: "inode_at u m = inode_at s m" if "0 < m" "m < 4096" for m by (rule data_kept_inode[OF u(2) hi that])
  note un = data_kept_node[OF u(2) hi s(2)]
  have "md_isdir (inode_at u i) = 0" using s(3) un(2) by simp
  from set_attr_file[OF u(1) un(1) this F] obtain t where t: "inode_set_attr_upc (of_nat i) None (Some (int F)) u = t"
    "fs_ok t" "node_ok Fnode t i" "inode_at t i = set_fsize (of_nat F) (inode_at s i)" "entries_of t i = entries_of s i"
    "nodes_of Fnode t i = nodes_of Fnode s i" "free_inodes t = free_inodes s" "unchanged u {i} t"
    using un by (auto simp: entries_of_def)
  have c: "clamp_size Fnode (int (length nb)) = length nb" using nb(2) by (simp add: clamp_size_def)
  have "pages_of Fnode t i = pages_of Fnode s i" using t(5) by (simp add: pages_of_def)
  then obtain s' where s': "fnode_listing_set (of_nat i) (int (length nb)) t = Some s'" "resized Fnode t i (length nb) s'"
    "unchanged t ({i} \<union> free_inodes s \<union> nodes_of Fnode s i) s'"
    using listing_set_ok[OF t(2,3), of "int (length nb)"] cnt t(6,7) nb(2) by (auto simp: c)
  have l: "length (inode_at s i) = INODE_SIZE" using fs_ok_disk[OF s(1)] by simp
  then have lt: "length (inode_at t i) = INODE_SIZE" "length (f_arr t) = ARR_BYTES"
    using t(2,4) by (simp_all add: set_fsize_def fs_ok_def)
  have hd: "nd_head (set_head (f_arr t) (length nb) (inode_at t i)) (inode_at s' i)" using s'(2) by (simp add: resized_def)
  note hf = head_fields[OF hd set_head_simps(1)[OF lt]]
  have fz: "fsize_of s' i = F" "md_isdir (inode_at s' i) = 0"
    using hf(6,7) set_head_simps(7,8)[OF lt] t(4) s(3) fsize_fields[OF l] F
    by (simp_all add: fsize_of_def unsigned_of_nat take_bit_nat_eq_self)
  have "file_blocks s' i = map (f_ent (f_arr u)) [0..<length nb]"
    using resized_blocks[OF s'(2)] t(8) by (simp add: unchanged_def)
  moreover have "map (f_ent (f_arr u)) [0..<length nb] = nb" by (rule nth_equalityI) (use u(3) in simp_all)
  ultimately have fb: "file_blocks s' i = nb" by simp
  have blk: "file_blk s' b = file_blk u b" if "1024 < b" for b
    using that s'(3) t(8) by (simp add: unchanged_def kept_def)
  have "file_blk s' (unat b) = file_blk u (unat b)" if "b \<in> set nb" for b
    using hi that by (intro blk) simp
  then have dat: "data_of s' nb = data_of u nb" by (simp add: data_of_def cong: map_cong)
  have "length nb \<ge> entries_of s i \<Longrightarrow> \<not> leaks (npages Fnode (length nb)) (pages_of Fnode t i)"
    using npages_le[of Fnode "entries_of s i" "npages Fnode (length nb)"] npages_le[of Fnode "length nb" "npages Fnode (length nb)"] t(5)
    by (auto simp: leaks_def pages_of_def)
  then have "free_inodes s' \<union> nodes_of Fnode s' i = free_inodes s \<union> nodes_of Fnode s i"
    using s'(2) nb(3) t(6,7) by (simp add: resized_def)
  moreover have "inode_at s' m = inode_at s m" if "m < 4096" "m \<notin> ?G" for m
    using s'(3) t(8) same[of m] that by (simp add: unchanged_def kept_def)
  moreover have "file_blk s' b = file_blk s b" if "1024 < b" "b \<notin> unat ` set nb" for b
    using blk[OF that(1)] u(2) that by (simp add: data_kept_def)
  moreover have "free_list s' = rest" "ERRNO s' = ERRNO s"
    using s'(3) t(8) u(2,4) by (simp_all add: unchanged_def kept_def data_kept_def)
  ultimately have "written s i nb (data_of u nb) F rest s'"
    using s'(2) fz fb dat unfolding written_def resized_def by blast
  then show ?thesis using t(1) s'(1) by blast
qed

lemma fstream_write_ok:
  assumes s: "fs_ok s" "ERRNO s = 0" "file_ok s i" and o: "o' \<le> fsize_of s i" "o' + z < 2147483648"
    and fz: "fsize_of s i < 2147483648" and z: "0 < z" "z \<le> length buf"
    and room: "room_for_blocks s i ((o' + z - 1) div 512 + 1)"
  shows "\<exists>s'. fstream_write (int i) buf (int z) (int o') s = Some (int z, s')
     \<and> written s i (future_blocks s i ((o' + z - 1) div 512 + 1))
         (mput o' (take z buf) (data_of s (file_blocks s i) @ zeros (512 * ((o' + z - 1) div 512 + 1 - entries_of s i))))
         (max (fsize_of s i) (o' + z)) (drop ((o' + z - 1) div 512 + 1 - entries_of s i) (free_list s)) s'"
proof -
  let ?n = "entries_of s i" and ?F = "fsize_of s i"
  define q e where "q = o' div 512" and "e = (o' + z - 1) div 512 + 1"
  define nb rest where "nb = future_blocks s i e" and "rest = drop (e - ?n) (free_list s)"
  have nok: "node_ok Fnode s i" "md_isdir (inode_at s i) = 0" "?F \<le> 512 * ?n" using s(3) by (simp_all add: file_ok_def)
  have rm: "e \<le> 8344" "e - ?n \<le> length (free_list s)"
    "need (npages Fnode (max ?n e)) (pages_of Fnode s i) 0 0 \<le> card (free_inodes s)"
    using room by (simp_all add: room_for_blocks_def e_def)
  note fu = future_ok[OF s(1,3) rm(2), folded nb_def rest_def]
  have n: "?n \<le> 8344" using nok(1) npages_le[of Fnode ?n MAX_PAGES] by (simp add: node_ok_def pages_of_def ptr_at_def)
  have tn: "take ?n nb = file_blocks s i" by (simp add: nb_def future_blocks_def)
  obtain b A where A: "fnode_listing (of_nat i) s = (?n, s\<lparr>iblockbuf := b, f_arr := A\<rparr>)" "length A = ARR_BYTES"
    "\<forall>j<?n. f_ent A j = file_blocks s i ! j" using file_listing[OF s(1) nok(1)] by blast
  have fl: "length (f_arr s) = ARR_BYTES" "arrays_ok s" using s(1) by (simp_all add: fs_ok_def arrays_ok_def)
  let ?t = "s\<lparr>iblockbuf := b, f_arr := A\<rparr>"
  have "fs_ok ?t" "node_ok Fnode ?t i" "fsize_of ?t i = ?F" using s(1) nok(1) A(2) fl by (simp_all add: fsize_of_def)
  then obtain b' m l where at: "inode_get_attr_upc (of_nat i) ?t = ((m, l, int ?F), ?t\<lparr>iblockbuf := b'\<rparr>)"
    using get_attr_file[of ?t i] nok(2) fz by auto
  let ?u = "?t\<lparr>iblockbuf := b'\<rparr>"
  have uok: "fs_ok ?u" using s(1) A(2) fl by simp
  have q: "q \<le> ?n" using o(1) nok(3) unfolding q_def by linarith
  have w: "writing nb ?n rest q ?u"
    using uok A(2,3) fu(4,6) q by (simp add: writing_def max_absorb1)
  have dat: "length (take z buf) = z" "take z buf \<noteq> []" using z by auto
  have r: "\<forall>b\<in>set (take ?n nb). uint b \<notin> set rest" using fu(5) by (blast dest: in_set_takeD)
  have ln: "length nb \<le> 8344" "length nb = max ?n e" using fu(1) n rm(1) by simp_all
  have e: "e = (o' + length (take z buf) - 1) div 512 + 1" by (simp only: e_def dat(1))
  from write_data[OF w fu(2,3) ln r q_def q e dat(2)] obtain B0 B u1 where u1:
    "read_blocks (nat (min (int ?n) (int e) - int q)) (int q) 0 (zeros (nat (int e - int q) * 512)) ?u = Some B0"
    "buf_put (int (o' mod 512)) (take z buf) B0 = Some B"
    "write_blocks (nat (min (int e) 8344 - int q)) (int q) ?n 0 B ?u = Some (int e, u1)" "writing nb ?n rest e u1"
    "data_kept ?u (unat ` set nb) u1"
    "data_of u1 nb = mput o' (take z buf) (data_of ?u (take ?n nb) @ zeros (512 * (length nb - ?n)))" by blast
  have k: "data_kept s (unat ` set nb) u1" using u1(5) by (simp add: data_kept_def)
  have wu: "fs_ok u1" "\<forall>l<length nb. f_ent (f_arr u1) l = nb ! l" "free_list u1 = rest"
    using u1(4) fu(1) by (simp_all add: writing_def)
  have F: "max ?F (o' + z) \<le> 8344 * 512"
  proof -
    have "o' + z - 1 < 512 * e" by (simp add: e_def)
    then show ?thesis using rm(1) nok(3) n by simp
  qed
  have cnt: "need (npages Fnode (length nb)) (pages_of Fnode s i) 0 0 \<le> card (free_inodes s)" using rm(3) ln(2) by simp
  have "entries_of s i \<le> length nb" using ln(2) by simp
  from write_meta[OF s(1) nok(1,2) fl(2) wu(1) k wu(2,3) fu(3) ln(1) this F cnt] obtain t s' where s':
    "inode_set_attr_upc (of_nat i) None (Some (int (max ?F (o' + z)))) u1 = t"
    "fnode_listing_set (of_nat i) (int (length nb)) t = Some s'" "written s i nb (data_of u1 nb) (max ?F (o' + z)) rest s'" by blast
  have du: "data_of ?u (take ?n nb) = data_of s (file_blocks s i)" by (simp add: data_of_def tn)
  have "e - ?n = length nb - ?n" using ln(2) by simp
  then have wr: "written s i nb (mput o' (take z buf) (data_of s (file_blocks s i) @ zeros (512 * (e - ?n)))) (max ?F (o' + z)) rest s'"
    using s'(3) u1(6) du by simp
  have er: "errno_pop s' = (0, s')" using wr s(2) by (simp add: written_def errno_pop_def)
  have ints: "int_ok (int o' + int z) = Some (int o' + int z)" "int_ok (int o' + int z - 1) = Some (int o' + int z - 1)"
    using o(2) z(1) by (simp_all add: int_ok_def c_int_id)
  have pz: "int o' + int z - 1 = int (o' + z - 1)" using z(1) by simp
  have sd: "int a sdiv 512 = int (a div 512)" "int a smod 512 = int (a mod 512)" for a
    using int_sdiv[of a 512] by simp_all
  have dv: "int o' sdiv 512 = int q" "(int o' + int z - 1) sdiv 512 + 1 = int e" "int o' smod 512 = int (o' mod 512)"
    unfolding pz sd q_def e_def by simp_all
  have sz: "(if int e < int ?n then int ?n else int e) = int (length nb)"
    "(if int o' + int z < int ?F then int ?F else int o' + int z) = int (max ?F (o' + z))" using ln(2) by auto
  have "fstream_write (int i) buf (int z) (int o') s = Some (int z, s')"
    unfolding fstream_write_def
    by (simp only: ints dv sz A(1) at u1(1-3) s'(1,2) er z(2) of_int_of_nat_eq Let_def prod.case option.simps bind.bind_lunit
        nat_int of_nat_0_le_iff simp_thms if_True if_False less_irrefl of_nat_numeral)
  then show ?thesis using wr unfolding nb_def rest_def e_def by blast
qed

section \<open>Content\<close>

lemma take_mput:
  assumes "o' \<le> F" "F \<le> length D"
  shows "take (max F (o' + length dat)) (mput o' dat (D @ zs)) = mput o' dat (take F D)"
proof (cases "F \<le> o' + length dat")
  case True
  then have "max F (o' + length dat) = o' + length dat" "drop (o' + length dat) (take F D) = []" by simp_all
  moreover have "take o' (D @ zs) = take o' (take F D)" using assms by (simp add: min_def)
  moreover have "length (take o' (take F D)) = o'" using assms by simp
  ultimately show ?thesis by (simp add: mput_def)
next
  case False
  then have "max F (o' + length dat) = F" by simp
  moreover have "take o' (D @ zs) = take o' (take F D)" using assms by (simp add: min_def)
  moreover have "length (take o' (take F D)) = o'" using assms by simp
  moreover have "take (F - (o' + length dat)) (drop (o' + length dat) (D @ zs)) = drop (o' + length dat) (take F D)"
    using False assms by (simp add: drop_take)
  ultimately show ?thesis using False by (simp add: mput_def)
qed

lemma written_file:
  assumes w: "written s i (future_blocks s i e) X F (drop (e - entries_of s i) (free_list s)) s'"
    and s: "fs_ok s" "file_ok s i" and e: "e - entries_of s i \<le> length (free_list s)" and F: "F \<le> 512 * max (entries_of s i) e"
  shows "file_ok s' i" "content s' i = take F X"
proof -
  note f = future_ok[OF s e]
  have fb: "file_blocks s' i = future_blocks s i e" using w by (simp add: written_def)
  then have "entries_of s' i = max (entries_of s i) e" using f(1) length_file_blocks by metis
  then show "file_ok s' i" using w f(2,3,5) F fb by (simp add: file_ok_def written_def)
  show "content s' i = take F X" using w fb by (simp add: content_def written_def)
qed

text \<open>The write as a replacement of a range of the content.\<close>

definition end_block :: "nat \<Rightarrow> nat \<Rightarrow> nat" where
  "end_block o' z = (o' + z - 1) div 512 + 1"

definition wrote :: "fs \<Rightarrow> nat \<Rightarrow> nat \<Rightarrow> byte list \<Rightarrow> fs \<Rightarrow> bool" where
  "wrote s i o' dat s' \<longleftrightarrow> fs_ok s' \<and> file_ok s' i \<and> ERRNO s' = ERRNO s
     \<and> content s' i = mput o' dat (content s i) \<and> fsize_of s' i = max (fsize_of s i) (o' + length dat)
     \<and> free_inodes s' \<union> nodes_of Fnode s' i = free_inodes s \<union> nodes_of Fnode s i
     \<and> file_blocks s' i = future_blocks s i (end_block o' (length dat))
     \<and> free_list s' = drop (end_block o' (length dat) - entries_of s i) (free_list s)
     \<and> (\<forall>m<4096. m \<notin> {0, i} \<union> free_inodes s \<union> nodes_of Fnode s i \<longrightarrow> inode_at s' m = inode_at s m)
     \<and> (\<forall>b>1024. b \<notin> unat ` set (file_blocks s' i) \<longrightarrow> file_blk s' b = file_blk s b)"

lemma fstream_write_content:
  assumes s: "fs_ok s" "ERRNO s = 0" "file_ok s i" and o: "o' \<le> fsize_of s i" "o' + z < 2147483648"
    and fz: "fsize_of s i < 2147483648" and z: "0 < z" "z \<le> length buf"
    and room: "room_for_blocks s i ((o' + z - 1) div 512 + 1)"
  shows "\<exists>s'. fstream_write (int i) buf (int z) (int o') s = Some (int z, s') \<and> wrote s i o' (take z buf) s'"
proof -
  define e where "e = (o' + z - 1) div 512 + 1"
  let ?n = "entries_of s i" and ?D = "data_of s (file_blocks s i)"
  from fstream_write_ok[OF assms, folded e_def] obtain s' where s': "fstream_write (int i) buf (int z) (int o') s = Some (int z, s')"
    "written s i (future_blocks s i e) (mput o' (take z buf) (?D @ zeros (512 * (e - ?n)))) (max (fsize_of s i) (o' + z))
       (drop (e - ?n) (free_list s)) s'" by blast
  have n: "fsize_of s i \<le> 512 * ?n" using s(3) by (simp add: file_ok_def)
  have "o' + z - 1 < 512 * e" by (simp add: e_def)
  moreover have "512 * ?n \<le> 512 * max ?n e" "512 * e \<le> 512 * max ?n e" by (intro mult_le_mono2 max.cobounded1 max.cobounded2)+
  ultimately have "fsize_of s i \<le> 512 * max ?n e" "o' + z \<le> 512 * max ?n e" using n by linarith+
  then have F: "max (fsize_of s i) (o' + z) \<le> 512 * max ?n e" by (rule max.boundedI)
  have el: "e - ?n \<le> length (free_list s)" using room by (simp add: room_for_blocks_def e_def)
  note wf = written_file[OF s'(2) s(1,3) el F]
  have "length (take z buf) = z" using z by simp
  then have "content s' i = mput o' (take z buf) (content s i)"
    using take_mput[OF o(1), of ?D "take z buf"] n fs_ok_disk[OF s(1)] unfolding wf(2) by (simp add: content_def)
  then have "wrote s i o' (take z buf) s'"
    using s'(2) wf(1) z unfolding wrote_def written_def by (simp add: end_block_def e_def)
  then show ?thesis using s'(1) by blast
qed

end
