(* ===== verification/FS_Handlers.thy ===== *)
theory FS_Handlers
  imports FS_Lookup FS_FileWrite
begin

text \<open>
  The FUSE handlers of \<open>sfs.c\<close>. A handler takes the path as C memory and yields its return
  value and the new state, \<open>None\<close> where it reaches undefined behaviour. What FUSE supplies
  (user and group of the caller, the buffers) is an argument; the log is left out.
  \<open>size_t\<close> and \<open>off_t\<close> arguments are converted to \<open>int\<close> where the code does.
\<close>

section \<open>Mounting\<close>

definition sfs_init :: "int \<Rightarrow> nat \<Rightarrow> (nat \<Rightarrow> byte list) \<Rightarrow> fs \<Rightarrow> exit_status + fs" where
  "sfs_init fd len pages s =
     (case disk_open fd len pages s of
        Inl e \<Rightarrow> Inl e
      | Inr s \<Rightarrow> Inr (inode_init (free_block_init s)))"

definition sfs_destroy :: "fs \<Rightarrow> fs" where
  "sfs_destroy s = disk_close s"

section \<open>Attributes and existence\<close>

definition zero_stat :: stat where
  "zero_stat = \<lparr>st_mode = 0, st_nlink = 0, st_uid = 0, st_gid = 0, st_size = 0, st_blksize = 0, st_blocks = 0\<rparr>"

definition sfs_getattr :: "byte list \<Rightarrow> int \<Rightarrow> int \<Rightarrow> fs \<Rightarrow> ((int \<times> stat) \<times> fs) option" where
  "sfs_getattr path uid gid s = do {
     let statbuf = zero_stat;
     ((inum, _), s) \<leftarrow> path_to_inum path s;
     (if inum < 0 then Some ((- ENOENT, statbuf), s)
      else let (statbuf, s) = inode_get_attr (word_of_int inum) statbuf s
           in Some ((0, statbuf\<lparr>st_uid := uid, st_gid := gid\<rparr>), s)) }"

definition sfs_open :: "byte list \<Rightarrow> fs \<Rightarrow> (int \<times> fs) option" where
  "sfs_open path s = do {
     ((inum, p_inum), s) \<leftarrow> path_to_inum path s;
     Some (if inum < 0 then - ENOENT else 0, s) }"

definition sfs_opendir :: "byte list \<Rightarrow> fs \<Rightarrow> (int \<times> fs) option" where
  "sfs_opendir path s = do {
     ((inum, p_inum), s) \<leftarrow> path_to_inum path s;
     Some (if inum < 0 then - ENOENT else 0, s) }"

definition sfs_release :: "byte list \<Rightarrow> fs \<Rightarrow> (int \<times> fs) option" where
  "sfs_release path s = Some (0, s)"

definition sfs_releasedir :: "byte list \<Rightarrow> fs \<Rightarrow> (int \<times> fs) option" where
  "sfs_releasedir path s = Some (0, s)"

section \<open>Files\<close>

text \<open>\<open>filename ? filename + 1 : path\<close>: the memory from the last component on.\<close>

definition base_ptr :: "byte list \<Rightarrow> byte list" where
  "base_ptr path = (case strrchr path slash of Some i \<Rightarrow> drop (i + 1) path | None \<Rightarrow> path)"

definition sfs_create :: "byte list \<Rightarrow> fs \<Rightarrow> (int \<times> fs) option" where
  "sfs_create path s = do {
     let fname = base_ptr path;
     ((inum, p_inum), s) \<leftarrow> path_to_inum path s;
     (if 0 < inum then Some (- EEXIST, s)
      else do {
        let (inum, s) = free_inode_pop s;
        let s = fnode_init inum (word_of_int p_inum) s;
        e \<leftarrow> di_ent_c fname inum;
        s \<leftarrow> dnode_append p_inum e s;
        let (retstat, s) = errno_pop s;
        (if retstat < 0
         then do {
           s \<leftarrow> dnode_remove p_inum fname s;
           s \<leftarrow> free_inode_push inum s;
           Some (retstat, s) }
         else Some (retstat, s)) }) }"

definition sfs_unlink :: "byte list \<Rightarrow> fs \<Rightarrow> (int \<times> fs) option" where
  "sfs_unlink path s = do {
     let fname = base_ptr path;
     ((inum, p_inum), s) \<leftarrow> path_to_inum path s;
     (if inum < 0 then Some (- ENOENT, s)
      else do {
        s \<leftarrow> fstream_free inum 0 s;
        s \<leftarrow> fnode_listing_set (word_of_int inum) 0 s;
        s \<leftarrow> free_inode_push (word_of_int inum) s;
        s \<leftarrow> dnode_remove p_inum fname s;
        Some (0, s) }) }"

definition sfs_read :: "byte list \<Rightarrow> int \<Rightarrow> int \<Rightarrow> fs \<Rightarrow> ((int \<times> byte list) \<times> fs) option" where
  "sfs_read path sz offset s = do {
     ((inum, _), s) \<leftarrow> path_to_inum path s;
     (if inum < 0 then Some ((- ENOENT, []), s)
      else fstream_read inum (c_int sz) (c_int offset) s) }"

definition sfs_write :: "byte list \<Rightarrow> byte list \<Rightarrow> int \<Rightarrow> int \<Rightarrow> fs \<Rightarrow> (int \<times> fs) option" where
  "sfs_write path buf sz offset s = do {
     ((inum, _), s) \<leftarrow> path_to_inum path s;
     (if inum < 0 then Some (- ENOENT, s)
      else do {
        (retstat, s) \<leftarrow> fstream_write inum buf (c_int sz) (c_int offset) s;
        (if retstat < 0
         then let (i, s) = free_inode_pop s;
                  (e, s) = errno_pop s;
                  (i, s) = free_block_pop s;
                  (e, s) = errno_pop s
              in Some (retstat, s)
         else Some (retstat, s)) }) }"

text \<open>The loop \<open>for (i = b_size; i < new_b_size; i++) f[i] = free_block_allocate(NULL)\<close>.\<close>

primrec extend_blocks :: "nat \<Rightarrow> int \<Rightarrow> fs \<Rightarrow> fs option" where
  "extend_blocks 0 i s = Some s"
| "extend_blocks (Suc m) i s = do {
     let (blknum, s) = free_block_allocate None s;
     f \<leftarrow> f_put i blknum (f_arr s);
     extend_blocks m (i + 1) (s\<lparr>f_arr := f\<rparr>) }"

definition sfs_truncate :: "byte list \<Rightarrow> int \<Rightarrow> fs \<Rightarrow> (int \<times> fs) option" where
  "sfs_truncate path offset s = do {
     ((inum, _), s) \<leftarrow> path_to_inum path s;
     let fsize = c_int offset;
     let new_b_size = c_int (offset sdiv int BLOCK_SIZE + 1);
     (if inum < 0 then Some (- ENOENT, s)
      else do {
        let (b_size, s) = fnode_listing (word_of_int inum) s;
        s \<leftarrow> extend_blocks (nat (new_b_size - int b_size)) (int b_size) s;
        s \<leftarrow> fstream_free inum new_b_size s;
        s \<leftarrow> fnode_listing_set (word_of_int inum) new_b_size s;
        Some (0, inode_set_attr_upc (word_of_int inum) None (Some fsize) s) }) }"

section \<open>Directories\<close>

text \<open>\<open>fbuf\<close> is the uninitialised local \<open>char filename[14]\<close>.\<close>

definition sfs_mkdir :: "byte list \<Rightarrow> byte list \<Rightarrow> fs \<Rightarrow> (int \<times> fs) option" where
  "sfs_mkdir path fbuf s = do {
     fname \<leftarrow> path_basename path fbuf;
     ((inum, pinum), s) \<leftarrow> path_to_inum path s;
     (if 0 < inum then Some (- EEXIST, s)
      else do {
        let (inum, s) = free_inode_pop s;
        let s = dnode_init inum (word_of_int pinum) s;
        e \<leftarrow> di_ent_c fname inum;
        s \<leftarrow> dnode_append pinum e s;
        let (retstat, s) = errno_pop s;
        (if retstat < 0
         then do {
           s \<leftarrow> dnode_remove pinum fname s;
           s \<leftarrow> free_inode_push inum s;
           Some (retstat, s) }
         else Some (retstat, s)) }) }"

definition sfs_rmdir :: "byte list \<Rightarrow> byte list \<Rightarrow> fs \<Rightarrow> (int \<times> fs) option" where
  "sfs_rmdir path fbuf s = do {
     fname \<leftarrow> path_basename path fbuf;
     ((inum, pinum), s) \<leftarrow> path_to_inum path s;
     (if inum < 0 then Some (- ENOENT, s)
      else do {
        s \<leftarrow> dnode_listing_set (word_of_int inum) 0 s;
        s \<leftarrow> dnode_remove pinum fname s;
        Some (0, s) }) }"

text \<open>The names handed to the filler, in order; a size above the array reads past it.\<close>

definition sfs_readdir :: "byte list \<Rightarrow> fs \<Rightarrow> ((int \<times> byte list list) \<times> fs) option" where
  "sfs_readdir path s = do {
     ((inum, _), s) \<leftarrow> path_to_inum path s;
     (if inum < 0 then Some ((- ENOENT, []), s)
      else let (n, s) = dnode_listing (word_of_int inum) s
           in (if 16 * n \<le> length (d_arr s)
               then Some ((0, map (\<lambda>i. de_name (d_ent (d_arr s) i)) [0..<n]), s)
               else None)) }"

section \<open>The operation table and the command line\<close>

text \<open>A request as FUSE delivers it through \<open>sfs_oper\<close>, and the handler the table names.\<close>

datatype request =
    Getattr "byte list" int int
  | Create "byte list"
  | Unlink "byte list"
  | Open "byte list"
  | Release "byte list"
  | Read "byte list" int int
  | Write "byte list" "byte list" int int
  | Truncate "byte list" int
  | Rmdir "byte list" "byte list"
  | Mkdir "byte list" "byte list"
  | Opendir "byte list"
  | Readdir "byte list"
  | Releasedir "byte list"

definition drop_out :: "((int \<times> 'a) \<times> fs) option \<Rightarrow> (int \<times> fs) option" where
  "drop_out r = (case r of None \<Rightarrow> None | Some ((v, _), s) \<Rightarrow> Some (v, s))"

fun sfs_oper :: "request \<Rightarrow> fs \<Rightarrow> (int \<times> fs) option" where
  "sfs_oper (Getattr p u g) s = drop_out (sfs_getattr p u g s)"
| "sfs_oper (Create p) s = sfs_create p s"
| "sfs_oper (Unlink p) s = sfs_unlink p s"
| "sfs_oper (Open p) s = sfs_open p s"
| "sfs_oper (Release p) s = sfs_release p s"
| "sfs_oper (Read p n off) s = drop_out (sfs_read p n off s)"
| "sfs_oper (Write p b n off) s = sfs_write p b n off s"
| "sfs_oper (Truncate p off) s = sfs_truncate p off s"
| "sfs_oper (Rmdir p fb) s = sfs_rmdir p fb s"
| "sfs_oper (Mkdir p fb) s = sfs_mkdir p fb s"
| "sfs_oper (Opendir p) s = sfs_opendir p s"
| "sfs_oper (Readdir p) s = drop_out (sfs_readdir p s)"
| "sfs_oper (Releasedir p) s = sfs_releasedir p s"

text \<open>
  The checks of \<open>main\<close> on its arguments: \<open>None\<close> is the abort of \<open>sfs_usage\<close>, otherwise the
  disk file and the arguments passed on to FUSE. An argument is a nonempty list with the first
  character readable, the NUL of an empty string.
\<close>

definition main_args :: "string list \<Rightarrow> (string \<times> string list) option" where
  "main_args argv =
     (let argc = length argv
      in if argc < 3 \<or> take 1 (argv ! (argc - 2)) = ''-'' \<or> take 1 (argv ! (argc - 1)) = ''-''
         then None
         else Some (argv ! (argc - 2), butlast (argv[argc - 2 := argv ! (argc - 1)])))"

end
