(* ===== verification/FS_Create.thy ===== *)
theory FS_Create
  imports FS_Handlers
begin

text \<open>
  Creating files and directories: the handlers \<open>sfs_create\<close> and \<open>sfs_mkdir\<close> on the path that
  succeeds. The new inode is a well-formed empty node, the parent directory gets one entry at its end, and
  the path resolves to the new inode afterwards.
\<close>

section \<open>The entry and its name\<close>

definition new_entry :: "byte list \<Rightarrow> nat \<Rightarrow> di_ent" where
  "new_entry fname x = \<lparr>de_name = (take 14 fname)[13 := 0], de_inum = of_nat x\<rparr>"

lemma di_ent_c_new: "14 \<le> length fname \<Longrightarrow> di_ent_c fname (of_nat x) = Some (new_entry fname x)"
  by (simp add: di_ent_c_def new_entry_def)

lemma cstr_new_entry:
  assumes "terminated fname" "length (cstr fname) \<le> 13"
  shows "cstr (de_name (new_entry fname x)) = cstr fname"
proof -
  obtain r where r: "fname = cstr fname @ 0 # r" using terminated_split[OF assms(1)] by blast
  define c where "c = cstr fname"
  have c: "0 \<notin> set c" by (simp add: c_def cstr_no_nul)
  have "take 14 fname = c @ 0 # take (13 - length c) r"
    by (subst r) (use assms(2) in \<open>simp add: c_def[symmetric] take_Cons' Suc_diff_le\<close>)
  then have "\<exists>q. (take 14 fname)[13 := 0] = c @ 0 # q"
    using assms(2) by (cases "length c = 13") (auto simp: c_def[symmetric] list_update_append split: nat.split)
  then show ?thesis using c by (auto simp: new_entry_def c_def[symmetric])
qed

lemma dir_lookup_Cons: "dir_lookup (e # es) c = (if name_match c e then uint (de_inum e) else dir_lookup es c)"
  by (simp add: dir_lookup_def)

lemma dir_lookup_append: "dir_lookup es c = -1 \<Longrightarrow> name_match c e \<Longrightarrow> dir_lookup (es @ [e]) c = uint (de_inum e)"
proof (induction es)
  case (Cons a es)
  have "uint (de_inum a) \<noteq> -1" using uint_ge_0[of "de_inum a"] by linarith
  then show ?case using Cons by (auto simp: dir_lookup_Cons split: if_splits)
qed (simp add: dir_lookup_def)

section \<open>A new node in a directory\<close>

definition created :: "nkind \<Rightarrow> fs \<Rightarrow> nat \<Rightarrow> byte list \<Rightarrow> nat \<Rightarrow> inode_t \<Rightarrow> fs \<Rightarrow> bool" where
  "created k s i fname x nd s' \<longleftrightarrow>
     fs_ok s' \<and> x \<in> free_inodes s \<and> node_ok k s' x \<and> inode_at s' x = nd \<and> node_ok Dnode s' i
     \<and> dir_entries s' i = dir_entries s i @ [new_entry fname x]
     \<and> lookup_in s' i (cstr fname) = int x \<and> ERRNO s' = ERRNO s
     \<and> free_inodes s' \<union> nodes_of Dnode s' i = (free_inodes s - {x}) \<union> nodes_of Dnode s i \<and> nodes_of k s' x = {}
     \<and> kept s ({i} \<union> free_inodes s \<union> nodes_of Dnode s i) s'"

definition room_for_entry :: "fs \<Rightarrow> nat \<Rightarrow> bool" where
  "room_for_entry s i \<longleftrightarrow> entries_of s i < 2085
     \<and> need (npages Dnode (Suc (entries_of s i))) (pages_of Dnode s i) 0 0 < card (free_inodes s)"

lemma create_node:
  assumes s: "fs_ok s" and i: "node_ok Dnode s i" "room_for_entry s i"
    and f: "terminated fname" "14 \<le> length fname" "length (cstr fname) \<le> 13" "lookup_in s i (cstr fname) = -1"
    and x: "x = Min (free_inodes s)" and nd: "length nd = INODE_SIZE" "md_ino nd = of_nat x" "npages k (unat (md_size nd)) = 0"
  shows "\<exists>s1 s'. free_inode_pop s = (of_nat x, s1) \<and> x \<in> free_inodes s
     \<and> dnode_append (int i) (new_entry fname x) (inode_dump (int x) nd s1) = Some s' \<and> created k s i fname x nd s'"
proof -
  let ?F = "{i} \<union> free_inodes s \<union> nodes_of Dnode s i"
  have ne: "free_inodes s \<noteq> {}" using i(2) by (auto simp: room_for_entry_def)
  from new_node[OF s ne x nd] obtain s1 where s1: "free_inode_pop s = (of_nat x, s1)"
    "fs_ok (inode_dump (int x) nd s1)" "free_inodes (inode_dump (int x) nd s1) = free_inodes s - {x}" "x \<in> free_inodes s"
    "node_ok k (inode_dump (int x) nd s1) x" "nodes_of k (inode_dump (int x) nd s1) x = {}"
    "inode_at (inode_dump (int x) nd s1) x = nd" "kept s {x} (inode_dump (int x) nd s1)" by blast
  define t where "t = inode_dump (int x) nd s1"
  note t = s1(2-8)[folded t_def]
  have kf: "kept s (free_inodes s) t" using kept_mono[OF t(7)] t(3) by blast
  have disj: "({i} \<union> nodes_of Dnode s i) \<inter> free_inodes s = {}" using i(1) by (auto simp: node_ok_def)
  have "free_inodes t \<subseteq> free_inodes s" using t(2) by blast
  from unchanged_node[OF kf i(1) disj this]
  have ti: "node_ok Dnode t i" "inode_at t i = inode_at s i" "nodes_of Dnode t i = nodes_of Dnode s i"
    "node_bytes t (inode_at s i) (pages_of Dnode s i) = node_bytes s (inode_at s i) (pages_of Dnode s i)" by blast+
  have ent: "entries_of t i = entries_of s i" "pages_of Dnode t i = pages_of Dnode s i" "dir_entries t i = dir_entries s i"
    using ti(2,4) by (simp_all add: entries_of_def pages_of_def dir_entries_def)
  have cnt: "need (npages Dnode (Suc (entries_of t i))) (pages_of Dnode t i) 0 0 \<le> card (free_inodes t)"
  proof -
    have "card (free_inodes t) = card (free_inodes s) - 1"
      unfolding t(2) by (rule card_Diff_singleton[OF t(3)])
    then show ?thesis using i(2) unfolding room_for_entry_def ent by linarith
  qed
  have "length (de_name (new_entry fname x)) = 14" using f(2) by (simp add: new_entry_def)
  from dnode_append_ok[OF t(1) ti(1) _ this cnt] i(2) obtain s' where s':
    "dnode_append (int i) (new_entry fname x) t = Some s'" "fs_ok s'" "node_ok Dnode s' i"
    "dir_entries s' i = dir_entries s i @ [new_entry fname x]"
    "free_inodes s' \<union> nodes_of Dnode s' i = free_inodes t \<union> nodes_of Dnode s i"
    "kept t ({i} \<union> free_inodes t \<union> nodes_of Dnode s i) s'"
    by (auto simp: ent ti(3) room_for_entry_def)
  have "x \<noteq> i" "x \<notin> nodes_of Dnode s i" "x \<notin> free_inodes t" using i(1) t(2,3) by (auto simp: node_ok_def)
  then have "({x} \<union> nodes_of k t x) \<inter> ({i} \<union> free_inodes t \<union> nodes_of Dnode s i) = {}" using t(5) by simp
  moreover have "free_inodes s' \<subseteq> {i} \<union> free_inodes t \<union> nodes_of Dnode s i" using s'(5) by blast
  ultimately have x': "node_ok k s' x" "inode_at s' x = nd" "nodes_of k s' x = {}"
    using unchanged_node[OF s'(6) t(4)] t(5,6) by simp_all
  have "kept t ?F s'" by (rule kept_mono[OF s'(6)]) (use t(2) in auto)
  moreover have "kept s ?F t" by (rule kept_mono[OF kf]) blast
  ultimately have kp: "kept s ?F s'" by (metis kept_trans)
  have xs: "uint (of_nat x :: ushort) = int x"
    using free_inodes_range[OF s t(3)] by (intro uint_of_nat_ushort) simp
  have nm: "name_match (cstr fname) (new_entry fname x)"
    using cstr_new_entry[OF f(1,3)] by (simp add: name_match_def)
  have nd: "cstr fname \<noteq> dot" using f(4) by (auto simp: lookup_in_def)
  then have "lookup_in s' i (cstr fname) = int x"
    using dir_lookup_append[OF _ nm, of "dir_entries s i"] f(4) xs by (simp add: lookup_in_def s'(4) new_entry_def)
  then have "created k s i fname x nd s'" using s' x' t(2,3) kp by (simp add: created_def kept_def)
  then show ?thesis using s1(1) t(3) s'(1) by (auto simp: t_def)
qed

section \<open>The handlers\<close>

lemma last_slash: "\<exists>a. slash # dirs_text cs = a @ [slash]"
proof (induction cs rule: rev_induct)
  case (snoc d cs)
  then show ?case by (auto simp: dirs_text_def)
qed (simp add: dirs_text_def)

lemma path_text_split:
  assumes "\<forall>d\<in>set cs. component d" "component c"
  shows "\<exists>a. strrchr (path_text cs c @ 0 # r) slash = Some (length a) \<and> path_text cs c @ 0 # r = a @ slash # c @ 0 # r"
proof -
  obtain a where a: "slash # dirs_text cs = a @ [slash]" using last_slash by blast
  have "slash \<noteq> 0" by (simp add: slash_def)
  then have "0 \<notin> set (path_text cs c)" using assms by (auto simp: path_text_def dirs_text_def component_def)
  moreover have "path_text cs c = a @ slash # c" using a by (simp add: path_text_def)
  ultimately have "strrchr (path_text cs c @ 0 # r) slash = Some (length a)"
    using assms(2) strrchr_last[of "path_text cs c" a slash c r] by (simp add: component_def)
  then show ?thesis using \<open>path_text cs c = a @ slash # c\<close> by auto
qed

lemma base_ptr_path:
  "\<forall>d\<in>set cs. component d \<Longrightarrow> component c \<Longrightarrow> base_ptr (path_text cs c @ 0 # r) = c @ 0 # r"
  using path_text_split[of cs c r] by (auto simp: base_ptr_def)

lemma path_basename_path:
  assumes "\<forall>d\<in>set cs. component d" "component c" "length c + 1 \<le> length out"
  shows "\<exists>f. path_basename (path_text cs c @ 0 # r) out = Some f \<and> length f = length out \<and> terminated f \<and> cstr f = c"
proof -
  have "cstr (c @ 0 # r) = c" "terminated (c @ 0 # r)" using assms(2) by (simp_all add: component_def)
  then show ?thesis using path_text_split[OF assms(1,2), of r] c_strcpy_Some[of "c @ 0 # r" out] assms(3)
    by (auto simp: path_basename_def)
qed

lemma created_same_disk: "same_disk s t \<Longrightarrow> created k t i f x nd s' = created k s i f x nd s'"
  by (simp add: created_def kept_def same_disk_frame)

lemma room_same_disk: "same_disk s t \<Longrightarrow> room_for_entry t i = room_for_entry s i"
  by (simp add: room_for_entry_def same_disk_frame)

lemma sfs_create_ok:
  assumes s: "fs_ok s" "ERRNO s = 0" and cs: "\<forall>d\<in>set cs. component d" "component c" "length (path_text cs c) < PATH_MAX"
    and w: "path_walk s 2 cs (int i)" "node_ok Dnode s i" "lookup_in s i c = -1" "room_for_entry s i"
    and c: "length c \<le> 13" "14 \<le> length (c @ 0 # r)" and x: "x = Min (free_inodes s)"
  shows "\<exists>s'. sfs_create (path_text cs c @ 0 # r) s = Some (0, s')
     \<and> created Fnode s i (c @ 0 # r) x (file_node (of_nat x) (of_nat i)) s'"
proof -
  let ?f = "c @ 0 # r"
  from path_to_inum_ok[OF s(1) cs(1,2) _ _ w(1,2), of "[]" r] cs(3) w(3) obtain t where
    t: "path_to_inum (path_text cs c @ 0 # r) s = Some ((-1, int i), t)" "same_disk s t" by auto
  note d = same_disk_frame[OF t(2)]
  have f: "terminated ?f" "cstr ?f = c" using cs(2) by (simp_all add: component_def)
  have l: "lookup_in t i (cstr ?f) = -1" using w(3) d by (auto simp: f lookup_in_def split: if_splits)
  have xt: "x = Min (free_inodes t)" using x d by simp
  have fn: "npages Fnode (unat (md_size (file_node (of_nat x) (of_nat i)))) = 0" by (simp add: file_node_fields)
  have "fs_ok t" "node_ok Dnode t i" "room_for_entry t i" using d s(1) w(2,4) room_same_disk[OF t(2)] by simp_all
  from create_node[OF this f(1) c(2) _ l xt length_file_node file_node_fields(1) fn] c(1) obtain s1 s' where s':
    "free_inode_pop t = (of_nat x, s1)" "x \<in> free_inodes t"
    "dnode_append (int i) (new_entry ?f x) (inode_dump (int x) (file_node (of_nat x) (of_nat i)) s1) = Some s'"
    "created Fnode t i ?f x (file_node (of_nat x) (of_nat i)) s'" by (auto simp: f)
  have "x < 65536" using free_inodes_range[OF \<open>fs_ok t\<close> s'(2)] by simp
  then have u: "uint (of_nat x :: ushort) = int x" by (rule uint_of_nat_ushort)
  have e: "ERRNO s' = 0" "s'\<lparr>ERRNO := 0\<rparr> = s'" using s'(4) d s(2) by (auto simp: created_def)
  have "sfs_create (path_text cs c @ 0 # r) s = Some (0, s')"
    using t(1) s'(1,3) u e di_ent_c_new[OF c(2), of x] base_ptr_path[OF cs(1,2), of r]
    by (simp add: sfs_create_def fnode_init_eq errno_pop_def)
  then show ?thesis using s'(4) created_same_disk[OF t(2)] by blast
qed

lemma sfs_mkdir_ok:
  assumes s: "fs_ok s" "ERRNO s = 0" and cs: "\<forall>d\<in>set cs. component d" "component c" "length (path_text cs c) < PATH_MAX"
    and w: "path_walk s 2 cs (int i)" "node_ok Dnode s i" "lookup_in s i c = -1" "room_for_entry s i"
    and c: "length c \<le> 13" "length fbuf = 14" and x: "x = Min (free_inodes s)"
  shows "\<exists>s' f. sfs_mkdir (path_text cs c @ 0 # r) fbuf s = Some (0, s') \<and> cstr f = c \<and> terminated f
     \<and> created Dnode s i f x (dir_node (of_nat x) (of_nat i)) s'"
proof -
  from path_to_inum_ok[OF s(1) cs(1,2) _ _ w(1,2), of "[]" r] cs(3) w(3) obtain t where
    t: "path_to_inum (path_text cs c @ 0 # r) s = Some ((-1, int i), t)" "same_disk s t" by auto
  note d = same_disk_frame[OF t(2)]
  obtain f where f: "path_basename (path_text cs c @ 0 # r) fbuf = Some f" "length f = 14" "terminated f" "cstr f = c"
    using path_basename_path[OF cs(1,2), of fbuf r] c by auto
  have l: "lookup_in t i (cstr f) = -1" using w(3) d by (auto simp: f lookup_in_def split: if_splits)
  have xt: "x = Min (free_inodes t)" using x d by simp
  have fn: "npages Dnode (unat (md_size (dir_node (of_nat x) (of_nat i)))) = 0" by (simp add: dir_node_size)
  have f2: "14 \<le> length f" "length (cstr f) \<le> 13" using f c(1) by simp_all
  have "fs_ok t" "node_ok Dnode t i" "room_for_entry t i" using d s(1) w(2,4) room_same_disk[OF t(2)] by simp_all
  from create_node[OF this f(3) f2 l xt length_dir_node dir_node_ino fn] obtain s1 s' where s':
    "free_inode_pop t = (of_nat x, s1)" "x \<in> free_inodes t"
    "dnode_append (int i) (new_entry f x) (inode_dump (int x) (dir_node (of_nat x) (of_nat i)) s1) = Some s'"
    "created Dnode t i f x (dir_node (of_nat x) (of_nat i)) s'" by auto
  have "x < 65536" using free_inodes_range[OF \<open>fs_ok t\<close> s'(2)] by simp
  then have u: "uint (of_nat x :: ushort) = int x" by (rule uint_of_nat_ushort)
  have e: "ERRNO s' = 0" "s'\<lparr>ERRNO := 0\<rparr> = s'" using s'(4) d s(2) by (auto simp: created_def)
  have "sfs_mkdir (path_text cs c @ 0 # r) fbuf s = Some (0, s')"
    using t(1) s'(1,3) u e f(1) di_ent_c_new[OF f2(1), of x]
    by (simp add: sfs_mkdir_def dnode_init_eq errno_pop_def)
  then show ?thesis using s'(4) created_same_disk[OF t(2)] f(3,4) by blast
qed

section \<open>Properties\<close>

text \<open>
  C4. Creating a file: when the path resolves to a directory with room, the name is new and at
  most 13 bytes long, and an inode is free, sfs_create succeeds: the least free inode becomes an
  empty file, the directory gets exactly one entry at its end, the name is found there from then on,
  no other inode or block changes, and no inode is lost. (The memory behind the name must be 14 bytes
  long, which di_ent_c copies.)
\<close>

theorem sfs_create_spec:
  assumes "fs_ok s" "ERRNO s = 0" "\<forall>d\<in>set cs. component d" "component c" "length (path_text cs c) < PATH_MAX"
    and "path_walk s 2 cs (int i)" "node_ok Dnode s i" "lookup_in s i c = -1" "room_for_entry s i"
    and "length c \<le> 13" "14 \<le> length (c @ 0 # r)" "x = Min (free_inodes s)"
  shows "\<exists>s'. sfs_create (path_text cs c @ 0 # r) s = Some (0, s')
     \<and> fs_ok s' \<and> x \<in> free_inodes s \<and> node_ok Fnode s' x \<and> inode_at s' x = file_node (of_nat x) (of_nat i)
     \<and> node_ok Dnode s' i \<and> dir_entries s' i = dir_entries s i @ [new_entry (c @ 0 # r) x] \<and> lookup_in s' i c = int x
     \<and> free_inodes s' \<union> nodes_of Dnode s' i = (free_inodes s - {x}) \<union> nodes_of Dnode s i
     \<and> kept s ({i} \<union> free_inodes s \<union> nodes_of Dnode s i) s'"
proof -
  have "cstr (c @ 0 # r) = c" using assms(4) by (simp add: component_def)
  then show ?thesis using sfs_create_ok[OF assms] by (auto simp: created_def)
qed

lemma root_room: "room_for_entry mounted 2"
  by (simp add: room_for_entry_def root_entries node_ok_root(2) mounted(3) npages_def need_def ndouble_def)

lemma root_walk: "path_walk mounted 2 [] (int 2)"
  using walk_here[of mounted 2] by simp

text \<open>The file \<open>/a\<close> in the root of a fresh disk.\<close>

lemma a_path: "\<forall>d\<in>set []. component d" "component [97]" "length (path_text [] [97]) < PATH_MAX"
  "lookup_in mounted 2 [97] = -1" "length [97 :: byte] \<le> 13" "3 = Min (free_inodes mounted)"
proof -
  show "3 = Min (free_inodes mounted)" unfolding mounted(3) by (rule Min_eqI[symmetric]) auto
  show "lookup_in mounted 2 [97] = -1" by (rule root_lookup) (simp_all add: dot_def)
qed (simp_all add: component_def slash_def path_text_def dirs_text_def)

theorem sfs_create_spec_witness:
  "\<exists>s'. sfs_create (path_text [] [97] @ 0 # zeros 19) mounted = Some (0, s') \<and> lookup_in s' 2 [97] = 3 \<and> node_ok Fnode s' 3"
proof -
  have "14 \<le> length ([97] @ 0 # zeros 19)" by simp
  from sfs_create_spec[OF mounted(1,5) a_path(1-3) root_walk node_ok_root(1) a_path(4) root_room a_path(5) this a_path(6)]
  show ?thesis by auto
qed

text \<open>
  C15. Making a directory likewise: sfs_mkdir gives the least free inode the entries for itself and
  its parent, and the name resolves to it.
\<close>

theorem sfs_mkdir_spec:
  assumes "fs_ok s" "ERRNO s = 0" "\<forall>d\<in>set cs. component d" "component c" "length (path_text cs c) < PATH_MAX"
    and "path_walk s 2 cs (int i)" "node_ok Dnode s i" "lookup_in s i c = -1" "room_for_entry s i"
    and "length c \<le> 13" "length fbuf = 14" "x = Min (free_inodes s)"
  shows "\<exists>s' e. sfs_mkdir (path_text cs c @ 0 # r) fbuf s = Some (0, s')
     \<and> fs_ok s' \<and> x \<in> free_inodes s \<and> node_ok Dnode s' x \<and> inode_at s' x = dir_node (of_nat x) (of_nat i)
     \<and> node_ok Dnode s' i \<and> dir_entries s' i = dir_entries s i @ [e] \<and> lookup_in s' i c = int x
     \<and> free_inodes s' \<union> nodes_of Dnode s' i = (free_inodes s - {x}) \<union> nodes_of Dnode s i
     \<and> kept s ({i} \<union> free_inodes s \<union> nodes_of Dnode s i) s'"
  using sfs_mkdir_ok[OF assms, of r] unfolding created_def by blast

theorem sfs_mkdir_spec_witness:
  "\<exists>s'. sfs_mkdir (path_text [] [97] @ [0]) (zeros 14) mounted = Some (0, s') \<and> lookup_in s' 2 [97] = 3 \<and> node_ok Dnode s' 3"
proof -
  have "length (zeros 14) = 14" by simp
  from sfs_mkdir_spec[OF mounted(1,5) a_path(1-3) root_walk node_ok_root(1) a_path(4) root_room a_path(5) this a_path(6), of "[]"]
  show ?thesis by auto
qed

end
