(* ===== verification/FS_FileSpec.thy ===== *)
theory FS_FileSpec
  imports FS_FileWrite
begin

text \<open>
  The contract of file contents: what \<open>fstream_read\<close> and \<open>fstream_write\<close> do to files seen as byte
  sequences, and that they leave the other files alone. The concrete state of the witnesses is a fresh disk
  with one empty file.
\<close>

section \<open>A new file, and another file\<close>

lemma new_file_ok:
  assumes "disk_ok s" "node_ok Fnode s x" "inode_at s x = file_node (of_nat x) p"
  shows "file_ok s x" "entries_of s x = 0" "fsize_of s x = 0" "content s x = []"
proof -
  show n: "entries_of s x = 0" "fsize_of s x = 0" using assms(3) by (simp_all add: entries_of_def fsize_of_def file_node_fields)
  then have "file_blocks s x = []" by (simp add: file_blocks_def)
  then show "file_ok s x" "content s x = []" using assms n by (simp_all add: file_ok_def content_def file_node_isdir)
qed

definition empty_file :: fs where
  "empty_file = inode_dump 3 (file_node 3 2) (snd (free_inode_pop mounted))"

lemma min_free: "3 = Min (free_inodes mounted)"
  unfolding mounted(3) by (rule Min_eqI[symmetric]) auto

lemma empty_file:
  "fs_ok empty_file" "ERRNO empty_file = 0" "free_inodes empty_file = {4..<1024}" "free_list empty_file = blocks_from 1025"
  "file_ok empty_file 3" "entries_of empty_file 3 = 0" "fsize_of empty_file 3 = 0" "content empty_file 3 = []"
proof -
  have "free_inodes mounted \<noteq> {}" "npages Fnode (unat (md_size (file_node (of_nat 3) (of_nat 2)))) = 0"
    using mounted(3) by (auto simp: file_node_fields)
  from new_node[OF mounted(1) this(1) min_free length_file_node file_node_fields(1) this(2)]
  have e: "fs_ok empty_file" "free_inodes empty_file = free_inodes mounted - {3}" "node_ok Fnode empty_file 3"
    "inode_at empty_file 3 = file_node (of_nat 3) (of_nat 2)" "kept mounted {3} empty_file"
    by (auto simp: empty_file_def)
  from new_file_ok[OF fs_ok_disk[OF e(1)] e(3,4)] e(1,2,5) mounted(2,3,5)
  show "fs_ok empty_file" "ERRNO empty_file = 0" "free_inodes empty_file = {4..<1024}" "free_list empty_file = blocks_from 1025"
    "file_ok empty_file 3" "entries_of empty_file 3 = 0" "fsize_of empty_file 3 = 0" "content empty_file 3 = []"
    by (auto simp: kept_def)
qed

lemma room_empty_file: "e \<le> 24 \<Longrightarrow> room_for_blocks empty_file 3 e"
  using empty_file(3,4,6) by (simp add: room_for_blocks_def pages_of_def npages_def need_def ndouble_def)

text \<open>A second file beside it.\<close>

definition two_files :: fs where
  "two_files = inode_dump 4 (file_node 4 2) (snd (free_inode_pop empty_file))"

lemma two_files:
  "fs_ok two_files" "ERRNO two_files = 0" "file_ok two_files 3" "file_ok two_files 4"
  "entries_of two_files 3 = 0" "entries_of two_files 4 = 0" "fsize_of two_files 3 = 0" "content two_files 4 = []"
  "free_inodes two_files = {5..<1024}" "free_list two_files = blocks_from 1025"
proof -
  have ne: "free_inodes empty_file \<noteq> {}" "npages Fnode (unat (md_size (file_node (of_nat 4) (of_nat 2)))) = 0"
    using empty_file(3) by (auto simp: file_node_fields)
  have m: "4 = Min (free_inodes empty_file)" unfolding empty_file(3) by (rule Min_eqI[symmetric]) auto
  from new_node[OF empty_file(1) ne(1) m length_file_node file_node_fields(1) ne(2)]
  have e: "fs_ok two_files" "free_inodes two_files = free_inodes empty_file - {4}" "node_ok Fnode two_files 4"
    "inode_at two_files 4 = file_node (of_nat 4) (of_nat 2)" "kept empty_file {4} two_files"
    by (auto simp: two_files_def)
  show fs: "fs_ok two_files" "ERRNO two_files = 0" "free_inodes two_files = {5..<1024}" "free_list two_files = blocks_from 1025"
    using e(1,2,5) empty_file(2-4) by (auto simp: kept_def)
  note f4 = new_file_ok[OF fs_ok_disk[OF e(1)] e(3,4)]
  show "file_ok two_files 4" "entries_of two_files 4 = 0" "content two_files 4 = []" by (rule f4)+
  have n3: "node_ok Fnode empty_file 3" "nodes_of Fnode empty_file 3 = {}"
    using empty_file(5,6) by (simp_all add: file_ok_def nodes_of_def pages_of_def)
  have "inode_at two_files 3 = inode_at empty_file 3" using e(5) by (simp add: kept_def)
  moreover have "node_ok Fnode two_files 3"
    using same_node[OF kept_inodes, of empty_file "{4..<1024}" two_files Fnode 3] n3 kept_mono[OF e(5), of "{4..<1024}"] fs(3)
    by auto
  ultimately show "entries_of two_files 3 = 0" "fsize_of two_files 3 = 0" "file_ok two_files 3"
    using empty_file(5-7) by (simp_all add: entries_of_def fsize_of_def file_ok_def file_blocks_def)
qed

text \<open>A write of \<open>bs\<close> at the start of the empty file.\<close>

lemma write_empty_file:
  assumes "0 < length bs" "length bs \<le> 512"
  shows "\<exists>s'. fstream_write 3 bs (int (length bs)) 0 empty_file = Some (int (length bs), s') \<and> wrote empty_file 3 0 bs s'"
proof -
  have "length bs - 1 < 512 * 1" using assms by linarith
  then have "(0 + length bs - 1) div 512 + 1 \<le> 24" using div_512[of "length bs - 1" 1] by simp
  from fstream_write_content[OF empty_file(1,2,5) _ _ _ assms(1) order.refl room_empty_file[OF this]] assms(2)
  show ?thesis by (simp add: empty_file(7))
qed

lemma unat_image: "unat (b :: blknum_t) \<in> unat ` S \<longleftrightarrow> b \<in> S"
  by (auto dest: unsigned_word_eqI)

text \<open>Another file after a write: disjoint inodes and blocks.\<close>

definition apart :: "fs \<Rightarrow> nat \<Rightarrow> nat \<Rightarrow> bool" where
  "apart s i j \<longleftrightarrow> ({j} \<union> nodes_of Fnode s j) \<inter> ({i} \<union> nodes_of Fnode s i) = {}
     \<and> set (file_blocks s j) \<inter> set (file_blocks s i) = {}"

lemma same_file:
  assumes s: "fs_ok s" "file_ok s j" and s': "node_ok Fnode s' j" "inode_at s' j = inode_at s j"
    "node_bytes s' (inode_at s j) (pages_of Fnode s j) = node_bytes s (inode_at s j) (pages_of Fnode s j)"
    and b: "\<forall>b\<in>set (file_blocks s j). file_blk s' (unat b) = file_blk s (unat b) \<and> uint b \<notin> set (free_list s')"
  shows "file_ok s' j" "content s' j = content s j" "file_blocks s' j = file_blocks s j" "fsize_of s' j = fsize_of s j"
proof -
  have n: "entries_of s' j = entries_of s j" "pages_of Fnode s' j = pages_of Fnode s j" "fsize_of s' j = fsize_of s j"
    using s'(2) by (simp_all add: entries_of_def pages_of_def fsize_of_def)
  then have fb: "file_blocks s' j = file_blocks s j" using s' by (simp add: file_blocks_def)
  have "data_of s' (file_blocks s j) = data_of s (file_blocks s j)"
    using b by (simp add: data_of_def cong: map_cong)
  then show "content s' j = content s j" using fb n by (simp add: content_def)
  show "file_ok s' j" using s(2) s'(1,2) fb n b by (simp add: file_ok_def)
  show "file_blocks s' j = file_blocks s j" "fsize_of s' j = fsize_of s j" using fb n by simp_all
qed

lemma wrote_other_file:
  assumes w: "wrote s i o' dat s'" and s: "fs_ok s" "file_ok s i" "file_ok s j" "apart s i j"
  shows "file_ok s' j \<and> content s' j = content s j"
proof -
  let ?F = "{0, i} \<union> free_inodes s \<union> nodes_of Fnode s i"
  have j: "node_ok Fnode s j" using s(3) by (simp add: file_ok_def)
  have "({j} \<union> nodes_of Fnode s j) \<inter> ?F = {}" using j s(4) by (auto simp: node_ok_def apart_def)
  moreover have "\<forall>m<4096. m \<notin> ?F \<longrightarrow> inode_at s' m = inode_at s m" using w by (simp add: wrote_def)
  moreover have "free_inodes s' \<subseteq> ?F" using w unfolding wrote_def by blast
  ultimately have n: "node_ok Fnode s' j" "inode_at s' j = inode_at s j"
    "node_bytes s' (inode_at s j) (pages_of Fnode s j) = node_bytes s (inode_at s j) (pages_of Fnode s j)"
    using same_node[of ?F s' s Fnode j] j by blast+
  let ?e = "end_block o' (length dat)"
  have e: "file_blocks s' i = future_blocks s i ?e" "free_list s' = drop (?e - entries_of s i) (free_list s)"
    using w by (simp_all add: wrote_def)
  have "file_blk s' (unat b) = file_blk s (unat b) \<and> uint b \<notin> set (free_list s')" if b: "b \<in> set (file_blocks s j)" for b
  proof -
    have db: "data_block b" "uint b \<notin> set (free_list s)" using b s(3) by (simp_all add: file_ok_def)
    have "b \<notin> set (map word_of_int (take n (free_list s)))" for n
      using db(2) free_list_words(2)[OF s(1)] by (auto dest: in_set_takeD)
    then have "b \<notin> set (file_blocks s' i)" using b s(4) e(1) by (auto simp: future_blocks_def apart_def)
    then have "unat b \<notin> unat ` set (file_blocks s' i)" by (simp add: unat_image)
    then have "file_blk s' (unat b) = file_blk s (unat b)" using w db(1) by (simp add: wrote_def data_block_def)
    moreover have "uint b \<notin> set (free_list s')" using db(2) e(2) by (auto dest: in_set_dropD)
    ultimately show ?thesis by blast
  qed
  then show ?thesis using same_file[OF s(1,3) n] by blast
qed

section \<open>Properties\<close>

text \<open>
  C12. Reading: fstream_read of a well-formed file returns exactly the requested range of its content, cut
  at the end of the file, and its length; only the listing array and the inode buffer change.
\<close>

theorem fstream_read_spec:
  assumes "fs_ok s" "file_ok s i" "o' + z < 2147483648" "fsize_of s i < 2147483648"
  shows "\<exists>b A. fstream_read (int i) (int z) (int o') s
     = Some ((int (length (mget o' z (content s i))), mget o' z (content s i)), s\<lparr>iblockbuf := b, f_arr := A\<rparr>)"
  using fstream_read_ok[OF assms] by blast

theorem fstream_read_spec_witness:
  "\<exists>s s' t. fstream_write 3 [1, 2, 3, 4] 4 0 empty_file = Some (4, s) \<and> fstream_read 3 7 1 s = Some ((3, [2, 3, 4]), t)"
proof -
  obtain s where s: "fstream_write 3 [1, 2, 3, 4] 4 0 empty_file = Some (4, s)" "wrote empty_file 3 0 [1, 2, 3, 4] s"
    using write_empty_file[of "[1, 2, 3, 4]"] by auto
  have c: "content s 3 = [1, 2, 3, 4]" "fs_ok s" "file_ok s 3" "fsize_of s 3 = 4"
    using s(2) empty_file(7,8) by (simp_all add: wrote_def mput_def)
  from fstream_read_spec[OF c(2,3), of 1 7] s(1) show ?thesis by (simp add: c mget_def) blast
qed

text \<open>
  C5. Writing: when the device has the data blocks and the page inodes the write needs, fstream_write
  at an offset within the file succeeds, leaves a well-formed file whose content is the old one with the
  range replaced (extended if it ends beyond), takes its new blocks from the head of the free list in
  order, and changes no other data block and no inode outside the file's own, the free ones and the superblock.
\<close>

theorem fstream_write_spec:
  assumes "fs_ok s" "ERRNO s = 0" "file_ok s i" "o' \<le> fsize_of s i" "o' + z < 2147483648"
    and "fsize_of s i < 2147483648" "0 < z" "z \<le> length buf" "room_for_blocks s i ((o' + z - 1) div 512 + 1)"
  shows "\<exists>s'. fstream_write (int i) buf (int z) (int o') s = Some (int z, s') \<and> wrote s i o' (take z buf) s'"
  by (rule fstream_write_content[OF assms])

theorem fstream_write_spec_witness:
  "\<exists>s'. fstream_write 3 (replicate 600 7) 600 0 empty_file = Some (600, s') \<and> content s' 3 = replicate 600 7
     \<and> free_list s' = blocks_from 1027"
proof -
  have "room_for_blocks empty_file 3 ((0 + 600 - 1) div 512 + 1)" by (rule room_empty_file) simp
  from fstream_write_spec[OF empty_file(1,2,5) _ _ _ _ _ this, of "replicate 600 7"]
  obtain s' where s': "fstream_write 3 (replicate 600 7) 600 0 empty_file = Some (600, s')" "wrote empty_file 3 0 (replicate 600 7) s'"
    by (auto simp: empty_file(7))
  then have c: "content s' 3 = replicate 600 7" "fsize_of s' 3 = 600" "file_ok s' 3" using empty_file(7,8) by (simp_all add: wrote_def mput_def)
  have "free_list s' = drop (end_block 0 600) (blocks_from 1025)"
    using s'(2) empty_file(4,6) by (simp add: wrote_def)
  moreover have "end_block 0 600 = 2" by (simp add: end_block_def)
  ultimately have "free_list s' = drop 2 (blocks_from 1025)" by simp
  then show ?thesis using s'(1) c by (simp add: drop_blocks_from)
qed

text \<open>
  What was written is read back: fstream_read of the written range, straight after the write, returns
  the bytes written.
\<close>

theorem fstream_write_read:
  assumes "fs_ok s" "ERRNO s = 0" "file_ok s i" "o' \<le> fsize_of s i" "o' + z < 2147483648"
    and "fsize_of s i < 2147483648" "0 < z" "z \<le> length buf" "room_for_blocks s i ((o' + z - 1) div 512 + 1)"
  shows "\<exists>s' s''. fstream_write (int i) buf (int z) (int o') s = Some (int z, s')
     \<and> fstream_read (int i) (int z) (int o') s' = Some ((int z, take z buf), s'')"
proof -
  obtain s' where s': "fstream_write (int i) buf (int z) (int o') s = Some (int z, s')" "wrote s i o' (take z buf) s'"
    using fstream_write_content[OF assms] by blast
  then have w: "fs_ok s'" "file_ok s' i" "content s' i = mput o' (take z buf) (content s i)" "fsize_of s' i < 2147483648"
    using assms(5,6,8) by (simp_all add: wrote_def)
  have "length (take o' (content s i)) = o'" using assms(1,3,4) fs_ok_disk[OF assms(1)] by (simp add: content_def file_ok_def)
  then have "mget o' z (content s' i) = take z buf" using assms(8) unfolding w(3) by (simp add: mget_def mput_def)
  then show ?thesis using fstream_read_ok[OF w(1,2) assms(5) w(4)] s'(1) assms(8) by (auto simp: min_def)
qed

theorem fstream_write_read_witness:
  "\<exists>s' s''. fstream_write 3 [104, 105] 2 0 empty_file = Some (2, s') \<and> fstream_read 3 2 0 s' = Some ((2, [104, 105]), s'')"
proof -
  have "room_for_blocks empty_file 3 ((0 + 2 - 1) div 512 + 1)" by (rule room_empty_file) simp
  from fstream_write_read[OF empty_file(1,2,5) _ _ _ _ _ this, of "[104, 105]"] show ?thesis by (simp add: empty_file(7))
qed

text \<open>
  Writing one file leaves every other one alone: a file whose inodes and blocks are not those of the
  written file keeps its content and stays well-formed.
\<close>

theorem fstream_write_other:
  assumes "fs_ok s" "ERRNO s = 0" "file_ok s i" "o' \<le> fsize_of s i" "o' + z < 2147483648"
    and "fsize_of s i < 2147483648" "0 < z" "z \<le> length buf" "room_for_blocks s i ((o' + z - 1) div 512 + 1)"
    and "file_ok s j" "apart s i j"
  shows "\<exists>s'. fstream_write (int i) buf (int z) (int o') s = Some (int z, s') \<and> file_ok s' j \<and> content s' j = content s j"
  using fstream_write_content[OF assms(1-9)] wrote_other_file[OF _ assms(1,3,10,11)] by blast

theorem fstream_write_other_witness:
  "\<exists>s'. fstream_write 3 [104, 105] 2 0 two_files = Some (2, s') \<and> file_ok s' 4 \<and> content s' 4 = []"
proof -
  have "room_for_blocks two_files 3 ((0 + 2 - 1) div 512 + 1)"
    using two_files(5,9,10) by (simp add: room_for_blocks_def pages_of_def npages_def need_def ndouble_def)
  moreover have "apart two_files 3 4"
    using two_files(5,6) by (simp add: apart_def nodes_of_def pages_of_def file_blocks_def)
  ultimately show ?thesis
    using fstream_write_other[OF two_files(1-3) _ _ _ _ _ _ two_files(4), of 0 2 "[104, 105]"] by (simp add: two_files(7,8))
qed

end
