(* ===== verification/FS_Unlink.thy ===== *)
theory FS_Unlink
  imports FS_Create FS_FileSpec
begin

text \<open>
  Cutting and removing files: \<open>fstream_free\<close> returns the blocks from a number on to the free list, and
  \<open>sfs_unlink\<close> returns all of them, the inode and the directory entry.
\<close>

section \<open>Returning blocks\<close>

lemma data_push_ok:
  assumes s: "fs_ok s" and b: "data_block b" "uint b \<notin> set (free_list s)"
  shows "\<exists>s'. snd (free_block_push (uint b) s) = s' \<and> fs_ok s' \<and> free_list s' = uint b # free_list s
     \<and> data_kept s {unat b} s' \<and> f_arr s' = f_arr s"
proof -
  have "1024 < uint b \<and> uint b < 32768" using b(1) by (simp only: data_block_uint)
  then have bv: "block_valid (uint b)" "int INODE_BLK_SIZE < uint b" by (simp_all add: block_valid_def)
  have ub: "1024 < unat b" using b(1) by (simp add: data_block_def)
  have fb: "fb_inv s" using s by (simp add: fs_ok_def)
  from push_aux[OF fb bv(1) b(2)] obtain s' where s': "snd (free_block_push (uint b) s) = s'" "fb_inv s'"
    "free_list s' = uint b # free_list s" "ERRNO s' = ERRNO s"
    "\<forall>n. n \<noteq> 0 \<and> n \<noteq> unat b \<longrightarrow> file_blk s' n = file_blk s n"
    "mget 128 384 (file_blk s' 0) = mget 128 384 (file_blk s 0)" "fblock.more s' = fblock.more s" by auto
  have ar: "d_arr s' = d_arr s" "f_arr s' = f_arr s" using more_arrays[OF s'(7)] by simp_all
  have k: "data_kept s {unat b} s'" using s' ar by (simp add: data_kept_def)
  have "free_inodes s' = free_inodes s" using data_kept_free[OF k] ub by simp
  moreover have "disk_ok s'" using fb_inv_ready[OF s'(2)] by (simp add: fb_ready_def)
  ultimately have "fs_ok s'" using s s'(2,3) ar bv(2) by (simp add: fs_ok_def ib_inv_def)
  then show ?thesis using s' k ar by blast
qed

lemma free_blocks_ok:
  assumes bs: "length bs \<le> 8344" "distinct bs" "\<forall>b\<in>set bs. data_block b"
  shows "fs_ok s \<Longrightarrow> \<forall>l<length bs. f_ent (f_arr s) l = bs ! l \<Longrightarrow> j + m \<le> length bs \<Longrightarrow>
    \<forall>b\<in>set (take m (drop j bs)). uint b \<notin> set (free_list s) \<Longrightarrow>
    \<exists>s'. free_blocks m (int j) s = Some s' \<and> fs_ok s' \<and> free_list s' = rev (map uint (take m (drop j bs))) @ free_list s
      \<and> data_kept s (unat ` set (take m (drop j bs))) s' \<and> f_arr s' = f_arr s"
proof (induction m arbitrary: j s)
  case 0
  then show ?case by (simp add: data_kept_def)
next
  case (Suc m)
  then have j: "j < length bs" by simp
  let ?b = "bs ! j" and ?r = "take m (drop (Suc j) bs)"
  have tk: "take (Suc m) (drop j bs) = ?b # ?r" using j by (simp add: Cons_nth_drop_Suc[symmetric])
  have b: "data_block ?b" using bs(3) j by simp
  have fl: "length (f_arr s) = ARR_BYTES" using Suc.prems(1) by (simp add: fs_ok_def)
  have nf: "uint ?b \<notin> set (free_list s)" using Suc.prems(4) by (simp add: tk)
  obtain u where u: "snd (free_block_push (uint ?b) s) = u" "fs_ok u" "free_list u = uint ?b # free_list s"
    "data_kept s {unat ?b} u" "f_arr u = f_arr s" using data_push_ok[OF Suc.prems(1) b nf] by blast
  have g: "f_get (f_arr s) (int j) = Some (uint ?b)" by (rule f_get_block[OF Suc.prems(2) j bs(1) fl b])
  have "distinct (?b # ?r)" using bs(2) by (metis tk distinct_drop distinct_take)
  then have "?b \<notin> set ?r" by simp
  then have "\<forall>b\<in>set ?r. uint b \<notin> set (free_list u)" using Suc.prems(4) u(3) by (auto simp: tk dest: unsigned_word_eqI)
  moreover have "\<forall>l<length bs. f_ent (f_arr u) l = bs ! l" "Suc j + m \<le> length bs" using Suc.prems u(5) by simp_all
  ultimately obtain s' where s': "free_blocks m (int (Suc j)) u = Some s'" "fs_ok s'"
    "free_list s' = rev (map uint ?r) @ free_list u" "data_kept u (unat ` set ?r) s'" "f_arr s' = f_arr u"
    using Suc.IH[OF u(2)] by blast
  have "int j + 1 = int (Suc j)" by simp
  then have "free_blocks (Suc m) (int j) s = Some s'" using g u(1) s'(1) by (simp add: add.commute)
  moreover have "data_kept s (unat ` set (?b # ?r)) s'" using data_kept_trans[OF u(4) s'(4)] by simp
  ultimately show ?case using s' u(3,5) by (simp add: tk)
qed

section \<open>fstream_free\<close>

text \<open>What cutting a file to \<open>n\<close> blocks leaves.\<close>

definition cut :: "fs \<Rightarrow> nat \<Rightarrow> nat \<Rightarrow> fs \<Rightarrow> bool" where
  "cut s i n s' \<longleftrightarrow> fs_ok s' \<and> node_ok Fnode s' i \<and> md_isdir (inode_at s' i) = 0 \<and> fsize_of s' i = fsize_of s i
     \<and> file_blocks s' i = take n (file_blocks s i)
     \<and> free_list s' = rev (map uint (drop n (file_blocks s i))) @ free_list s \<and> ERRNO s' = ERRNO s
     \<and> (\<not> leaks (npages Fnode n) (pages_of Fnode s i) \<longrightarrow>
          free_inodes s' \<union> nodes_of Fnode s' i = free_inodes s \<union> nodes_of Fnode s i)
     \<and> free_inodes s' \<union> nodes_of Fnode s' i \<subseteq> free_inodes s \<union> nodes_of Fnode s i \<and> free_inodes s \<subseteq> free_inodes s'
     \<and> (\<forall>m<4096. m \<notin> {0, i} \<union> free_inodes s \<union> nodes_of Fnode s i \<longrightarrow> inode_at s' m = inode_at s m)
     \<and> (\<forall>b>1024. b \<notin> unat ` set (drop n (file_blocks s i)) \<longrightarrow> file_blk s' b = file_blk s b)
     \<and> (\<forall>j<n. f_ent (f_arr s') j = file_blocks s i ! j)"

lemma need_shrink: "np \<le> npo \<Longrightarrow> need np npo 0 0 = 0"
  using ndouble_le[of np "ndouble npo"] ndouble_le[of npo "ndouble npo"] by (simp add: need_def)

lemma fstream_free_ok:
  assumes s: "fs_ok s" "file_ok s i" and n: "n \<le> entries_of s i"
  shows "\<exists>s'. fstream_free (int i) (int n) s = Some s' \<and> cut s i n s'"
proof -
  let ?n = "entries_of s i" and ?bs = "file_blocks s i" and ?G = "{0, i} \<union> free_inodes s \<union> nodes_of Fnode s i"
  define B where "B = unat ` set (drop n ?bs)"
  have nok: "node_ok Fnode s i" "md_isdir (inode_at s i) = 0" and bs: "distinct ?bs"
    "\<forall>b\<in>set ?bs. data_block b \<and> uint b \<notin> set (free_list s)" using s(2) by (simp_all add: file_ok_def)
  obtain b A where A: "fnode_listing (of_nat i) s = (?n, s\<lparr>iblockbuf := b, f_arr := A\<rparr>)" "length A = ARR_BYTES"
    "\<forall>j<?n. f_ent A j = ?bs ! j" using file_listing[OF s(1) nok(1)] by blast
  let ?t = "s\<lparr>iblockbuf := b, f_arr := A\<rparr>"
  have fl: "length (f_arr s) = ARR_BYTES" using s(1) by (simp add: fs_ok_def)
  have t: "fs_ok ?t" using s(1) A(2) fl by simp
  have n8: "?n \<le> 8344" using nok(1) npages_le[of Fnode ?n MAX_PAGES] by (simp add: node_ok_def pages_of_def ptr_at_def)
  have tk: "take (?n - n) (drop n ?bs) = drop n ?bs" by simp
  have "length ?bs \<le> 8344" "\<forall>b\<in>set ?bs. data_block b" using n8 bs(2) by simp_all
  moreover have "\<forall>l<length ?bs. f_ent (f_arr ?t) l = ?bs ! l" "n + (?n - n) \<le> length ?bs" using A(3) n by simp_all
  moreover have "\<forall>b\<in>set (take (?n - n) (drop n ?bs)). uint b \<notin> set (free_list ?t)"
    using bs(2) by (auto simp: tk dest: in_set_dropD)
  ultimately obtain u where u: "free_blocks (?n - n) (int n) ?t = Some u" "fs_ok u"
    "free_list u = rev (map uint (drop n ?bs)) @ free_list s" "data_kept ?t B u" "f_arr u = A"
    using free_blocks_ok[of ?bs ?t n "?n - n"] bs(1) t by (auto simp: tk B_def)
  have k: "data_kept s B u" using u(4) by (simp add: data_kept_def)
  have hi: "\<forall>b\<in>B. 1024 < b" using bs(2) by (auto simp: B_def data_block_def dest: in_set_dropD)
  note un = data_kept_node[OF k hi nok(1)]
  have pg: "pages_of Fnode u i = pages_of Fnode s i" using un(2) by (simp add: pages_of_def entries_of_def)
  have c: "clamp_size Fnode (int n) = n" using n n8 by (simp add: clamp_size_def)
  have le: "npages Fnode n \<le> pages_of Fnode s i" unfolding pages_of_def by (rule npages_mono[OF n])
  then obtain s' where s': "fnode_listing_set (of_nat i) (int n) u = Some s'" "resized Fnode u i n s'"
    "unchanged u ({i} \<union> free_inodes s \<union> nodes_of Fnode s i) s'"
    using listing_set_ok[OF u(2) un(1), of "int n"] n n8 un(3,5) by (auto simp: c pg need_shrink)
  have l: "length (inode_at u i) = INODE_SIZE" "length (f_arr u) = ARR_BYTES"
    using fs_ok_disk[OF u(2)] u(5) A(2) by simp_all
  have hd: "nd_head (set_head (f_arr u) n (inode_at u i)) (inode_at s' i)" using s'(2) by (simp add: resized_def)
  note hf = head_fields[OF hd set_head_simps(1)[OF l]]
  have fz: "fsize_of s' i = fsize_of s i" "md_isdir (inode_at s' i) = 0"
    using hf(6,7) set_head_simps(7,8)[OF l] un(2) nok(2) by (simp_all add: fsize_of_def)
  have "file_blocks s' i = map (f_ent A) [0..<n]" using resized_blocks[OF s'(2)] u(5) by simp
  also have "\<dots> = take n ?bs" by (rule nth_equalityI) (use A(3) n in auto)
  finally have fb: "file_blocks s' i = take n ?bs" .
  have "nat (int ?n - int n) = ?n - n" by simp
  then have run: "fstream_free (int i) (int n) s = Some s'"
    using A(1) u(1) s'(1) by (simp add: fstream_free_def)
  have "inode_at s' m = inode_at s m" if "m < 4096" "m \<notin> ?G" for m
    using s'(3) data_kept_inode[OF k hi, of m] that by (simp add: unchanged_def kept_def)
  moreover have "file_blk s' b = file_blk s b" if "1024 < b" "b \<notin> B" for b
    using s'(3) k that by (simp add: unchanged_def kept_def data_kept_def)
  moreover have "free_list s' = rev (map uint (drop n ?bs)) @ free_list s" "ERRNO s' = ERRNO s"
    using s'(3) u(3) k by (simp_all add: unchanged_def kept_def data_kept_def)
  moreover have "free_inodes s' \<union> nodes_of Fnode s' i \<subseteq> free_inodes s \<union> nodes_of Fnode s i"
    "\<not> leaks (npages Fnode n) (pages_of Fnode s i) \<longrightarrow> free_inodes s' \<union> nodes_of Fnode s' i = free_inodes s \<union> nodes_of Fnode s i"
    "free_inodes s \<subseteq> free_inodes s'"
    using s'(2) un(3,5) le by (simp_all add: resized_def pg)
  moreover have "f_arr s' = A" using s'(3) u(5) by (simp add: unchanged_def)
  then have "\<forall>j<n. f_ent (f_arr s') j = ?bs ! j" using A(3) n by simp
  ultimately have "cut s i n s'" using s'(2) fz fb unfolding cut_def resized_def B_def by blast
  then show ?thesis using run by blast
qed

section \<open>Unlinking\<close>

lemma leaks_0 [simp]: "\<not> leaks 0 n"
  by (simp add: leaks_def)

text \<open>All of a file is given back: its blocks, its page inodes and its inode.\<close>

lemma free_file:
  assumes s: "fs_ok s" "file_ok s i"
  shows "\<exists>u v w. fstream_free (int i) 0 s = Some u \<and> fnode_listing_set (of_nat i) 0 u = Some v
     \<and> free_inode_push (of_nat i) v = Some w \<and> fs_ok w \<and> free_inodes w = insert i (free_inodes s \<union> nodes_of Fnode s i)
     \<and> free_list w = rev (map uint (file_blocks s i)) @ free_list s \<and> ERRNO w = ERRNO s
     \<and> (\<forall>m<4096. m \<notin> {0, i} \<union> free_inodes s \<union> nodes_of Fnode s i \<longrightarrow> inode_at w m = inode_at s m)
     \<and> (\<forall>b>1024. b \<notin> unat ` set (file_blocks s i) \<longrightarrow> file_blk w b = file_blk s b)"
proof -
  from fstream_free_ok[OF s, of 0] obtain u where u: "fstream_free (int i) 0 s = Some u" "cut s i 0 u" by auto
  have uok: "fs_ok u" "node_ok Fnode u i" "free_list u = rev (map uint (file_blocks s i)) @ free_list s" "ERRNO u = ERRNO s"
    "\<forall>m<4096. m \<notin> {0, i} \<union> free_inodes s \<union> nodes_of Fnode s i \<longrightarrow> inode_at u m = inode_at s m"
    "\<forall>b>1024. b \<notin> unat ` set (file_blocks s i) \<longrightarrow> file_blk u b = file_blk s b" "file_blocks u i = []"
    "free_inodes u \<union> nodes_of Fnode u i = free_inodes s \<union> nodes_of Fnode s i"
    using u(2) by (simp_all add: cut_def)
  have e0: "entries_of u i = 0" using uok(7) length_file_blocks[of u i] by simp
  then have p0: "pages_of Fnode u i = 0" "nodes_of Fnode u i = {}" by (simp_all add: pages_of_def nodes_of_def)
  have c0: "clamp_size Fnode 0 = 0" by (simp add: clamp_size_def)
  from listing_set_ok[OF uok(1,2), of 0] obtain v where v: "fnode_listing_set (of_nat i) 0 u = Some v" "resized Fnode u i 0 v"
    "unchanged u ({i} \<union> free_inodes u) v" by (auto simp: c0 p0 need_def ndouble_def)
  have vn: "fs_ok v" "node_ok Fnode v i" "nodes_of Fnode v i = {}"
    using v(2) by (simp_all add: resized_def nodes_of_def pages_of_def)
  then have fv: "free_inodes v = free_inodes s \<union> nodes_of Fnode s i" using v(2) uok(8) p0 by (simp add: resized_def)
  have ui: "unat (of_nat i :: ushort) = i" using of_nat_ushort[OF uok(2)] .
  have ir: "2 \<le> unat (of_nat i :: ushort)" "unat (of_nat i :: ushort) < 1024" using uok(2) unfolding ui by (simp_all add: node_ok_def)
  from free_inode_push_ok[OF vn(1) ir] obtain b where b: "free_inode_push (of_nat i) v = Some (v\<lparr>file_blk := (file_blk v)(1024 := b)\<rparr>)"
    "fs_ok (v\<lparr>file_blk := (file_blk v)(1024 := b)\<rparr>)" "free_list (v\<lparr>file_blk := (file_blk v)(1024 := b)\<rparr>) = free_list v"
    "free_inodes (v\<lparr>file_blk := (file_blk v)(1024 := b)\<rparr>) = insert i (free_inodes v)" unfolding ui by blast
  let ?w = "v\<lparr>file_blk := (file_blk v)(1024 := b)\<rparr>"
  have fu: "free_inodes u \<subseteq> free_inodes s \<union> nodes_of Fnode s i" using uok(8) by blast
  have kv: "\<forall>m<4096. m \<notin> {i} \<union> free_inodes u \<longrightarrow> inode_at v m = inode_at u m" "\<forall>b>1024. file_blk v b = file_blk u b"
    "free_list v = free_list u" "ERRNO v = ERRNO u" using v(3) by (simp_all add: unchanged_def kept_def)
  have "\<forall>m<4096. m \<notin> {0, i} \<union> free_inodes s \<union> nodes_of Fnode s i \<longrightarrow> inode_at ?w m = inode_at s m"
  proof (intro allI impI)
    fix m assume m: "m < 4096" "m \<notin> {0, i} \<union> free_inodes s \<union> nodes_of Fnode s i"
    then have "m \<notin> {i} \<union> free_inodes u" using fu by blast
    then show "inode_at ?w m = inode_at s m" using m kv(1) uok(5) by simp
  qed
  moreover have "\<forall>b>1024. b \<notin> unat ` set (file_blocks s i) \<longrightarrow> file_blk ?w b = file_blk s b" using kv(2) uok(6) by simp
  ultimately show ?thesis using u(1) v(1) b fv kv(3,4) uok(3,4)
    by (intro exI[of _ u] exI[of _ v] exI[of _ ?w]) (simp add: fv)
qed

definition unlinked :: "fs \<Rightarrow> nat \<Rightarrow> nat \<Rightarrow> nat \<Rightarrow> fs \<Rightarrow> bool" where
  "unlinked s p i m s' \<longleftrightarrow> fs_ok s' \<and> node_ok Dnode s' p
     \<and> dir_entries s' p = butlast ((dir_entries s p)[m := last (dir_entries s p)])
     \<and> insert i (free_inodes s \<union> nodes_of Fnode s i) \<subseteq> free_inodes s'
     \<and> free_inodes s' \<union> nodes_of Dnode s' p \<subseteq> insert i (free_inodes s \<union> nodes_of Fnode s i) \<union> nodes_of Dnode s p
     \<and> free_list s' = rev (map uint (file_blocks s i)) @ free_list s \<and> ERRNO s' = ERRNO s
     \<and> (\<forall>m<4096. m \<notin> {0, i, p} \<union> free_inodes s \<union> nodes_of Fnode s i \<union> nodes_of Dnode s p \<longrightarrow> inode_at s' m = inode_at s m)
     \<and> (\<forall>b>1024. b \<notin> unat ` set (file_blocks s i) \<longrightarrow> file_blk s' b = file_blk s b)"

lemma file_same_disk:
  assumes "same_disk s t"
  shows "file_blocks t i = file_blocks s i" "fsize_of t i = fsize_of s i" "content t i = content s i" "file_ok t i = file_ok s i"
    "room_for_blocks t i e = room_for_blocks s i e" "future_blocks t i e = future_blocks s i e"
proof -
  note d = same_disk_frame[OF assms]
  have b: "node_bytes t nd p = node_bytes s nd p" for nd p by (rule node_bytes_cong_disk) (rule d)
  show f: "file_blocks t i = file_blocks s i" "fsize_of t i = fsize_of s i"
    by (simp_all add: file_blocks_def fsize_of_def d b)
  then show "content t i = content s i" "file_ok t i = file_ok s i" "room_for_blocks t i e = room_for_blocks s i e"
    "future_blocks t i e = future_blocks s i e"
    by (simp_all add: content_def data_of_def file_ok_def room_for_blocks_def future_blocks_def d)
qed

lemma remove_file:
  assumes s: "fs_ok s" "file_ok s i" and p: "node_ok Dnode s p" "({p} \<union> nodes_of Dnode s p) \<inter> ({i} \<union> nodes_of Fnode s i) = {}"
    and f: "readable 13 fname" "m < entries_of s p" "\<forall>j<entries_of s p. same_name (dir_entries s p ! j) fname \<longleftrightarrow> j = m"
  shows "\<exists>u v w s'. fstream_free (int i) 0 s = Some u \<and> fnode_listing_set (of_nat i) 0 u = Some v
     \<and> free_inode_push (of_nat i) v = Some w \<and> dnode_remove (int p) fname w = Some s' \<and> unlinked s p i m s'"
proof -
  let ?G = "{0, i} \<union> free_inodes s \<union> nodes_of Fnode s i"
  from free_file[OF s] obtain u v w where w: "fstream_free (int i) 0 s = Some u" "fnode_listing_set (of_nat i) 0 u = Some v"
    "free_inode_push (of_nat i) v = Some w" "fs_ok w" "free_inodes w = insert i (free_inodes s \<union> nodes_of Fnode s i)"
    "free_list w = rev (map uint (file_blocks s i)) @ free_list s" "ERRNO w = ERRNO s"
    "\<forall>m<4096. m \<notin> ?G \<longrightarrow> inode_at w m = inode_at s m"
    "\<forall>b>1024. b \<notin> unat ` set (file_blocks s i) \<longrightarrow> file_blk w b = file_blk s b" by blast
  have "({p} \<union> nodes_of Dnode s p) \<inter> ?G = {}" using p by (auto simp: node_ok_def)
  moreover have "free_inodes w \<subseteq> ?G" using w(5) by blast
  ultimately have n: "node_ok Dnode w p" "inode_at w p = inode_at s p" "nodes_of Dnode w p = nodes_of Dnode s p"
    "node_bytes w (inode_at s p) (pages_of Dnode s p) = node_bytes s (inode_at s p) (pages_of Dnode s p)"
    using same_node[OF w(8) p(1)] by blast+
  have e: "entries_of w p = entries_of s p" "dir_entries w p = dir_entries s p"
    using n(2,4) by (simp_all add: entries_of_def pages_of_def dir_entries_def)
  from dnode_remove_ok[OF w(4) n(1) f(1), of m] f(2,3) obtain s' where s': "dnode_remove (int p) fname w = Some s'" "removed w p m s'"
    by (auto simp: e)
  have "free_inodes s' \<union> nodes_of Dnode s' p \<subseteq> insert i (free_inodes s \<union> nodes_of Fnode s i) \<union> nodes_of Dnode s p"
    "insert i (free_inodes s \<union> nodes_of Fnode s i) \<subseteq> free_inodes s'"
    using s'(2) w(5) n(3) by (auto simp: removed_def)
  moreover have "\<forall>m<4096. m \<notin> {0, i, p} \<union> free_inodes s \<union> nodes_of Fnode s i \<union> nodes_of Dnode s p \<longrightarrow> inode_at s' m = inode_at s m"
    using s'(2) w(5,8) n(3) by (simp add: removed_def kept_def)
  ultimately have "unlinked s p i m s'" using s'(2) w(6,7,9) e(2) by (simp add: unlinked_def removed_def kept_def)
  then show ?thesis using w(1-3) s'(1) by blast
qed

lemma sfs_unlink_ok:
  assumes "fs_ok s" "\<forall>d\<in>set cs. component d" "component c" "length (path_text cs c) < PATH_MAX"
    and "path_walk s 2 cs (int p)" "node_ok Dnode s p" "lookup_in s p c = int i" "file_ok s i"
    and "({p} \<union> nodes_of Dnode s p) \<inter> ({i} \<union> nodes_of Fnode s i) = {}"
    and "m < entries_of s p" "\<forall>j<entries_of s p. same_name (dir_entries s p ! j) (c @ 0 # r) \<longleftrightarrow> j = m"
  shows "\<exists>s'. sfs_unlink (path_text cs c @ 0 # r) s = Some (0, s') \<and> unlinked s p i m s'"
proof -
  from path_to_inum_ok[OF assms(1-3) _ _ assms(5,6), of "[]" r] assms(4,7) obtain t where
    t: "path_to_inum (path_text cs c @ 0 # r) s = Some ((int i, int p), t)" "same_disk s t" by auto
  note d = same_disk_frame[OF t(2)]
  have "0 \<notin> set c" using assms(3) by (simp add: component_def)
  then have rd: "readable 13 (c @ 0 # r)" by (simp add: readable_def)
  have un: "unlinked t p i m s' = unlinked s p i m s'" for s' by (simp add: unlinked_def d file_same_disk[OF t(2)])
  have "fs_ok t" "file_ok t i" "node_ok Dnode t p" "({p} \<union> nodes_of Dnode t p) \<inter> ({i} \<union> nodes_of Fnode t i) = {}"
    "m < entries_of t p" "\<forall>j<entries_of t p. same_name (dir_entries t p ! j) (c @ 0 # r) \<longleftrightarrow> j = m"
    using assms d file_same_disk[OF t(2)] by simp_all
  from remove_file[OF this(1-4) rd this(5,6)] show ?thesis
    using t(1) base_ptr_path[OF assms(2,3), of r] by (auto simp: sfs_unlink_def un)
qed

text \<open>
  C9. Unlinking a file: when the path resolves to a file whose inodes are not those of its directory, and its name is
  the only one in the directory that agrees in 13 bytes, sfs_unlink returns 0, gives the blocks of the file back in
  reverse order at the head of the free list, frees its inode and page inodes, removes its entry, and
  changes nothing of any other file or directory.
\<close>

theorem sfs_unlink_spec:
  assumes "fs_ok s" "\<forall>d\<in>set cs. component d" "component c" "length (path_text cs c) < PATH_MAX"
    and "path_walk s 2 cs (int p)" "node_ok Dnode s p" "lookup_in s p c = int i" "file_ok s i"
    and "({p} \<union> nodes_of Dnode s p) \<inter> ({i} \<union> nodes_of Fnode s i) = {}"
    and "m < entries_of s p" "\<forall>j<entries_of s p. same_name (dir_entries s p ! j) (c @ 0 # r) \<longleftrightarrow> j = m"
  shows "\<exists>s'. sfs_unlink (path_text cs c @ 0 # r) s = Some (0, s') \<and> unlinked s p i m s'"
  by (rule sfs_unlink_ok[OF assms])

text \<open>The file \<open>/a\<close> in the root of a fresh disk.\<close>

definition a_text :: "byte list" where "a_text = path_text [] [97] @ 0 # zeros 19"

lemma a_file:
  "\<exists>s. sfs_create a_text mounted = Some (0, s) \<and> fs_ok s \<and> ERRNO s = 0 \<and> node_ok Dnode s 2 \<and> file_ok s 3
     \<and> dir_entries s 2 = dir_entries mounted 2 @ [new_entry ([97] @ 0 # zeros 19) 3] \<and> lookup_in s 2 [97] = int 3
     \<and> path_walk s 2 [] (int 2) \<and> nodes_of Dnode s 2 = {} \<and> entries_of s 3 = 0 \<and> fsize_of s 3 = 0 \<and> content s 3 = []
     \<and> inode_at s 3 = file_node 3 2
     \<and> free_list s = blocks_from 1025 \<and> {4..<1024} \<subseteq> free_inodes s"
proof -
  have "14 \<le> length ([97] @ 0 # zeros 19)" by simp
  from sfs_create_ok[OF mounted(1,5) a_path(1-3) root_walk node_ok_root(1) a_path(4) root_room a_path(5) this a_path(6)]
  obtain s where s: "sfs_create a_text mounted = Some (0, s)"
    "created Fnode mounted 2 ([97] @ 0 # zeros 19) 3 (file_node (of_nat 3) (of_nat 2)) s" unfolding a_text_def by blast
  then have c: "fs_ok s" "node_ok Fnode s 3" "inode_at s 3 = file_node (of_nat 3) (of_nat 2)" "node_ok Dnode s 2"
    "dir_entries s 2 = dir_entries mounted 2 @ [new_entry ([97] @ 0 # zeros 19) 3]" "lookup_in s 2 (cstr ([97] @ 0 # zeros 19)) = int 3"
    "ERRNO s = 0" "free_list s = blocks_from 1025" by (auto simp: created_def kept_def mounted(2,5))
  have "cstr ([97] @ 0 # zeros 19) = [97]" by (simp add: cstr_Cons)
  then have l: "lookup_in s 2 [97] = int 3" using c(6) by simp
  have "entries_of s 2 = 3" using c(5) length_dir_entries[of s 2] by (simp add: root_entries)
  then have "pages_of Dnode s 2 = 0" by (simp add: pages_of_def npages_def)
  then have nd: "nodes_of Dnode s 2 = {}" by (simp add: nodes_of_def)
  note f = new_file_ok[OF fs_ok_disk[OF c(1)] c(2,3)]
  have "path_walk s 2 [] (int 2)" using walk_here[of s 2] by simp
  moreover have "{4..<1024} \<subseteq> free_inodes s"
    using s(2) nd node_ok_root(3) mounted(3) by (auto simp: created_def)
  moreover have "inode_at s 3 = file_node 3 2" using c(3) by simp
  ultimately show ?thesis using s(1) c f l nd by blast
qed

theorem sfs_unlink_spec_witness:
  "\<exists>s s'. sfs_create a_text mounted = Some (0, s) \<and> sfs_unlink a_text s = Some (0, s')
     \<and> dir_entries s' 2 = dir_entries mounted 2 \<and> 3 \<in> free_inodes s'"
proof -
  obtain s where s: "sfs_create a_text mounted = Some (0, s)" "fs_ok s" "node_ok Dnode s 2" "file_ok s 3"
    "dir_entries s 2 = dir_entries mounted 2 @ [new_entry ([97] @ 0 # zeros 19) 3]" "lookup_in s 2 [97] = int 3"
    "path_walk s 2 [] (int 2)" "nodes_of Dnode s 2 = {}" "entries_of s 3 = 0" using a_file by blast
  have n: "entries_of s 2 = 3" using s(5) length_dir_entries[of s 2] by (simp add: root_entries)
  have "nodes_of Fnode s 3 = {}" using s(9) by (simp add: nodes_of_def pages_of_def)
  then have dj: "({2} \<union> nodes_of Dnode s 2) \<inter> ({3} \<union> nodes_of Fnode s 3) = {}" using s(8) by simp
  have "\<not> same_name \<lparr>de_name = dot_name, de_inum = 2\<rparr> ([97] @ 0 # zeros 19)"
    "\<not> same_name \<lparr>de_name = dotdot_name, de_inum = 2\<rparr> ([97] @ 0 # zeros 19)"
    "same_name (new_entry ([97] @ 0 # zeros 19) 3) ([97] @ 0 # zeros 19)"
    by (simp_all add: same_name_def dot_name_def dotdot_name_def cstr_Cons new_entry_def)
  then have "\<forall>j<entries_of s 2. same_name (dir_entries s 2 ! j) ([97] @ 0 # zeros 19) \<longleftrightarrow> j = 2"
    unfolding n s(5) root_entries by (auto simp: less_Suc_eq numeral_3_eq_3)
  from sfs_unlink_spec[OF s(2) a_path(1-3) s(7,3,6,4) dj _ this] n obtain s' where
    "sfs_unlink a_text s = Some (0, s')" "unlinked s 2 3 2 s'" unfolding a_text_def by auto
  then show ?thesis using s(1,5) by (auto simp: unlinked_def root_entries)
qed

end
