(* ===== verification/FS_Requests.thy ===== *)
theory FS_Requests
  imports FS_Unlink
begin

text \<open>
  Requests through the operation table: the requests that only read keep the disk, in any state and in any
  sequence (\<open>requests\<close>); the error answers; and what reading the attributes and the names of
  a node yields.
\<close>

section \<open>Reading keeps the disk\<close>

text \<open>The disk, the descriptor and the pending error are those of \<open>s\<close>; buffers may differ.\<close>

definition reads :: "fs \<Rightarrow> fs \<Rightarrow> bool" where
  "reads s s' \<longleftrightarrow> (\<exists>b A B. s' = s\<lparr>iblockbuf := b, d_arr := A, f_arr := B\<rparr>)"

named_theorems reads_intros \<open>operations that only read\<close>

lemma readsI: "reads s (s\<lparr>iblockbuf := b, d_arr := A, f_arr := B\<rparr>)"
  by (auto simp: reads_def)

lemma reads_refl [simp, intro]: "reads s s"
  using readsI[of s, where b = "iblockbuf s" and A = "d_arr s" and B = "f_arr s"] by simp

lemma reads_trans: "reads s t \<Longrightarrow> reads t u \<Longrightarrow> reads s u"
  unfolding reads_def by (elim exE) (simp, blast)

lemma reads_buf [reads_intros]: "reads s (s\<lparr>iblockbuf := b\<rparr>)"
  using readsI[of s, where b = b and A = "d_arr s" and B = "f_arr s"] by simp

lemma reads_arrs [reads_intros]: "reads s t \<Longrightarrow> reads s (t\<lparr>d_arr := A\<rparr>)" "reads s t \<Longrightarrow> reads s (t\<lparr>f_arr := B\<rparr>)"
  using readsI[of t, where b = "iblockbuf t" and A = A and B = "f_arr t"]
    readsI[of t, where b = "iblockbuf t" and A = "d_arr t" and B = B] by (auto intro: reads_trans)

lemma reads_disk: "reads s s' \<Longrightarrow> file_blk s' = file_blk s \<and> file_len s' = file_len s \<and> ERRNO s' = ERRNO s
    \<and> fd_open s' = fd_open s \<and> diskfile s' = diskfile s"
  by (auto simp: reads_def)

lemma reads_load [reads_intros]: "inode_load n b s = (nd, s') \<Longrightarrow> reads s s'"
  by (auto simp: inode_load_def Let_def reads_buf split: if_splits)

lemma loop_ret_keeps:
  assumes "\<And>i t. P t \<Longrightarrow> P (snd (body i t))"
  shows "P t \<Longrightarrow> P (snd (loop_ret xs body t))"
proof (induction xs arbitrary: t)
  case (Cons i xs)
  obtain r u where b: "body i t = (r, u)" by (cases "body i t")
  then have "P u" using assms[OF Cons.prems, of i] by simp
  then show ?case using Cons.IH b by (cases r) simp_all
qed simp

lemma reads_load_step: "inode_load n b t = (nd, u) \<Longrightarrow> reads s t \<Longrightarrow> reads s u"
  by (blast intro: reads_trans reads_load)

lemma reads_page: "reads s0 (snd (snd st)) \<Longrightarrow> reads s0 (snd (snd (snd (listing_page k e n st))))"
  by (auto simp: listing_page_def Let_def split: prod.splits intro: reads_load_step)

lemma reads_double: "reads s0 (snd (snd st)) \<Longrightarrow> reads s0 (snd (snd (snd (listing_double k e nd i st))))"
  by (auto simp: listing_double_def Let_def split: prod.splits
      intro!: loop_ret_keeps[where P = "\<lambda>t. reads s0 (snd (snd t))"] reads_page intro: reads_load_step)

lemma reads_node_listing [reads_intros]: "node_listing k nd e a s = (b, s') \<Longrightarrow> reads s s'"
proof -
  let ?st = "(ndirect k, mput 0 (mget 16 96 nd) a, s)"
  define r where "r = loop_ret [0..<4] (\<lambda>i. listing_page k e (pnum_at nd i)) ?st"
  define q where "q = loop_ret [0..<4] (listing_double k e nd) (snd r)"
  have r: "reads s (snd (snd (snd r)))"
    unfolding r_def by (rule loop_ret_keeps[where P = "\<lambda>t. reads s (snd (snd t))"]) (simp_all add: reads_page)
  then have "reads s (snd (snd (snd q)))"
    unfolding q_def by (intro loop_ret_keeps[where P = "\<lambda>t. reads s (snd (snd t))"] reads_double)
  moreover assume "node_listing k nd e a s = (b, s')"
  ultimately show ?thesis using r
    by (auto simp: node_listing_def Let_def r_def[symmetric] q_def split: if_splits prod.splits bool.splits)
qed

lemma reads_listing [reads_intros]:
  "dnode_listing n s = (m, s') \<Longrightarrow> reads s s'" "fnode_listing n s = (m, s') \<Longrightarrow> reads s s'"
  by (auto simp: dnode_listing_def fnode_listing_def Let_def split: prod.splits
      intro: reads_arrs reads_trans reads_load reads_node_listing)

lemma reads_attr [reads_intros]:
  "inode_get_attr n st s = (st', s') \<Longrightarrow> reads s s'" "inode_get_attr_upc n s = (v, s') \<Longrightarrow> reads s s'"
  by (auto simp: inode_get_attr_def inode_get_attr_upc_def Let_def split: prod.splits if_splits intro: reads_load)

lemma reads_elem [reads_intros]: "path_to_inum_elem p n s = Some (v, s') \<Longrightarrow> reads s s'"
  by (auto simp: path_to_inum_elem_def Let_def split: if_splits prod.splits bind_splits dest: reads_listing)

lemma reads_walk: "walk_path cs cur i s = Some (j, c, s') \<Longrightarrow> reads s s'"
  by (induction cs cur i s rule: walk_path.induct)
     (auto split: if_splits bind_splits prod.splits intro: reads_trans reads_elem)

lemma reads_path [reads_intros]: "path_to_inum p s = Some (v, s') \<Longrightarrow> reads s s'"
  by (auto simp: path_to_inum_def Let_def split: if_splits bind_splits prod.splits
      intro: reads_trans reads_elem dest!: reads_walk)

lemma reads_fstream [reads_intros]: "fstream_read i z off s = Some (v, s') \<Longrightarrow> reads s s'"
  by (auto simp: fstream_read_def Let_def split: prod.splits bind_splits if_splits
      intro: reads_trans dest!: reads_listing reads_attr)

text \<open>The requests that only read.\<close>

fun readonly :: "request \<Rightarrow> bool" where
  "readonly (Getattr p u g) = True"
| "readonly (Open p) = True"
| "readonly (Release p) = True"
| "readonly (Read p n off) = True"
| "readonly (Opendir p) = True"
| "readonly (Readdir p) = True"
| "readonly (Releasedir p) = True"
| "readonly _ = False"

lemma drop_out_Some: "drop_out r = Some (v, s) \<longleftrightarrow> (\<exists>x. r = Some ((v, x), s))"
  by (auto simp: drop_out_def split: option.splits)

lemma reads_request: "sfs_oper r s = Some (v, s') \<Longrightarrow> readonly r \<Longrightarrow> reads s s'"
  by (cases r)
     (auto simp: sfs_getattr_def sfs_open_def sfs_release_def sfs_read_def sfs_opendir_def sfs_readdir_def sfs_releasedir_def
        drop_out_Some Let_def split: if_splits bind_splits prod.splits
        intro: reads_trans dest!: reads_path reads_attr reads_listing reads_fstream)

section \<open>Sequences of requests\<close>

inductive requests :: "fs \<Rightarrow> request list \<Rightarrow> fs \<Rightarrow> bool" where
  no_request: "requests s [] s"
| request: "sfs_oper r s = Some (v, t) \<Longrightarrow> requests t rs u \<Longrightarrow> requests s (r # rs) u"

inductive_cases requests_ConsE: "requests s (r # rs) u"
inductive_simps requests_Nil: "requests s [] u"

lemma readonly_run: "requests s rs t \<Longrightarrow> \<forall>r\<in>set rs. readonly r \<Longrightarrow> reads s t"
  by (induction rule: requests.induct) (auto intro: reads_trans reads_request)

section \<open>Resolving the path of a request\<close>

lemma path_resolves:
  assumes "fs_ok s" "\<forall>d\<in>set cs. component d" "component c" "length (path_text cs c) < PATH_MAX"
    and "path_walk s 2 cs (int p)" "node_ok Dnode s p"
  obtains t where "path_to_inum (path_text cs c @ 0 # r) s = Some ((lookup_in s p c, int p), t)" "same_disk s t"
  using path_to_inum_ok[OF assms(1-3) _ _ assms(5,6), of "[]" r] assms(4) by auto

text \<open>The path a request looks up and expects to find, or to be new.\<close>

fun wants :: "request \<Rightarrow> byte list option" where
  "wants (Getattr p u g) = Some p"
| "wants (Unlink p) = Some p"
| "wants (Open p) = Some p"
| "wants (Read p n off) = Some p"
| "wants (Write p b n off) = Some p"
| "wants (Truncate p off) = Some p"
| "wants (Opendir p) = Some p"
| "wants (Readdir p) = Some p"
| "wants _ = None"

lemma request_enoent:
  assumes "wants r = Some p" "path_to_inum p s = Some ((-1, d), t)"
  shows "sfs_oper r s = Some (- ENOENT, t)"
  using assms by (cases r)
    (auto simp: sfs_getattr_def sfs_open_def sfs_unlink_def sfs_read_def sfs_write_def sfs_truncate_def sfs_opendir_def
      sfs_readdir_def drop_out_def Let_def)

lemma request_eexist:
  assumes "path_to_inum p s = Some ((x, d), t)" "0 < x"
  shows "sfs_oper (Create p) s = Some (- EEXIST, t)" "path_basename p fb \<noteq> None \<Longrightarrow> sfs_oper (Mkdir p fb) s = Some (- EEXIST, t)"
  using assms by (auto simp: sfs_create_def sfs_mkdir_def Let_def)

lemma attr_of_node:
  assumes "fs_ok s" "node_ok k s i"
  shows "\<exists>b. inode_get_attr (of_nat i) st s =
    (let nd = inode_at s i; dir = (md_isdir nd = 1)
     in st\<lparr>st_mode := (if dir then DIR_MODE else REG_MODE), st_nlink := uint (md_nlink nd),
           st_size := int (if dir then entries_of s i else fsize_of s i), st_blksize := 512,
           st_blocks := int (if dir then 0 else entries_of s i)\<rparr>, s\<lparr>iblockbuf := b\<rparr>)"
  using of_nat_ushort[OF assms(2)] inode_load_ushort[OF fs_ok_disk[OF assms(1)], of "of_nat i"]
  by (intro exI[of _ "file_blk s (i div 4)"]) (simp add: inode_get_attr_def Let_def entries_of_def fsize_of_def)

lemma sfs_readdir_ok:
  assumes "fs_ok s" "\<forall>d\<in>set cs. component d" "component c" "length (path_text cs c) < PATH_MAX"
    and "path_walk s 2 cs (int p)" "node_ok Dnode s p" "lookup_in s p c = int i" "node_ok Dnode s i"
  shows "\<exists>s'. sfs_readdir (path_text cs c @ 0 # r) s = Some ((0, map de_name (dir_entries s i)), s') \<and> same_disk s s'"
proof -
  obtain t where t: "path_to_inum (path_text cs c @ 0 # r) s = Some ((int i, int p), t)" "same_disk s t"
    using path_resolves[OF assms(1-6)] assms(7) by metis
  note d = same_disk_frame[OF t(2)]
  have i: "fs_ok t" "node_ok Dnode t i" using assms d by simp_all
  obtain b A where A: "dnode_listing (of_nat i) t = (entries_of t i, t\<lparr>iblockbuf := b, d_arr := A\<rparr>)" "length A = ARR_BYTES"
    "map (d_ent A) [0..<entries_of t i] = dir_entries t i" using dir_listing[OF i] by blast
  have "entries_of t i \<le> 2086"
    using i(2) npages_le[of Dnode "entries_of t i" MAX_PAGES] by (simp add: node_ok_def pages_of_def ptr_at_def)
  then have "16 * entries_of t i \<le> length A" using A(2) by simp
  moreover have "map (\<lambda>j. de_name (d_ent A j)) [0..<entries_of t i] = map de_name (dir_entries s i)"
  proof -
    have "map (\<lambda>j. de_name (d_ent A j)) [0..<entries_of t i] = map de_name (map (d_ent A) [0..<entries_of t i])" by simp
    then show ?thesis unfolding A(3) d(3) .
  qed
  moreover have "same_disk t (t\<lparr>iblockbuf := b, d_arr := A\<rparr>)" using A(2) by (auto simp: same_disk_def)
  then have "same_disk s (t\<lparr>iblockbuf := b, d_arr := A\<rparr>)" by (rule same_disk_trans[OF t(2)])
  ultimately show ?thesis using t(1) A(1) by (simp add: sfs_readdir_def)
qed

lemma sfs_getattr_ok:
  assumes "fs_ok s" "\<forall>d\<in>set cs. component d" "component c" "length (path_text cs c) < PATH_MAX"
    and "path_walk s 2 cs (int p)" "node_ok Dnode s p" "lookup_in s p c = int i" "node_ok k s i"
  shows "\<exists>s'. sfs_getattr (path_text cs c @ 0 # r) u g s = Some ((0,
      (if md_isdir (inode_at s i) = 1
       then \<lparr>st_mode = DIR_MODE, st_nlink = uint (md_nlink (inode_at s i)), st_uid = u, st_gid = g,
             st_size = int (entries_of s i), st_blksize = 512, st_blocks = 0\<rparr>
       else \<lparr>st_mode = REG_MODE, st_nlink = uint (md_nlink (inode_at s i)), st_uid = u, st_gid = g,
             st_size = int (fsize_of s i), st_blksize = 512, st_blocks = int (entries_of s i)\<rparr>)), s')
     \<and> same_disk s s'"
proof -
  obtain t where t: "path_to_inum (path_text cs c @ 0 # r) s = Some ((int i, int p), t)" "same_disk s t"
    using path_resolves[OF assms(1-6)] assms(7) by metis
  note d = same_disk_frame[OF t(2)]
  have i: "fs_ok t" "node_ok k t i" using assms d by simp_all
  obtain b where b: "inode_get_attr (of_nat i) zero_stat t =
    (let nd = inode_at t i; dir = (md_isdir nd = 1)
     in zero_stat\<lparr>st_mode := (if dir then DIR_MODE else REG_MODE), st_nlink := uint (md_nlink nd),
           st_size := int (if dir then entries_of t i else fsize_of t i), st_blksize := 512,
           st_blocks := int (if dir then 0 else entries_of t i)\<rparr>, t\<lparr>iblockbuf := b\<rparr>)" using attr_of_node[OF i] by blast
  have "length (d_arr t) = ARR_BYTES" using i(1) by (simp add: fs_ok_def)
  then have "same_disk t (t\<lparr>iblockbuf := b\<rparr>)" unfolding same_disk_def by (intro exI[of _ b] exI[of _ "d_arr t"]) simp
  then have "same_disk s (t\<lparr>iblockbuf := b\<rparr>)" by (rule same_disk_trans[OF t(2)])
  then show ?thesis using t(1) b d file_same_disk(2)[OF t(2)]
    by (simp add: sfs_getattr_def Let_def zero_stat_def)
qed

section \<open>Properties\<close>

text \<open>
  C16. Requests that only read (getattr, open, release, read, opendir, readdir, releasedir), in any
  sequence, from any state and with any arguments, leave every block of the disk, the length of the host file,
  the descriptor and the pending error as they are.
\<close>

theorem readonly_requests_safe:
  assumes "requests s rs s'" "\<forall>r\<in>set rs. readonly r"
  shows "file_blk s' = file_blk s \<and> file_len s' = file_len s \<and> fd_open s' = fd_open s \<and> ERRNO s' = ERRNO s"
  using reads_disk[OF readonly_run[OF assms]] by blast

lemma root_request: "\<exists>v t. sfs_oper (Getattr [47, 0] u g) s = Some (v, t)"
  using path_root[of "[]" s] by (simp add: sfs_getattr_def drop_out_def slash_def split: prod.splits)

theorem readonly_requests_safe_witness:
  "\<exists>s'. requests mounted [Getattr [47, 0] 0 0, Opendir [47, 0], Releasedir [47, 0]] s' \<and> file_blk s' = file_blk mounted"
proof -
  obtain v t where t: "sfs_oper (Getattr [47, 0] 0 0) mounted = Some (v, t)" using root_request by blast
  have "sfs_oper (Opendir [47, 0]) t = Some (0, t)" "sfs_oper (Releasedir [47, 0]) t = Some (0, t)"
    using path_root[of "[]" t] by (simp_all add: sfs_opendir_def sfs_releasedir_def slash_def)
  then have "requests t [Opendir [47, 0], Releasedir [47, 0]] t" by (metis request no_request)
  then have "requests mounted [Getattr [47, 0] 0 0, Opendir [47, 0], Releasedir [47, 0]] t" by (rule request[OF t])
  from readonly_requests_safe[OF this] this show ?thesis by auto
qed

text \<open>
  C18. A request for a name that its directory does not have answers -ENOENT and changes neither the disk nor the
  pending error; creating a file or a directory under a name that exists answers -EEXIST likewise.
\<close>

theorem requests_wrong_name:
  assumes "fs_ok s" "\<forall>d\<in>set cs. component d" "component c" "length (path_text cs c) < PATH_MAX"
    and "path_walk s 2 cs (int p)" "node_ok Dnode s p"
  shows "(lookup_in s p c = -1 \<and> wants req = Some (path_text cs c @ 0 # r) \<longrightarrow>
       (\<exists>s'. sfs_oper req s = Some (-2, s') \<and> same_disk s s'))
    \<and> (0 < lookup_in s p c \<longrightarrow> (\<exists>s'. sfs_oper (Create (path_text cs c @ 0 # r)) s = Some (-17, s') \<and> same_disk s s'))
    \<and> (0 < lookup_in s p c \<and> length c \<le> 13 \<and> length fb = 14 \<longrightarrow>
       (\<exists>s'. sfs_oper (Mkdir (path_text cs c @ 0 # r) fb) s = Some (-17, s') \<and> same_disk s s'))"
proof (intro conjI impI; (elim conjE)?)
  obtain t where t: "path_to_inum (path_text cs c @ 0 # r) s = Some ((lookup_in s p c, int p), t)" "same_disk s t"
    by (rule path_resolves[OF assms])
  assume "lookup_in s p c = -1" "wants req = Some (path_text cs c @ 0 # r)"
  then show "\<exists>s'. sfs_oper req s = Some (-2, s') \<and> same_disk s s'"
    using request_enoent[of req "path_text cs c @ 0 # r" s] t by (auto simp: ENOENT_def)
next
  assume l: "0 < lookup_in s p c"
  obtain t where t: "path_to_inum (path_text cs c @ 0 # r) s = Some ((lookup_in s p c, int p), t)" "same_disk s t"
    by (rule path_resolves[OF assms])
  from request_eexist[OF t(1) l] t(2)
  show "\<exists>s'. sfs_oper (Create (path_text cs c @ 0 # r)) s = Some (-17, s') \<and> same_disk s s'" by (auto simp: EEXIST_def)
next
  assume l: "0 < lookup_in s p c" and f: "length c \<le> 13" "length fb = 14"
  obtain t where t: "path_to_inum (path_text cs c @ 0 # r) s = Some ((lookup_in s p c, int p), t)" "same_disk s t"
    by (rule path_resolves[OF assms])
  have "path_basename (path_text cs c @ 0 # r) fb \<noteq> None" using f path_basename_path[OF assms(2,3), of fb r] by auto
  from request_eexist(2)[OF t(1) l this] t(2)
  show "\<exists>s'. sfs_oper (Mkdir (path_text cs c @ 0 # r) fb) s = Some (-17, s') \<and> same_disk s s'" by (auto simp: EEXIST_def)
qed

theorem requests_wrong_name_witness:
  "\<exists>s t u. sfs_oper (Unlink (path_text [] [97] @ [0])) mounted = Some (-2, s)
     \<and> sfs_oper (Create (path_text [] dot @ [0])) mounted = Some (-17, t)
     \<and> sfs_oper (Mkdir (path_text [] dot @ [0]) (zeros 14)) mounted = Some (-17, u)"
proof -
  have d: "component dot" "length (path_text [] dot) < PATH_MAX" "0 < lookup_in mounted 2 dot" "length dot \<le> 13" "length (zeros 14) = 14"
    by (simp_all add: component_def dot_def slash_def path_text_def dirs_text_def lookup_in_def)
  have "wants (Unlink (path_text [] [97] @ 0 # [])) = Some (path_text [] [97] @ 0 # [])" by simp
  with requests_wrong_name[OF mounted(1) a_path(1-3) root_walk node_ok_root(1), of "Unlink (path_text [] [97] @ 0 # [])" "[]" "[]"]
    requests_wrong_name[OF mounted(1) a_path(1) d(1,2) root_walk node_ok_root(1), of "Unlink []" "[]" "zeros 14"] a_path(4) d(3-5)
  show ?thesis by blast
qed

text \<open>
  C26. Listing a directory: sfs_readdir hands the filler the names of the directory's entries in their order,
  and changes nothing on the disk.
\<close>

theorem sfs_readdir_spec:
  assumes "fs_ok s" "\<forall>d\<in>set cs. component d" "component c" "length (path_text cs c) < PATH_MAX"
    and "path_walk s 2 cs (int p)" "node_ok Dnode s p" "lookup_in s p c = int i" "node_ok Dnode s i"
  shows "\<exists>s'. sfs_readdir (path_text cs c @ 0 # r) s = Some ((0, map de_name (dir_entries s i)), s') \<and> same_disk s s'"
  by (rule sfs_readdir_ok[OF assms])

theorem sfs_readdir_spec_witness:
  "\<exists>s'. sfs_readdir (path_text [] dot @ [0]) mounted = Some ((0, [dot_name, dotdot_name]), s')"
proof -
  have d: "component dot" "length (path_text [] dot) < PATH_MAX" "lookup_in mounted 2 dot = int 2"
    by (simp_all add: component_def dot_def slash_def path_text_def dirs_text_def lookup_in_def)
  from sfs_readdir_spec[OF mounted(1) a_path(1) d(1,2) root_walk node_ok_root(1) d(3) node_ok_root(1), of "[]"]
  show ?thesis by (auto simp: root_entries)
qed

text \<open>
  C27. Attributes: sfs_getattr of a directory reports mode 040755 and the number of its entries as the size, of a
  file mode 0100644, its byte size and its number of blocks; the link count is the inode's, user and
  group are the caller's; nothing changes on the disk.
\<close>

theorem sfs_getattr_spec:
  assumes "fs_ok s" "\<forall>d\<in>set cs. component d" "component c" "length (path_text cs c) < PATH_MAX"
    and "path_walk s 2 cs (int p)" "node_ok Dnode s p" "lookup_in s p c = int i" "node_ok k s i"
  shows "\<exists>s'. sfs_getattr (path_text cs c @ 0 # r) u g s = Some ((0,
      (if md_isdir (inode_at s i) = 1
       then \<lparr>st_mode = DIR_MODE, st_nlink = uint (md_nlink (inode_at s i)), st_uid = u, st_gid = g,
             st_size = int (entries_of s i), st_blksize = 512, st_blocks = 0\<rparr>
       else \<lparr>st_mode = REG_MODE, st_nlink = uint (md_nlink (inode_at s i)), st_uid = u, st_gid = g,
             st_size = int (fsize_of s i), st_blksize = 512, st_blocks = int (entries_of s i)\<rparr>)), s')
     \<and> same_disk s s'"
  by (rule sfs_getattr_ok[OF assms])

theorem sfs_getattr_spec_witness:
  "\<exists>s s'. sfs_create a_text mounted = Some (0, s) \<and> sfs_getattr a_text 7 8 s = Some ((0,
      \<lparr>st_mode = REG_MODE, st_nlink = 1, st_uid = 7, st_gid = 8, st_size = 0, st_blksize = 512, st_blocks = 0\<rparr>), s')"
proof -
  obtain s where s: "sfs_create a_text mounted = Some (0, s)" "fs_ok s" "node_ok Dnode s 2" "file_ok s 3"
    "lookup_in s 2 [97] = int 3" "path_walk s 2 [] (int 2)" "entries_of s 3 = 0" "fsize_of s 3 = 0"
    "inode_at s 3 = file_node 3 2" using a_file by blast
  have "md_nlink (file_node 3 2) = 1" "md_isdir (file_node 3 2) = 0"
    by (simp_all add: file_node_fields file_node_isdir)
  moreover have "node_ok Fnode s 3" using s(4) by (simp add: file_ok_def)
  ultimately show ?thesis
    using sfs_getattr_spec[OF s(2) a_path(1-3) s(6,3,5), of Fnode "zeros 19" 7 8] s(1,7-9) unfolding a_text_def by auto
qed

end
