(* ===== verification/FS_Attributes.thy ===== *)
theory FS_Attributes
  imports FS_FileSpec
begin

text \<open>
  Single inodes: a dumped inode is loaded back and its neighbours are kept; the attributes that are set are
  the ones that are got, cut to their fields; and the four functions that address one entry by its
  index (\<open>dnode_entry_get\<close> and the like) agree with the listings up to a bound, beyond which they run
  out of the page table.
\<close>

section \<open>Entries by index\<close>

lemma concat_pages:
  assumes "\<And>q. q < n \<Longrightarrow> length (f q) = (m :: nat)" "p < n"
  shows "mget (m * p) m (concat (map f [0..<n])) = f p"
proof -
  have l: "length (concat (map f [0..<p])) = m * p" using assms by (induction p) simp_all
  obtain k where k: "n = p + Suc k" using assms(2) less_imp_Suc_add by fastforce
  have "[0..<n] = [0..<p] @ p # [Suc p..<n]"
    using upt_add_eq_append[of 0 p "Suc k"] upt_conv_Cons[of p n] k by simp
  then have "concat (map f [0..<n]) = concat (map f [0..<p]) @ f p @ concat (map f [Suc p..<n])" by simp
  then show ?thesis using l assms by (simp add: mget_def)
qed

lemma node_bytes_page:
  assumes "disk_ok s" "length nd = INODE_SIZE" "p < n"
  shows "mget (96 + 128 * p) 128 (node_bytes s nd n) = node_page s nd p"
proof -
  have "mget (128 * p) 128 (concat (map (node_page s nd) [0..<n])) = node_page s nd p"
    by (rule concat_pages) (use assms in simp_all)
  then show ?thesis using assms by (simp add: node_bytes_def mget_def)
qed

text \<open>Entry \<open>j\<close> of a listing: in the inode, or in slot \<open>(j - ndirect) mod nper\<close> of a page.\<close>

lemma d_ent_bytes:
  assumes s: "disk_ok s" "length nd = INODE_SIZE" and p: "p < n" "j < 8"
  shows "d_ent (node_bytes s nd n) (6 + 8 * p + j) = pdir_dinum (node_page s nd p) j"
proof -
  have "mget (16 * j) 16 (mget (96 + 128 * p) 128 (node_bytes s nd n)) = mget (96 + 128 * p + 16 * j) 16 (node_bytes s nd n)"
    by (rule mget_mget) (use p in simp)
  moreover have "16 * (6 + 8 * p + j) = 96 + 128 * p + 16 * j" by simp
  ultimately show "d_ent (node_bytes s nd n) (6 + 8 * p + j) = pdir_dinum (node_page s nd p) j"
    using node_bytes_page[OF s p(1)] by (simp only: d_ent_def pdir_dinum_def)
qed

lemma d_ent_head:
  assumes s: "disk_ok s" "length nd = INODE_SIZE" and l: "l < 6"
  shows "d_ent (node_bytes s nd n) l = idir_dinum nd l"
proof -
  have "16 * l + 16 \<le> length (mget 16 96 nd)" using s(2) l by simp
  then have "mget (16 * l) 16 (node_bytes s nd n) = mget (16 * l) 16 (mget 16 96 nd)"
    unfolding node_bytes_def by (simp add: mget_def)
  then show ?thesis using l by (simp add: d_ent_def idir_dinum_def mem_simps)
qed

lemma f_ent_bytes:
  assumes s: "disk_ok s" "length nd = INODE_SIZE" and p: "p < n" "j < 32"
  shows "f_ent (node_bytes s nd n) (24 + 32 * p + j) = pfile_blknum (node_page s nd p) j"
proof -
  have "mget (4 * j) 4 (mget (96 + 128 * p) 128 (node_bytes s nd n)) = mget (96 + 128 * p + 4 * j) 4 (node_bytes s nd n)"
    by (rule mget_mget) (use p in simp)
  moreover have "4 * (24 + 32 * p + j) = 96 + 128 * p + 4 * j" by simp
  ultimately show "f_ent (node_bytes s nd n) (24 + 32 * p + j) = pfile_blknum (node_page s nd p) j"
    using node_bytes_page[OF s p(1)] by (simp only: f_ent_def pfile_blknum_def get32_def)
qed

lemma f_ent_head:
  assumes s: "disk_ok s" "length nd = INODE_SIZE" and l: "l < 24"
  shows "f_ent (node_bytes s nd n) l = ifile_blknum nd l"
proof -
  have "4 * l + 4 \<le> length (mget 16 96 nd)" using s(2) l by simp
  then have "mget (4 * l) 4 (node_bytes s nd n) = mget (4 * l) 4 (mget 16 96 nd)"
    unfolding node_bytes_def by (simp add: mget_def)
  then show ?thesis using l by (simp add: f_ent_def ifile_blknum_def get32_def mem_simps)
qed

text \<open>The page of entry \<open>j\<close>, reached through the numbers in the inode, as far as the index arithmetic is right.\<close>

lemma page_of_entry:
  assumes "j < n" "ndirect k \<le> j"
  shows "(j - ndirect k) div nper k < npages k n"
    "j = ndirect k + nper k * ((j - ndirect k) div nper k) + (j - ndirect k) mod nper k"
proof -
  let ?p = "(j - ndirect k) div nper k"
  show e: "j = ndirect k + nper k * ?p + (j - ndirect k) mod nper k" using assms(2) by simp
  then have "ndirect k + nper k * ?p \<le> j" by linarith
  then have "ptr_at k ?p < n" using assms(1) by (simp add: ptr_at_def)
  then show "?p < npages k n" using npages_le[of k n ?p] by simp
qed

lemma load_page:
  assumes "disk_ok s"
  shows "inode_load (uint (w :: ushort)) b (s\<lparr>iblockbuf := x\<rparr>) = (inode_at s (unat w), s\<lparr>iblockbuf := file_blk s (unat w div 4)\<rparr>)"
  using inode_load_ushort[of "s\<lparr>iblockbuf := x\<rparr>" w b] assms by simp

lemma entry_index:
  assumes "38 \<le> j" "j < 102"
  shows "(int j - 38) sdiv 64 * 8 = 0" "(int j - 38) sdiv 8 = int ((j - 38) div 8)" "(int j - 38) smod 8 = int ((j - 38) mod 8)"
proof -
  have e: "int j - 38 = int (j - 38)" using assms(1) by simp
  show "(int j - 38) sdiv 64 * 8 = 0" "(int j - 38) sdiv 8 = int ((j - 38) div 8)" "(int j - 38) smod 8 = int ((j - 38) mod 8)"
    unfolding e using int_sdiv[of "j - 38" 64] int_sdiv[of "j - 38" 8] assms by simp_all
qed

lemma dnode_entry_get_ok:
  assumes s: "fs_ok s" "node_ok Dnode s i" and j: "j < entries_of s i"
  shows "j < 102 \<Longrightarrow> \<exists>b. dnode_entry_get (of_nat i) (int j) s = Some (dir_entries s i ! j, s\<lparr>iblockbuf := b\<rparr>)"
    "102 \<le> j \<Longrightarrow> dnode_entry_get (of_nat i) (int j) s = None"
proof -
  let ?nd = "inode_at s i" and ?n = "pages_of Dnode s i"
  have d: "disk_ok s" "length ?nd = INODE_SIZE" using fs_ok_disk[OF s(1)] by simp_all
  have ld: "inode_load (uint (of_nat i :: ushort)) uninit s = (?nd, s\<lparr>iblockbuf := file_blk s (i div 4)\<rparr>)"
    using inode_load_ushort[OF d(1), of "of_nat i"] of_nat_ushort[OF s(2)] by simp
  have sz: "\<not> uint (md_size ?nd) \<le> int j" using j by (simp add: entries_of_def) (metis linorder_not_le nat_less_le of_nat_le_iff uint_nat)
  have e: "dir_entries s i ! j = d_ent (node_bytes s ?nd ?n) j" using j by (simp add: dir_entries_def)
  note pg = page_of_entry[of j "entries_of s i" Dnode, OF j, folded pages_of_def, simplified]
  show "\<exists>b. dnode_entry_get (of_nat i) (int j) s = Some (dir_entries s i ! j, s\<lparr>iblockbuf := b\<rparr>)" if "j < 102"
  proof -
    consider "j < 6" | "6 \<le> j" "j < 38" | "38 \<le> j" by linarith
    then show ?thesis
    proof cases
      case 1
      then have "dir_entries s i ! j = idir_dinum ?nd j" using e d_ent_head[OF d] by simp
      then show ?thesis using 1 ld sz by (simp add: dnode_entry_get_def Let_def) blast
    next
      case 2
      let ?p = "(j - 6) div 8" and ?q = "(j - 6) mod 8"
      have p: "?p < ?n" "j = 6 + 8 * ?p + ?q" "?p < 4" using pg 2 by auto
      have "d_ent (node_bytes s ?nd ?n) (6 + 8 * ?p + ?q) = pdir_dinum (node_page s ?nd ?p) ?q" by (rule d_ent_bytes[OF d p(1)]) simp
      then have ent: "dir_entries s i ! j = pdir_dinum (inode_at s (unat (pnum_at ?nd ?p))) ?q"
        using e p(2,3) by (simp add: node_page_def page_num_def)
      have ix: "int j - 6 = int (j - 6)" using 2 by simp
      have "(int j - 6) sdiv 8 = int ?p" "(int j - 6) smod 8 = int ?q" unfolding ix using int_sdiv[of "j - 6" 8] by simp_all
      then show ?thesis using 2 ld sz p(3) ent load_page[OF d(1)]
        by (simp add: dnode_entry_get_def Let_def page_at_def) blast
    next
      case 3
      let ?p = "4 + (j - 38) div 8" and ?q = "(j - 38) mod 8"
      have g: "(j - 38) div 8 < 64" using that by auto
      have p: "?p < ?n" "j = 6 + 8 * ?p + ?q" using pg 3 by auto
      have "d_ent (node_bytes s ?nd ?n) (6 + 8 * ?p + ?q) = pdir_dinum (node_page s ?nd ?p) ?q" by (rule d_ent_bytes[OF d p(1)]) simp
      then have ent: "dir_entries s i ! j
          = pdir_dinum (inode_at s (unat (exnum_at (inode_at s (unat (ex_pnum_at ?nd 0))) ((j - 38) div 8)))) ?q"
        using e p(2) page_num_double[OF g, of s ?nd 0] by (simp add: node_page_def)
      show ?thesis using 3 ld sz ent load_page[OF d(1)] entry_index[OF 3 that] g
        by (simp add: dnode_entry_get_def Let_def ex_page_at_def ex_entry_at_def) blast
    qed
  qed
  show "dnode_entry_get (of_nat i) (int j) s = None" if "102 \<le> j"
  proof -
    have e: "int j - 38 = int (j - 38)" using that by simp
    have "(int j - 38) sdiv 64 = int ((j - 38) div 64)" unfolding e using int_sdiv(1)[of "j - 38" 64] by simp
    moreover have "1 \<le> (j - 38) div 64" using that by simp
    ultimately have "\<not> (int j - 38) sdiv 64 * 8 < 4" by linarith
    then have "ex_page_at nd ((int j - 38) sdiv 64 * 8) = None" for nd unfolding ex_page_at_def by auto
    then show ?thesis using that ld sz by (simp add: dnode_entry_get_def Let_def)
  qed
qed

text \<open>The same for block numbers.\<close>

lemma fentry_index:
  assumes "152 \<le> j" "j < 216"
  shows "(int j - 152) sdiv 64 * 32 = 0" "(int j - 152) sdiv 32 = int ((j - 152) div 32)" "(int j - 152) smod 32 = int ((j - 152) mod 32)"
proof -
  have e: "int j - 152 = int (j - 152)" using assms(1) by simp
  show "(int j - 152) sdiv 64 * 32 = 0" "(int j - 152) sdiv 32 = int ((j - 152) div 32)" "(int j - 152) smod 32 = int ((j - 152) mod 32)"
    unfolding e using int_sdiv[of "j - 152" 64] int_sdiv[of "j - 152" 32] assms by simp_all
qed

lemma fnode_entry_get_ok:
  assumes s: "fs_ok s" "node_ok Fnode s i" and j: "j < entries_of s i"
  shows "j < 216 \<Longrightarrow> \<exists>b. fnode_entry_get (of_nat i) (int j) s = Some (file_blocks s i ! j, s\<lparr>iblockbuf := b\<rparr>)"
    "216 \<le> j \<Longrightarrow> fnode_entry_get (of_nat i) (int j) s = None"
proof -
  let ?nd = "inode_at s i" and ?n = "pages_of Fnode s i"
  have d: "disk_ok s" "length ?nd = INODE_SIZE" using fs_ok_disk[OF s(1)] by simp_all
  have ld: "inode_load (uint (of_nat i :: ushort)) uninit s = (?nd, s\<lparr>iblockbuf := file_blk s (i div 4)\<rparr>)"
    using inode_load_ushort[OF d(1), of "of_nat i"] of_nat_ushort[OF s(2)] by simp
  have sz: "\<not> uint (md_size ?nd) \<le> int j" using j by (simp add: entries_of_def) (metis linorder_not_le nat_less_le of_nat_le_iff uint_nat)
  have e: "file_blocks s i ! j = f_ent (node_bytes s ?nd ?n) j" using j by (simp add: file_blocks_def)
  note pg = page_of_entry[of j "entries_of s i" Fnode, OF j, folded pages_of_def, simplified]
  show "\<exists>b. fnode_entry_get (of_nat i) (int j) s = Some (file_blocks s i ! j, s\<lparr>iblockbuf := b\<rparr>)" if "j < 216"
  proof -
    consider "j < 24" | "24 \<le> j" "j < 152" | "152 \<le> j" by linarith
    then show ?thesis
    proof cases
      case 1
      then have "file_blocks s i ! j = ifile_blknum ?nd j" using e f_ent_head[OF d] by simp
      then show ?thesis using 1 ld sz by (simp add: fnode_entry_get_def Let_def) blast
    next
      case 2
      let ?p = "(j - 24) div 32" and ?q = "(j - 24) mod 32"
      have p: "?p < ?n" "j = 24 + 32 * ?p + ?q" "?p < 4" using pg 2 by auto
      have "f_ent (node_bytes s ?nd ?n) (24 + 32 * ?p + ?q) = pfile_blknum (node_page s ?nd ?p) ?q" by (rule f_ent_bytes[OF d p(1)]) simp
      then have ent: "file_blocks s i ! j = pfile_blknum (inode_at s (unat (pnum_at ?nd ?p))) ?q"
        using e p(2,3) by (simp add: node_page_def page_num_def)
      have ix: "int j - 24 = int (j - 24)" using 2 by simp
      have "(int j - 24) sdiv 32 = int ?p" "(int j - 24) smod 32 = int ?q" unfolding ix using int_sdiv[of "j - 24" 32] by simp_all
      then show ?thesis using 2 ld sz p(3) ent load_page[OF d(1)]
        by (simp add: fnode_entry_get_def Let_def page_at_def) blast
    next
      case 3
      let ?p = "4 + (j - 152) div 32" and ?q = "(j - 152) mod 32"
      have g: "(j - 152) div 32 < 64" using that by auto
      have p: "?p < ?n" "j = 24 + 32 * ?p + ?q" using pg 3 by auto
      have "f_ent (node_bytes s ?nd ?n) (24 + 32 * ?p + ?q) = pfile_blknum (node_page s ?nd ?p) ?q" by (rule f_ent_bytes[OF d p(1)]) simp
      then have ent: "file_blocks s i ! j
          = pfile_blknum (inode_at s (unat (exnum_at (inode_at s (unat (ex_pnum_at ?nd 0))) ((j - 152) div 32)))) ?q"
        using e p(2) page_num_double[OF g, of s ?nd 0] by (simp add: node_page_def)
      show ?thesis using 3 ld sz ent load_page[OF d(1)] fentry_index[OF 3 that] g
        by (simp add: fnode_entry_get_def Let_def ex_page_at_def ex_entry_at_def) blast
    qed
  qed
  show "fnode_entry_get (of_nat i) (int j) s = None" if "216 \<le> j"
  proof -
    have e: "int j - 152 = int (j - 152)" using that by simp
    have "(int j - 152) sdiv 64 = int ((j - 152) div 64)" unfolding e using int_sdiv(1)[of "j - 152" 64] by simp
    moreover have "1 \<le> (j - 152) div 64" using that by simp
    ultimately have "\<not> (int j - 152) sdiv 64 * 32 < 4" by linarith
    then have "ex_page_at nd ((int j - 152) sdiv 64 * 32) = None" for nd unfolding ex_page_at_def by auto
    then show ?thesis using that ld sz by (simp add: fnode_entry_get_def Let_def)
  qed
qed

section \<open>Attributes\<close>

lemma isdir_nlink: "length nd = INODE_SIZE \<Longrightarrow> md_isdir (set_nlink v nd) = md_isdir nd"
  "length nd = INODE_SIZE \<Longrightarrow> md_isdir (set_size u nd) = md_isdir nd"
  by (simp_all add: layout_defs put16_def nth_mput)

lemma attr_fields:
  assumes "length nd = INODE_SIZE"
  shows "md_fsize (set_nlink v (set_fsize x nd)) = x" "md_nlink (set_nlink v nd) = v" "md_size (set_nlink v (set_size u nd)) = u"
  using assms by (simp_all add: layout_defs mem_simps)

lemma length_sets [simp]:
  assumes "length nd = INODE_SIZE"
  shows "length (set_fsize x nd) = INODE_SIZE" "length (set_nlink v nd) = INODE_SIZE" "length (set_size u nd) = INODE_SIZE"
  using assms by (simp_all add: layout_defs)

lemma get_attr_dump:
  assumes "disk_ok s" "length nd = INODE_SIZE"
  shows "fst (inode_get_attr_upc w (inode_dump (uint w) nd s)) =
    (if md_isdir nd \<noteq> 0 then (DIR_MODE, uint (md_nlink nd), uint (md_size nd))
     else (REG_MODE, uint (md_nlink nd), sint (md_fsize nd)))"
proof -
  have "disk_ok (inode_dump (uint w) nd s)" "inode_at (inode_dump (uint w) nd s) (unat w) = nd"
    using disk_ok_dump[OF assms(1) unat_ushort_less assms(2), of w] inode_at_dump[OF assms(1) unat_ushort_less assms(2), of w "unat w"]
    by simp_all
  then show ?thesis by (simp add: inode_get_attr_upc_def inode_load_ushort Let_def)
qed

section \<open>Properties\<close>

text \<open>
  A dumped inode is loaded back, and the other inodes, three of which share its block, are loaded as before.
\<close>

theorem inode_dump_load:
  assumes "disk_ok s" "n < 131072" "m < 131072" "length nd = 128"
  shows "fst (inode_load (int m) x (inode_dump (int n) nd s)) = (if m = n then nd else fst (inode_load (int m) x s))"
  using assms disk_ok_dump[OF assms(1,2,4)] inode_at_dump[OF assms(1,2,4), of m] by (simp add: inode_load_eq)

theorem inode_dump_load_witness:
  "fst (inode_load (int 6) [] (inode_dump (int 6) (replicate 128 1) mounted)) = replicate 128 1
   \<and> fst (inode_load (int 2) [] (inode_dump (int 3) (replicate 128 1) mounted)) = dir_node 2 2"
  using inode_dump_load[of mounted 6 6 "replicate 128 1" "[]"] inode_dump_load[of mounted 3 2 "replicate 128 1" "[]"]
    inode_load_eq[OF fs_ok_disk[OF mounted(1)], of 2 "[]"] fs_ok_disk[OF mounted(1)] mounted(4) by simp

text \<open>
  C39. Attributes that are set are got back cut to their fields: the link count modulo 65536, the size of a file at
  most 4272128 (8344 blocks), the size of a directory at most 2086 entries.
\<close>

theorem attr_set_get:
  assumes "disk_ok s" "-2147483648 \<le> z"
  shows "fst (inode_get_attr_upc w (inode_set_attr_upc w (Some k) (Some z) s)) =
    (if md_isdir (inode_at s (unat w)) = 0 then (REG_MODE, k mod 65536, min z 4272128)
     else (DIR_MODE, k mod 65536, min z 2086 mod 65536))"
proof -
  let ?nd = "inode_at s (unat w)" and ?s = "s\<lparr>iblockbuf := file_blk s (unat w div 4)\<rparr>"
  have l: "length ?nd = INODE_SIZE" using assms(1) by simp
  have ld: "inode_load (uint w) uninit s = (?nd, ?s)" using inode_load_ushort[OF assms(1)] by simp
  have n: "uint (word_of_int k :: ushort) = k mod 65536" by (simp add: uint_word_of_int)
  show ?thesis
  proof (cases "md_isdir ?nd = 0")
    case True
    let ?z = "min z 4272128"
    have z: "(if FCONTENT_MAX_SIZE < z then FCONTENT_MAX_SIZE else z) = ?z" by auto
    have "sint (word_of_int ?z :: blknum_t) = ?z"
      using sint_word_of_int_c_int[of ?z] assms(2) by (simp add: c_int_id)
    then show ?thesis
      using True ld z n l assms(1) attr_fields[of ?nd] attr_fields[of "set_fsize (word_of_int ?z) ?nd"]
        fsize_fields(2)[OF l] isdir_nlink[of "set_fsize (word_of_int ?z) ?nd"]
      by (simp add: inode_set_attr_upc_def Let_def get_attr_dump)
  next
    case False
    let ?z = "min z 2086"
    have z: "(if DENTRY_MAX_SIZE < z then DENTRY_MAX_SIZE else z) = ?z" by auto
    have "uint (word_of_int ?z :: ushort) = ?z mod 65536" by (simp add: uint_word_of_int)
    then show ?thesis
      using False ld z n l assms(1) attr_fields[of ?nd] attr_fields[of "set_size (word_of_int ?z) ?nd"]
        isdir_nlink[of "set_size (word_of_int ?z) ?nd"] isdir_nlink(2)[OF l]
      by (simp add: inode_set_attr_upc_def Let_def get_attr_dump)
  qed
qed

theorem attr_set_get_witness:
  "fst (inode_get_attr_upc 3 (inode_set_attr_upc 3 (Some 65537) (Some 5000000) empty_file)) = (REG_MODE, 1, 4272128)"
proof -
  have "disk_ok empty_file" "md_isdir (inode_at empty_file 3) = 0"
    using fs_ok_disk[OF empty_file(1)] empty_file(5) by (simp_all add: file_ok_def)
  with attr_set_get[of empty_file 5000000 3 65537] show ?thesis by simp
qed

text \<open>
  C37. Reading one directory entry by its index agrees with the listing for the entries 0 to 101; from entry 102 on the
  index into the four double page numbers is at least 8, which is undefined behaviour.
\<close>

theorem dnode_entry_get_spec:
  assumes "fs_ok s" "node_ok Dnode s i" "j < entries_of s i"
  shows "if j < 102 then \<exists>b. dnode_entry_get (of_nat i) (int j) s = Some (dir_entries s i ! j, s\<lparr>iblockbuf := b\<rparr>)
    else dnode_entry_get (of_nat i) (int j) s = None"
  using dnode_entry_get_ok[OF assms] by simp

theorem dnode_entry_get_spec_witness:
  "\<exists>s. dnode_listing_set 2 200 mounted = Some s \<and> dnode_entry_get 2 150 s = None
     \<and> (\<exists>t. dnode_entry_get 2 100 s = Some (dir_entries s 2 ! 100, t))"
proof -
  have c: "clamp_size Dnode 200 = 200" by (simp add: clamp_size_def)
  from listing_set_ok[OF mounted(1) node_ok_root(1), of 200] obtain s where s: "dnode_listing_set 2 200 mounted = Some s"
    "resized Dnode mounted 2 200 s" by (auto simp: c node_ok_root(2) mounted(3) npages_def need_def ndouble_def)
  then have "fs_ok s" "node_ok Dnode s 2" "150 < entries_of s 2" "100 < entries_of s 2" by (simp_all add: resized_def)
  with dnode_entry_get_spec[of s 2 150] dnode_entry_get_spec[of s 2 100] s(1) show ?thesis by auto
qed

text \<open>
  C38. Reading one block number of a file by its index agrees with the block list for the first 216 blocks; from block 216
  on it is undefined behaviour.
\<close>

theorem fnode_entry_get_spec:
  assumes "fs_ok s" "node_ok Fnode s i" "j < entries_of s i"
  shows "if j < 216 then \<exists>b. fnode_entry_get (of_nat i) (int j) s = Some (file_blocks s i ! j, s\<lparr>iblockbuf := b\<rparr>)
    else fnode_entry_get (of_nat i) (int j) s = None"
  using fnode_entry_get_ok[OF assms] by simp

theorem fnode_entry_get_spec_witness:
  "\<exists>s. fnode_listing_set 3 300 empty_file = Some s \<and> fnode_entry_get 3 216 s = None
     \<and> (\<exists>t. fnode_entry_get 3 215 s = Some (file_blocks s 3 ! 215, t))"
proof -
  have c: "clamp_size Fnode 300 = 300" by (simp add: clamp_size_def)
  have "node_ok Fnode empty_file 3" "pages_of Fnode empty_file 3 = 0"
    using empty_file(5,6) by (simp_all add: file_ok_def pages_of_def)
  with listing_set_ok[OF empty_file(1), of Fnode 3 300] obtain s where s: "fnode_listing_set 3 300 empty_file = Some s"
    "resized Fnode empty_file 3 300 s" by (auto simp: c empty_file(3) npages_def need_def ndouble_def)
  then have "fs_ok s" "node_ok Fnode s 3" "216 < entries_of s 3" "215 < entries_of s 3" by (simp_all add: resized_def)
  with fnode_entry_get_spec[of s 3 216] fnode_entry_get_spec[of s 3 215] s(1) show ?thesis by auto
qed

end
