(* ===== verification/FS_Faults.thy ===== *)
theory FS_Faults
  imports FS_Requests FS_Attributes
begin

text \<open>
  Mounting, and what goes wrong: the behaviour of the code at its limits, where it does not do what its callers
  expect. The device cannot be opened again, mounting formats, a full directory miscounts, and growing a file by \<open>sfs_truncate\<close> maps it to the superblock.
\<close>

section \<open>Growing a file\<close>

lemma extend_blocks_ok:
  "fs_ok s \<Longrightarrow> n + m \<le> 8344 \<Longrightarrow> m \<le> length (free_list s) \<Longrightarrow>
   \<exists>s' B. extend_blocks m (int n) s = Some s' \<and> fs_ok s' \<and> free_list s' = drop m (free_list s) \<and> data_kept s B s'
     \<and> (\<forall>b\<in>B. 1024 < b)"
proof (induction m arbitrary: n s)
  case 0
  then show ?case by (auto simp: data_kept_def intro!: exI[of _ "{}"])
next
  case (Suc m)
  then obtain b bs where l: "free_list s = b # bs" by (cases "free_list s") auto
  have b: "data_block (word_of_int b)" "uint (word_of_int b :: blknum_t) = b"
    using free_list_words[OF Suc.prems(1), of b] l by simp_all
  let ?w = "word_of_int b :: blknum_t"
  have "length (alloc_content None) = 512" by (simp add: alloc_content_def)
  from data_alloc_ok[OF Suc.prems(1) _ this, of ?w bs] l b obtain u where u: "free_block_allocate None s = (b, u)" "fs_ok u"
    "free_list u = bs" "data_kept s {unat ?w} u" "f_arr u = f_arr s" by auto
  have fl: "length (f_arr u) = ARR_BYTES" using u(2) by (simp add: fs_ok_def)
  define f where "f = put32 (4 * n) ?w (f_arr u)"
  have f: "f_put (int n) b (f_arr u) = Some f" "length f = ARR_BYTES"
    using Suc.prems(2) fl by (simp_all add: f_put_def f_def)
  have "fs_ok (u\<lparr>f_arr := f\<rparr>)" using u(2) f(2) fl by simp
  from Suc.IH[OF this, of "Suc n"] Suc.prems(2,3) u(3) l obtain s' B where s': "extend_blocks m (int (Suc n)) (u\<lparr>f_arr := f\<rparr>) = Some s'"
    "fs_ok s'" "free_list s' = drop m bs" "data_kept (u\<lparr>f_arr := f\<rparr>) B s'" "\<forall>b\<in>B. 1024 < b" by auto
  have "data_kept u B s'" using s'(4) by (simp add: data_kept_def)
  from data_kept_trans[OF u(4) this] have "data_kept s ({unat ?w} \<union> B) s'" .
  moreover have "\<forall>b\<in>{unat ?w} \<union> B. 1024 < b" using s'(5) b(1) by (simp add: data_block_def)
  moreover have "int n + 1 = int (Suc n)" by simp
  then have "extend_blocks (Suc m) (int n) s = Some s'" using u(1) f(1) s'(1) by (simp add: add.commute)
  ultimately show ?case using s'(2,3) l by (intro exI[of _ s'] exI[of _ "{unat ?w} \<union> B"]) simp
qed

lemma f_ent_zeros: "4 * j + 4 \<le> n \<Longrightarrow> f_ent (zeros n) j = 0"
  by (simp add: f_ent_def get32_def rd32_def zeros_def mget_def)

lemma file_node_data: "mget 16 96 (file_node x p) = zeros 96"
proof -
  have "mget 16 96 (zeros INODE_SIZE) = zeros 96" by (simp add: zeros_def mget_def)
  then show ?thesis by (simp add: file_node_def layout_defs mem_simps)
qed

text \<open>Storing the listing of a file that has no page: the blocks are read off the array.\<close>

lemma store_few:
  assumes s: "fs_ok s" "node_ok Fnode s i" "pages_of Fnode s i = 0" and n: "n \<le> 24"
  shows "\<exists>s'. fnode_listing_set (of_nat i) (int n) s = Some s' \<and> fs_ok s' \<and> node_ok Fnode s' i \<and> pages_of Fnode s' i = 0
     \<and> file_blocks s' i = map (f_ent (f_arr s)) [0..<n] \<and> md_isdir (inode_at s' i) = md_isdir (inode_at s i) \<and> unchanged s ({i} \<union> free_inodes s) s'"
proof -
  have c: "clamp_size Fnode (int n) = n" "npages Fnode n = 0" using n by (simp_all add: clamp_size_def npages_def)
  have e: "nodes_of Fnode s i = {}" using s(3) by (simp add: nodes_of_def)
  from listing_set_ok[OF s(1,2), of "int n"] obtain s' where s': "fnode_listing_set (of_nat i) (int n) s = Some s'"
    "resized Fnode s i n s'" "unchanged s ({i} \<union> free_inodes s) s'" using n by (auto simp: c s(3) e need_def ndouble_def split: if_splits)
  have "length (inode_at s i) = INODE_SIZE" "length (f_arr s) = ARR_BYTES" using s(1) fs_ok_disk[OF s(1)] by (simp_all add: fs_ok_def)
  then have "md_isdir (inode_at s' i) = md_isdir (inode_at s i)"
    using s'(2) head_fields(7)[of "set_head (f_arr s) n (inode_at s i)" "inode_at s' i"] set_head_simps(1,8)[of "inode_at s i" "f_arr s"]
    by (simp add: resized_def)
  then show ?thesis using s' resized_blocks[OF s'(2)] c by (auto simp: resized_def pages_of_def)
qed

lemma truncate_new_file:
  assumes s: "fs_ok s" "node_ok Fnode s i" "inode_at s i = file_node (of_nat i) p"
    and n: "n = o' div 512 + 1" "n \<le> 24" "n \<le> length (free_list s)"
  shows "\<exists>u v w. fnode_listing (of_nat i) s = (0, u) \<and> (\<exists>x. extend_blocks n 0 u = Some x \<and> fstream_free (int i) (int n) x = Some v)
     \<and> fnode_listing_set (of_nat i) (int n) v = Some w
     \<and> (let s' = inode_set_attr_upc (of_nat i) None (Some (int o')) w
        in fs_ok s' \<and> node_ok Fnode s' i \<and> file_blocks s' i = replicate n 0 \<and> free_list s' = drop n (free_list s) \<and> fsize_of s' i = o')"
proof -
  have d: "disk_ok s" "arrays_ok s" using s(1) fs_ok_disk by (auto simp: fs_ok_def arrays_ok_def)
  have wi: "unat (of_nat i :: ushort) = i" by (rule of_nat_ushort[OF s(2)])
  have e0: "entries_of s i = 0" using s(3) by (simp add: entries_of_def file_node_fields)
  have list: "\<exists>b. fnode_listing (of_nat i) x = (0, x\<lparr>iblockbuf := b, f_arr := mput 0 (zeros 96) (f_arr x)\<rparr>)"
    if "fs_ok x" "inode_at x i = inode_at s i" for x
  proof -
    have "disk_ok x" "arrays_ok x" using that(1) fs_ok_disk by (auto simp: fs_ok_def arrays_ok_def)
    moreover have "node_bytes x (file_node (of_nat i) p) 0 = zeros 96" by (simp add: node_bytes_def file_node_data)
    ultimately show ?thesis using fnode_listing_eq[of x "of_nat i"] that(2) s(3) wi by (simp add: file_node_fields)
  qed
  obtain b where b: "fnode_listing (of_nat i) s = (0, s\<lparr>iblockbuf := b, f_arr := mput 0 (zeros 96) (f_arr s)\<rparr>)"
    using list[OF s(1) refl] by blast
  let ?u = "s\<lparr>iblockbuf := b, f_arr := mput 0 (zeros 96) (f_arr s)\<rparr>"
  have "length (f_arr s) = ARR_BYTES" using s(1) by (simp add: fs_ok_def)
  then have u: "fs_ok ?u" "free_list ?u = free_list s" using s(1) by simp_all
  from extend_blocks_ok[OF u(1), of 0 n] n(2,3) u(2) obtain x B where x: "extend_blocks n 0 ?u = Some x" "fs_ok x"
    "free_list x = drop n (free_list s)" "data_kept ?u B x" "\<forall>b\<in>B. 1024 < b" by auto
  have uok: "node_ok Fnode ?u i" "inode_at ?u i = inode_at s i" using s(2) by simp_all
  note k = data_kept_node[OF x(4,5) uok(1)]
  have ix: "inode_at x i = inode_at s i" using k(2) uok(2) by simp
  obtain b' where b': "fnode_listing (of_nat i) x = (0, x\<lparr>iblockbuf := b', f_arr := mput 0 (zeros 96) (f_arr x)\<rparr>)"
    using list[OF x(2) ix] by blast
  let ?y = "x\<lparr>iblockbuf := b', f_arr := mput 0 (zeros 96) (f_arr x)\<rparr>"
  have fx: "length (f_arr x) = ARR_BYTES" using x(2) by (simp add: fs_ok_def)
  have p0: "pages_of Fnode ?y i = 0" using ix e0 by (simp add: pages_of_def entries_of_def)
  have y: "fs_ok ?y" "node_ok Fnode ?y i" "md_isdir (inode_at ?y i) = 0" using x(2) k(1) fx ix s(3) by (simp_all add: file_node_isdir)
  from store_few[OF y(1,2) p0 n(2)] obtain v where v: "fnode_listing_set (of_nat i) (int n) ?y = Some v" "fs_ok v" "node_ok Fnode v i"
    "pages_of Fnode v i = 0" "md_isdir (inode_at v i) = 0" "unchanged ?y ({i} \<union> free_inodes ?y) v" using y(3) by auto
  have run: "fstream_free (int i) (int n) x = Some v" using b' v(1) by (simp add: fstream_free_def)
  from store_few[OF v(2-4) n(2)] obtain w where w: "fnode_listing_set (of_nat i) (int n) v = Some w" "fs_ok w" "node_ok Fnode w i"
    "file_blocks w i = map (f_ent (f_arr v)) [0..<n]" "md_isdir (inode_at w i) = 0" "unchanged v ({i} \<union> free_inodes v) w" using v(5) by auto
  have "f_ent (f_arr v) j = 0" if "j < n" for j
  proof -
    have "f_ent (f_arr v) j = f_ent (mput 0 (zeros 96) (f_arr x)) j" using v(6) by (simp add: unchanged_def)
    then show ?thesis using f_ent_mput[of "zeros 96" "f_arr x" j] f_ent_zeros[of j 96] that n(2) fx by simp
  qed
  then have fb: "file_blocks w i = replicate n 0" unfolding w(4) by (intro nth_equalityI) simp_all
  have "o' < 512 * 24" using n(1,2) div_512[of o' 24] by (cases "o' < 512 * 24") auto
  then have F: "o' \<le> 8344 * 512" by simp
  from set_attr_file[OF w(2,3,5) F] obtain s' where s': "inode_set_attr_upc (of_nat i) None (Some (int o')) w = s'" "fs_ok s'"
    "node_ok Fnode s' i" "inode_at s' i = set_fsize (of_nat o') (inode_at w i)" "entries_of s' i = entries_of w i" "unchanged w {i} s'" by auto
  have nn: "entries_of w i = n" using fb length_file_blocks[of w i] by simp
  have lw: "length (inode_at w i) = INODE_SIZE" using fs_ok_disk[OF w(2)] by simp
  have "fsize_of s' i = o'" using s'(4) fsize_fields(1)[OF lw] F by (simp add: fsize_of_def unsigned_of_nat take_bit_nat_eq_self)
  moreover have "free_list s' = drop n (free_list s)" using s'(6) w(6) v(6) x(3) by (simp add: unchanged_def kept_def)
  moreover have "file_blocks s' i = file_blocks w i"
  proof -
    have "pages_of Fnode w i = 0" using nn n(2) by (simp add: pages_of_def npages_def)
    moreover have "mget 16 96 (inode_at s' i) = mget 16 96 (inode_at w i)" using lw unfolding s'(4) by (simp add: layout_defs mem_simps)
    ultimately show ?thesis using s'(5) by (simp add: file_blocks_def pages_of_def node_bytes_def)
  qed
  ultimately show ?thesis using b x(1) run w(1) s'(1-3) fb by auto
qed

section \<open>A full directory\<close>

lemma create_in_full:
  assumes s: "fs_ok s" and i: "node_ok Dnode s i" "entries_of s i = 2085" and ne: "free_inodes s \<noteq> {}"
    and f: "readable 13 fname" "\<forall>e\<in>set (dir_entries s i). \<not> same_name e fname" and l: "14 \<le> length fname"
    and x: "x = Min (free_inodes s)"
  shows "\<exists>s1 s2 s3 s'. free_inode_pop s = (of_nat x, s1) \<and> dnode_append (int i) (new_entry fname x) (fnode_init (of_nat x) (of_nat i) s1) = Some s2
     \<and> ERRNO s2 = - EFBIG \<and> dnode_remove (int i) fname (s2\<lparr>ERRNO := 0\<rparr>) = Some s3 \<and> free_inode_push (of_nat x) s3 = Some s'
     \<and> fs_ok s' \<and> node_ok Dnode s' i \<and> dir_entries s' i = dir_entries s i \<and> md_nlink (inode_at s' i) = md_nlink (inode_at s i) + 1
     \<and> free_inodes s' \<union> nodes_of Dnode s' i = free_inodes s \<union> nodes_of Dnode s i
     \<and> kept (s\<lparr>ERRNO := 0\<rparr>) ({i} \<union> free_inodes s \<union> nodes_of Dnode s i) s'"
proof -
  let ?F = "{i} \<union> free_inodes s \<union> nodes_of Dnode s i"
  have xf: "x \<in> free_inodes s" using ne by (simp add: x finite_free_inodes)
  have "x < 65536" using free_inodes_range[OF s xf] by simp
  then have ux: "uint (of_nat x :: ushort) = int x" "unat (of_nat x :: ushort) = x"
    by (rule uint_of_nat_ushort, simp add: unat_of_nat_ushort)
  have fn: "npages Fnode (unat (md_size (file_node (of_nat x) (of_nat i)))) = 0" by (simp add: file_node_fields)
  from new_node[OF s ne x length_file_node file_node_fields(1) fn] obtain s1 where s1: "free_inode_pop s = (of_nat x, s1)"
    "fs_ok (inode_dump (int x) (file_node (of_nat x) (of_nat i)) s1)"
    "free_inodes (inode_dump (int x) (file_node (of_nat x) (of_nat i)) s1) = free_inodes s - {x}"
    "kept s {x} (inode_dump (int x) (file_node (of_nat x) (of_nat i)) s1)" by blast
  define t where "t = inode_dump (int x) (file_node (of_nat x) (of_nat i)) s1"
  note t = s1(2-4)[folded t_def]
  have "kept s (free_inodes s) t" using kept_mono[OF t(3)] xf by blast
  moreover have "({i} \<union> nodes_of Dnode s i) \<inter> free_inodes s = {}" using i(1) by (auto simp: node_ok_def)
  moreover have "free_inodes t \<subseteq> free_inodes s" using t(2) by blast
  ultimately have ti: "node_ok Dnode t i" "inode_at t i = inode_at s i" "nodes_of Dnode t i = nodes_of Dnode s i"
    "node_bytes t (inode_at s i) (pages_of Dnode s i) = node_bytes s (inode_at s i) (pages_of Dnode s i)"
    using unchanged_node[of s "free_inodes s" t Dnode i] i(1) by blast+
  have ent: "entries_of t i = 2085" "dir_entries t i = dir_entries s i" "pages_of Dnode t i = npages Dnode 2085"
    using ti(2,4) i(2) by (simp_all add: entries_of_def pages_of_def dir_entries_def)
  have e14: "length (de_name (new_entry fname x)) = 14" using l by (simp add: new_entry_def)
  have "need (npages Dnode (min (Suc (entries_of t i)) 2085)) (pages_of Dnode t i) 0 0 \<le> card (free_inodes t)"
    unfolding ent by (simp add: need_shrink)
  from dnode_append_any[OF t(1) ti(1) _ e14 this] obtain s2 where s2: "dnode_append (int i) (new_entry fname x) t = Some s2"
    "fs_ok s2" "node_ok Dnode s2 i" "dir_entries s2 i = dir_entries s i" "md_nlink (inode_at s2 i) = md_nlink (inode_at s i) + 1"
    "free_inodes s2 \<union> nodes_of Dnode s2 i = free_inodes t \<union> nodes_of Dnode s i"
    "kept (t\<lparr>ERRNO := - EFBIG\<rparr>) ({i} \<union> free_inodes t \<union> nodes_of Dnode s i) s2"
    by (auto simp: ent ti i(2))
  have e2: "ERRNO s2 = - EFBIG" using s2(7) by (simp add: kept_def)
  let ?u = "s2\<lparr>ERRNO := 0\<rparr>"
  have u: "fs_ok ?u" "node_ok Dnode ?u i" using s2(2,3) by simp_all
  have du: "dir_entries ?u i = dir_entries s i" using s2(4) by (simp add: dir_entries_def)
  have "\<forall>j<entries_of ?u i. \<not> same_name (dir_entries ?u i ! j) fname"
    using f(2) du length_dir_entries[of ?u i] by (metis nth_mem)
  from dnode_remove_none[OF u f(1) this] obtain b A where
    r: "dnode_remove (int i) fname ?u = Some (?u\<lparr>iblockbuf := b, d_arr := A\<rparr>)" "length A = ARR_BYTES" by blast
  let ?v = "?u\<lparr>iblockbuf := b, d_arr := A\<rparr>"
  have ld: "length (d_arr ?u) = ARR_BYTES" using u(1) by (simp only: fs_ok_def)
  have v: "fs_ok ?v" "node_ok Dnode ?v i" using u r(2) ld by simp_all
  have xr: "2 \<le> unat (of_nat x :: ushort)" "unat (of_nat x :: ushort) < 1024" unfolding ux using free_inodes_range[OF s xf] by simp_all
  from free_inode_push_ok[OF v(1) xr] obtain c where c: "free_inode_push (of_nat x) ?v = Some (?v\<lparr>file_blk := (file_blk ?v)(1024 := c)\<rparr>)"
    "fs_ok (?v\<lparr>file_blk := (file_blk ?v)(1024 := c)\<rparr>)"
    "free_inodes (?v\<lparr>file_blk := (file_blk ?v)(1024 := c)\<rparr>) = insert x (free_inodes ?v)"
    "free_list (?v\<lparr>file_blk := (file_blk ?v)(1024 := c)\<rparr>) = free_list ?v" unfolding ux by blast
  define w where "w = ?v\<lparr>file_blk := (file_blk ?v)(1024 := c)\<rparr>"
  have fv: "free_inodes ?v = free_inodes s2" "nodes_of Dnode ?v i = nodes_of Dnode s2 i" "inode_at ?v m = inode_at s2 m" for m by simp_all
  have un: "\<forall>m<4096. m \<notin> insert x (free_inodes s2) \<longrightarrow> inode_at w m = inode_at ?v m"
    unfolding w_def using inode_at_bitmap[of _ ?v c] by blast
  have xi: "x \<noteq> i" "x \<notin> nodes_of Dnode s2 i"
  proof -
    show "x \<noteq> i" using i(1) xf by (auto simp: node_ok_def)
    have "x \<notin> free_inodes t \<union> nodes_of Dnode s i" using t(2) i(1) xf by (auto simp: node_ok_def)
    then show "x \<notin> nodes_of Dnode s2 i" using s2(6) by blast
  qed
  have "({i} \<union> nodes_of Dnode ?v i) \<inter> insert x (free_inodes s2) = {}" using xi s2(3) unfolding fv by (auto simp: node_ok_def)
  moreover have "free_inodes w \<subseteq> insert x (free_inodes s2)" using c(3) fv by (simp add: w_def)
  ultimately have n: "node_ok Dnode w i" "inode_at w i = inode_at ?v i" "nodes_of Dnode w i = nodes_of Dnode ?v i"
    "node_bytes w (inode_at ?v i) (pages_of Dnode ?v i) = node_bytes ?v (inode_at ?v i) (pages_of Dnode ?v i)"
    using same_node[OF un v(2)] by blast+
  have "dir_entries ?v i = dir_entries s i" using du by (simp add: dir_entries_def)
  then have "dir_entries w i = dir_entries s i" using n(2,4) by (simp add: dir_entries_def entries_of_def pages_of_def)
  moreover have "free_inodes w = insert x (free_inodes s2)" using c(3) fv by (simp add: w_def)
  then have "free_inodes w \<union> nodes_of Dnode w i = free_inodes s \<union> nodes_of Dnode s i"
    using s2(6) t(2) xf n(3) fv by auto
  moreover have "md_nlink (inode_at w i) = md_nlink (inode_at s i) + 1" using n(2) s2(5) by simp
  moreover have "fs_ok w" using c(2) by (simp only: w_def)
  moreover have "kept (s\<lparr>ERRNO := 0\<rparr>) ?F w"
  proof -
    have m: "\<forall>m<4096. m \<notin> ?F \<longrightarrow> inode_at w m = inode_at s m"
    proof (intro allI impI)
      fix m :: nat assume m: "m < 4096" "m \<notin> ?F"
      then have "m \<notin> {i} \<union> free_inodes t \<union> nodes_of Dnode s i" "m \<notin> insert x (free_inodes s2)" "m \<notin> {x}"
        using s2(6) t(2) xf by blast+
      then show "inode_at w m = inode_at s m" using un s2(7) t(3) m(1) by (simp add: kept_def)
    qed
    have "\<forall>b>1024. file_blk w b = file_blk s b" using s2(7) t(3) by (simp add: kept_def w_def)
    moreover have "free_list w = free_list s" using s2(7) t(3) c(4) by (simp add: kept_def w_def)
    ultimately show ?thesis using m by (simp add: kept_def w_def)
  qed
  moreover have "fnode_init (of_nat x) (of_nat i) s1 = t" by (simp add: fnode_init_eq ux t_def)
  moreover have "free_inode_push (of_nat x) ?v = Some w" using c(1) by (simp only: w_def)
  ultimately show ?thesis using s1(1) s2(1) e2 r(1) n(1) by (intro exI[of _ s1] exI[of _ s2] exI[of _ ?v] exI[of _ w]) simp
qed

section \<open>Properties\<close>

text \<open>
  C33. Growing a new file with sfs_truncate does not give it blocks: the numbers of the allocated blocks are overwritten when
  fstream_free reads the listing again, so the file is mapped to block 0, the superblock, as often as it got blocks,
  and the allocated blocks are lost to the free list.
\<close>

theorem truncate_maps_superblock:
  assumes "fs_ok s" "\<forall>d\<in>set cs. component d" "component c" "length (path_text cs c) < PATH_MAX"
    and "path_walk s 2 cs (int p)" "node_ok Dnode s p" "lookup_in s p c = int i" "node_ok Fnode s i"
    and "inode_at s i = file_node (of_nat i) q" "o' < 24 * 512" "o' div 512 + 1 \<le> length (free_list s)"
  shows "\<exists>s'. sfs_truncate (path_text cs c @ 0 # r) (int o') s = Some (0, s') \<and> fsize_of s' i = o'
     \<and> file_blocks s' i = replicate (o' div 512 + 1) 0 \<and> free_list s' = drop (o' div 512 + 1) (free_list s)"
proof -
  let ?n = "o' div 512 + 1"
  obtain t where t: "path_to_inum (path_text cs c @ 0 # r) s = Some ((int i, int p), t)" "same_disk s t"
    using path_resolves[OF assms(1-6)] assms(7) by metis
  note d = same_disk_frame[OF t(2)]
  have n: "?n \<le> 24" using assms(10) div_512[of o' 24] by simp
  have "fs_ok t" "node_ok Fnode t i" "inode_at t i = file_node (of_nat i) q" "?n \<le> length (free_list t)" using assms d by simp_all
  from truncate_new_file[OF this(1-3) refl n this(4)] obtain u x v w where
    r: "fnode_listing (of_nat i) t = (0, u)" "extend_blocks ?n 0 u = Some x" "fstream_free (int i) (int ?n) x = Some v"
    "fnode_listing_set (of_nat i) (int ?n) v = Some w"
    and e: "file_blocks (inode_set_attr_upc (of_nat i) None (Some (int o')) w) i = replicate ?n 0"
      "free_list (inode_set_attr_upc (of_nat i) None (Some (int o')) w) = drop ?n (free_list t)"
      "fsize_of (inode_set_attr_upc (of_nat i) None (Some (int o')) w) i = o'"
    unfolding Let_def by blast
  have off: "int o' sdiv 512 + 1 = int ?n" using int_sdiv(1)[of o' 512] by simp
  have "o' < 2147483648" "?n < 2147483648" using assms(10) n by linarith+
  then have ci: "c_int (int o') = int o'" "c_int (int ?n) = int ?n" by (simp_all add: c_int_id)
  have z: "nat (int ?n - int 0) = ?n" "extend_blocks ?n (int 0) u = Some x" using r(2) by simp_all
  have "sfs_truncate (path_text cs c @ 0 # r) (int o') s = Some (0, inode_set_attr_upc (of_nat i) None (Some (int o')) w)"
    unfolding sfs_truncate_def
    by (simp only: t(1) r z ci off Let_def prod.case option.simps bind.bind_lunit of_int_of_nat_eq of_nat_numeral
        of_nat_less_0_iff if_False)
  then show ?thesis using e d(8) by simp
qed

theorem truncate_maps_superblock_witness:
  "\<exists>s s'. sfs_create a_text mounted = Some (0, s) \<and> sfs_truncate a_text 100 s = Some (0, s') \<and> file_blocks s' 3 = [0]"
proof -
  obtain s where s: "sfs_create a_text mounted = Some (0, s)" "fs_ok s" "node_ok Dnode s 2" "file_ok s 3"
    "lookup_in s 2 [97] = int 3" "path_walk s 2 [] (int 2)" "inode_at s 3 = file_node 3 2" "free_list s = blocks_from 1025"
    using a_file by blast
  have "node_ok Fnode s 3" "inode_at s 3 = file_node (of_nat 3) 2" using s(4,7) by (simp_all add: file_ok_def)
  from truncate_maps_superblock[OF s(2) a_path(1-3) s(6,3,5) this, of 100 "zeros 19"] s(1,8) show ?thesis
    unfolding a_text_def by auto
qed

text \<open>
  C35. Creating a file in a directory that has its 2085 entries, the two dots among them, answers -EFBIG, leaves no error
  pending and gives the new inode back. The entries of the directory stay as they are, but its link count is one higher; the
  other inodes in use, all data blocks and the free list are untouched.
\<close>

theorem create_in_full_directory:
  assumes "fs_ok s" "\<forall>d\<in>set cs. component d" "component c" "length (path_text cs c) < PATH_MAX"
    and "path_walk s 2 cs (int i)" "node_ok Dnode s i" "lookup_in s i c = -1" "entries_of s i = 2085" "free_inodes s \<noteq> {}"
    and "14 \<le> length (c @ 0 # r)" "\<forall>e\<in>set (dir_entries s i). \<not> same_name e (c @ 0 # r)"
  shows "\<exists>s'. sfs_create (path_text cs c @ 0 # r) s = Some (-27, s') \<and> fs_ok s' \<and> node_ok Dnode s' i
     \<and> dir_entries s' i = dir_entries s i \<and> md_nlink (inode_at s' i) = md_nlink (inode_at s i) + 1
     \<and> free_inodes s' \<union> nodes_of Dnode s' i = free_inodes s \<union> nodes_of Dnode s i
     \<and> kept (s\<lparr>ERRNO := 0\<rparr>) ({i} \<union> free_inodes s \<union> nodes_of Dnode s i) s'"
proof -
  obtain t where t: "path_to_inum (path_text cs c @ 0 # r) s = Some ((-1, int i), t)" "same_disk s t"
    using path_resolves[OF assms(1-6)] assms(7) by metis
  note d = same_disk_frame[OF t(2)]
  have "0 \<notin> set c" using assms(3) by (simp add: component_def)
  then have rd: "readable 13 (c @ 0 # r)" by (simp add: readable_def)
  have "fs_ok t" "node_ok Dnode t i" "entries_of t i = 2085" "free_inodes t \<noteq> {}" using assms(1,6,8,9) d by simp_all
  moreover have "\<forall>e\<in>set (dir_entries t i). \<not> same_name e (c @ 0 # r)" using assms(11) d by simp
  ultimately obtain s1 s2 s3 s' x where s': "free_inode_pop t = (of_nat x, s1)" "x = Min (free_inodes t)"
    "dnode_append (int i) (new_entry (c @ 0 # r) x) (fnode_init (of_nat x) (of_nat i) s1) = Some s2"
    "ERRNO s2 = - EFBIG" "dnode_remove (int i) (c @ 0 # r) (s2\<lparr>ERRNO := 0\<rparr>) = Some s3" "free_inode_push (of_nat x) s3 = Some s'"
    "fs_ok s'" "node_ok Dnode s' i" "dir_entries s' i = dir_entries t i" "md_nlink (inode_at s' i) = md_nlink (inode_at t i) + 1"
    "free_inodes s' \<union> nodes_of Dnode s' i = free_inodes t \<union> nodes_of Dnode t i"
    "kept (t\<lparr>ERRNO := 0\<rparr>) ({i} \<union> free_inodes t \<union> nodes_of Dnode t i) s'"
    using create_in_full[of t i "c @ 0 # r", OF _ _ _ _ rd _ assms(10) refl] by blast
  have "x < 65536" using free_inodes_range[of t x] \<open>fs_ok t\<close> \<open>free_inodes t \<noteq> {}\<close> s'(2) by (simp add: finite_free_inodes)
  then have u: "uint (of_nat x :: ushort) = int x" by (rule uint_of_nat_ushort)
  have "(- EFBIG) < 0" by (simp add: EFBIG_def)
  then have "sfs_create (path_text cs c @ 0 # r) s = Some (- EFBIG, s')"
    using t(1) s'(1,3-6) u di_ent_c_new[OF assms(10), of x] base_ptr_path[OF assms(2,3), of r]
    by (simp add: sfs_create_def errno_pop_def)
  moreover have "kept (s\<lparr>ERRNO := 0\<rparr>) ({i} \<union> free_inodes s \<union> nodes_of Dnode s i) s'" using s'(12) d by (simp add: kept_def)
  ultimately show ?thesis using s'(7-11) d by (auto simp: EFBIG_def)
qed

text \<open>The root directory filled up with nameless entries.\<close>

lemma zero_entry: "16 * j + 16 \<le> n \<Longrightarrow> d_ent (zeros n) j = \<lparr>de_name = zeros 14, de_inum = 0\<rparr>"
  by (simp add: d_ent_def di_ent_of_def zeros_def mget_def get16_def rd16_def)

lemma node_keys_sum: "node_keys n = Inl ` {..<n} \<union> Inr ` {..<ndouble n}"
proof (rule set_eqI)
  fix x :: "nat + nat"
  show "x \<in> node_keys n \<longleftrightarrow> x \<in> Inl ` {..<n} \<union> Inr ` {..<ndouble n}" by (cases x) auto
qed

lemma card_nodes: "card (f ` node_keys n) \<le> n + ndouble n"
proof -
  note k = node_keys_sum[of n]
  have "card (node_keys n) \<le> card ((Inl :: nat \<Rightarrow> nat + nat) ` {..<n}) + card ((Inr :: nat \<Rightarrow> nat + nat) ` {..<ndouble n})"
    unfolding k by (rule card_Un_le)
  also have "\<dots> \<le> n + ndouble n" by (intro add_mono) (metis card_image_le card_lessThan finite_lessThan)+
  finally show ?thesis using card_image_le[of "node_keys n" f] k by simp
qed

lemma full_root:
  "\<exists>s. fs_ok s \<and> node_ok Dnode s 2 \<and> entries_of s 2 = 2085 \<and> free_inodes s \<noteq> {}
     \<and> dir_entries s 2 = replicate 2085 \<lparr>de_name = zeros 14, de_inum = 0\<rparr>"
proof -
  let ?m = "mounted\<lparr>d_arr := zeros ARR_BYTES\<rparr>"
  have "length (d_arr mounted) = ARR_BYTES" using mounted(1) by (simp add: fs_ok_def)
  then have m: "fs_ok ?m" "node_ok Dnode ?m 2" using mounted(1) node_ok_root(1) by simp_all
  have c: "clamp_size Dnode 2085 = 2085" by (simp add: clamp_size_def)
  from listing_set_ok[OF m, of 2085] obtain s where s: "resized Dnode ?m 2 2085 s"
    by (auto simp: c node_ok_root(2) mounted(3) npages_def need_def ndouble_def)
  have "dir_entries s 2 = map (d_ent (zeros ARR_BYTES)) [0..<2085]" using resized_entries[OF s] by simp
  also have "\<dots> = replicate 2085 \<lparr>de_name = zeros 14, de_inum = 0\<rparr>" by (rule nth_equalityI) (simp_all add: zero_entry)
  finally have d: "dir_entries s 2 = replicate 2085 \<lparr>de_name = zeros 14, de_inum = 0\<rparr>" .
  have "free_inodes s \<noteq> {}"
  proof
    assume e: "free_inodes s = {}"
    have "\<not> leaks (npages Dnode 2085) 0" by (simp add: leaks_def)
    then have "nodes_of Dnode s 2 = {3..<1024}" using s e by (simp add: resized_def node_ok_root(2,3) mounted(3))
    moreover have "card (nodes_of Dnode s 2) \<le> pages_of Dnode s 2 + ndouble (pages_of Dnode s 2)"
      unfolding nodes_of_def by (rule card_nodes)
    moreover have "pages_of Dnode s 2 = 260" using s by (simp add: resized_def pages_of_def npages_def)
    ultimately show False by (simp add: ndouble_def)
  qed
  then show ?thesis using s d by (auto simp: resized_def)
qed

theorem create_in_full_directory_witness:
  "\<exists>s s'. entries_of s 2 = 2085 \<and> sfs_create a_text s = Some (-27, s') \<and> dir_entries s' 2 = dir_entries s 2
     \<and> md_nlink (inode_at s' 2) = md_nlink (inode_at s 2) + 1"
proof -
  obtain s where s: "fs_ok s" "node_ok Dnode s 2" "entries_of s 2 = 2085" "free_inodes s \<noteq> {}"
    "dir_entries s 2 = replicate 2085 \<lparr>de_name = zeros 14, de_inum = 0\<rparr>" using full_root by blast
  let ?e = "\<lparr>de_name = zeros 14, de_inum = 0\<rparr>"
  have e: "\<not> name_match [97] ?e" "\<not> same_name ?e ([97] @ 0 # zeros 19)"
    by (simp_all add: name_match_def same_name_def cstr_Cons zeros_def)
  have "List.find (name_match [97]) (replicate n ?e) = None" for n using e(1) by (simp add: find_None_iff)
  then have l: "lookup_in s 2 [97] = -1" by (simp add: lookup_in_def dot_def dir_lookup_def s(5))
  have w: "path_walk s 2 [] (int 2)" using walk_here[of s 2] by simp
  have "\<forall>x\<in>set (dir_entries s 2). \<not> same_name x ([97] @ 0 # zeros 19)" using e(2) by (simp add: s(5))
  moreover have "14 \<le> length ([97] @ 0 # zeros 19)" by simp
  ultimately show ?thesis using create_in_full_directory[OF s(1) a_path(1-3) w s(2) l s(3,4)] s(3) unfolding a_text_def by blast
qed

text \<open>
  C40. Once closed, the device cannot be used again: disk_open sees the old descriptor number, opens nothing and
  reports success, and every later read yields zeros with an error and every write fails.
\<close>

theorem reopen_fails:
  assumes "disk_ok s"
  shows "\<exists>t. disk_open fd len pages (disk_close s) = Inr t
     \<and> (\<forall>n x. block_read n x t = (-1, zeros 512)) \<and> (\<forall>n x. block_write n x t = (-1, t))"
proof -
  have "0 \<le> diskfile s" using assms by (simp add: ok_defs)
  then have "disk_open fd len pages (disk_close s) = Inr (disk_close s)" "\<not> fd_open (disk_close s)"
    by (simp_all add: disk_open_closed) (simp add: disk_close_def)
  then show ?thesis by (simp add: closed_read block_write_def pwrite_def)
qed

theorem reopen_fails_witness:
  "\<exists>t. disk_open 4 0 (\<lambda>_. zeros 512) (sfs_destroy mounted) = Inr t \<and> block_read 1024 (zeros 512) t = (-1, zeros 512)"
  using reopen_fails[OF fs_ok_disk[OF mounted(1)]] unfolding sfs_destroy_def by blast

text \<open>
  C22. Mounting: sfs_init on a device that is not open yet opens the disk file and formats it, whatever it holds: a well-formed
  file system with an empty root directory, the inodes 3 to 1023 free and the blocks 1025 to 32767 free in order.
\<close>

theorem sfs_init_formats:
  assumes "diskfile s < 0" "0 \<le> fd" "\<forall>n. length (pages n) = 512" "length (d_arr s) = ARR_BYTES" "length (f_arr s) = ARR_BYTES"
  shows "\<exists>s'. sfs_init fd len pages s = Inr s' \<and> fs_ok s' \<and> free_list s' = blocks_from 1025 \<and> free_inodes s' = {3..<1024}
     \<and> node_ok Dnode s' 2 \<and> dir_entries s' 2 = [\<lparr>de_name = dot_name, de_inum = 2\<rparr>, \<lparr>de_name = dotdot_name, de_inum = 2\<rparr>]"
proof -
  let ?o = "s\<lparr>diskfile := fd, fd_open := True, file_len := len, file_blk := pages\<rparr>"
  have o: "host_ok ?o" "arrays_ok ?o" using assms by (simp_all add: host_ok_def arrays_ok_def)
  define m where "m = inode_init (free_block_init ?o)"
  have m: "fs_ok m" "free_list m = blocks_from 1025" "free_inodes m = {3..<1024}" "inode_at m 2 = dir_node 2 2"
    using mount_aux[OF o] unfolding m_def by simp_all
  have "node_ok Dnode m 2" "dir_entries m 2 = [\<lparr>de_name = dot_name, de_inum = 2\<rparr>, \<lparr>de_name = dotdot_name, de_inum = 2\<rparr>]"
    using root_like[OF m(3,4)] by blast+
  then show ?thesis using m(1-3) assms(1,2) by (simp add: sfs_init_def disk_open_def m_def)
qed

theorem sfs_init_formats_witness:
  "\<exists>s'. sfs_init 3 100 (\<lambda>n. replicate 512 255) (blank_fs\<lparr>diskfile := -1, fd_open := False\<rparr>) = Inr s'
     \<and> free_list s' = blocks_from 1025"
proof -
  have "\<exists>s'. sfs_init 3 100 (\<lambda>n. replicate 512 255) (blank_fs\<lparr>diskfile := -1, fd_open := False\<rparr>) = Inr s'
     \<and> fs_ok s' \<and> free_list s' = blocks_from 1025 \<and> free_inodes s' = {3..<1024}
     \<and> node_ok Dnode s' 2 \<and> dir_entries s' 2 = [\<lparr>de_name = dot_name, de_inum = 2\<rparr>, \<lparr>de_name = dotdot_name, de_inum = 2\<rparr>]"
    by (rule sfs_init_formats) (simp_all add: blank_fs_def)
  then show ?thesis by blast
qed

end
