(* ===== verification/FS_Tree.thy ===== *)
theory FS_Tree
  imports FS_Requests
begin

text \<open>
  The file system as a whole. \<open>tree K s\<close> is the invariant over all nodes, \<open>K\<close> giving the kind of each inode
  in use: the nodes are well-formed, no two of them share an inode or a data block, and every entry leads to
  one of them. The abstraction \<open>abs_fs\<close> maps a state to its directories (lists of entries) and files
  (byte strings); the requests refine operations on that.
\<close>

section \<open>The abstract file system\<close>

type_synonym kinds = "nat \<Rightarrow> nkind option"

definition name_of :: "di_ent \<Rightarrow> byte list" where
  "name_of e = cstr (de_name e)"

text \<open>Directories are association lists of names and inode numbers, files are byte strings.\<close>

datatype anode = ADir "(byte list \<times> nat) list" | AFile "byte list"

type_synonym afs = "nat \<Rightarrow> anode option"

definition abs_entries :: "fs \<Rightarrow> nat \<Rightarrow> (byte list \<times> nat) list" where
  "abs_entries s d = map (\<lambda>e. (name_of e, unat (de_inum e))) (dir_entries s d)"

definition abs_fs :: "kinds \<Rightarrow> fs \<Rightarrow> afs" where
  "abs_fs K s x = (case K x of None \<Rightarrow> None | Some Dnode \<Rightarrow> Some (ADir (abs_entries s x)) | Some Fnode \<Rightarrow> Some (AFile (content s x)))"

lemma abs_dir: "abs_fs K s x = Some (ADir es) \<longleftrightarrow> K x = Some Dnode \<and> es = abs_entries s x"
  by (auto simp: abs_fs_def split: option.splits nkind.splits)

lemma abs_file: "abs_fs K s x = Some (AFile c) \<longleftrightarrow> K x = Some Fnode \<and> c = content s x"
  by (auto simp: abs_fs_def split: option.splits nkind.splits)

text \<open>
  Entry \<open>j\<close> of directory \<open>d\<close> leads to \<open>x\<close>. In a sound abstract file system it leads to a node, and a file has one
  entry only.
\<close>

definition aref :: "afs \<Rightarrow> nat \<Rightarrow> nat \<Rightarrow> nat \<Rightarrow> bool" where
  "aref A d j x \<longleftrightarrow> (\<exists>es. A d = Some (ADir es) \<and> j < length es \<and> snd (es ! j) = x)"

definition links_ok :: "afs \<Rightarrow> bool" where
  "links_ok A \<longleftrightarrow> (\<forall>d j x. aref A d j x \<longrightarrow> x \<in> dom A)
     \<and> (\<forall>x c d j e l. A x = Some (AFile c) \<and> aref A d j x \<and> aref A e l x \<longrightarrow> d = e \<and> j = l)"

lemma linksD:
  assumes "links_ok A"
  shows "aref A d j x \<Longrightarrow> x \<in> dom A" "A x = Some (AFile c) \<Longrightarrow> aref A d j x \<Longrightarrow> aref A e l x \<Longrightarrow> d = e \<and> j = l"
  using assms unfolding links_ok_def by blast+

text \<open>Adding an entry for a new node, changing a file, removing the entry of a file.\<close>

lemma aref_add:
  assumes "A p = Some (ADir es)" "aref (A(p \<mapsto> ADir (es @ [(c, x)]), x \<mapsto> n)) d j y" "x \<noteq> p"
  shows "d \<noteq> x \<and> aref A d j y \<or> d = p \<and> j = length es \<and> y = x \<or> d = x \<and> (\<exists>fs. n = ADir fs \<and> y \<in> snd ` set fs)"
  using assms by (auto simp: aref_def nth_append less_Suc_eq split: if_splits)

lemma links_add:
  assumes A: "links_ok A" "A p = Some (ADir es)" "A x = None" and n: "\<And>fs. n = ADir fs \<Longrightarrow> snd ` set fs \<subseteq> {x, p}"
  shows "links_ok (A(p \<mapsto> ADir (es @ [(c, x)]), x \<mapsto> n))"
proof -
  let ?A = "A(p \<mapsto> ADir (es @ [(c, x)]), x \<mapsto> n)"
  have xp: "x \<noteq> p" using A by auto
  have add: "d \<noteq> x \<and> aref A d j y \<or> d = p \<and> j = length es \<and> y = x \<or> d = x \<and> (\<exists>fs. n = ADir fs \<and> y \<in> snd ` set fs)"
    if "aref ?A d j y" for d j y by (rule aref_add[OF A(2) that xp])
  have old: "y \<in> dom A" "y \<noteq> x" if "aref A d j y" for d j y using linksD(1)[OF A(1) that] A(3) by (auto simp: domIff)
  have "y \<in> dom ?A" if "aref ?A d j y" for d j y using add[OF that] old(1)[of d j y] n by auto
  moreover have "d = e \<and> j = l" if f: "?A y = Some (AFile b)" "aref ?A d j y" "aref ?A e l y" for y b d j e l
  proof (cases "y = x")
    case True
    then have "n = AFile b" using f(1) by simp
    then show ?thesis using add[OF f(2)] add[OF f(3)] old(2)[of d j y] old(2)[of e l y] True by auto
  next
    case False
    then have y: "y \<noteq> p" "A y = Some (AFile b)" using f(1) by (auto split: if_splits)
    then show ?thesis using add[OF f(2)] add[OF f(3)] n False linksD(2)[OF A(1) y(2)] by blast
  qed
  ultimately show ?thesis unfolding links_ok_def by blast
qed

lemma links_write:
  assumes "links_ok A" "A x = Some (AFile c)"
  shows "links_ok (A(x \<mapsto> AFile c'))"
proof -
  have a: "aref (A(x \<mapsto> AFile c')) d j y \<longleftrightarrow> aref A d j y" for d j y using assms(2) by (auto simp: aref_def)
  have "y \<in> dom A \<Longrightarrow> y \<in> dom (A(x \<mapsto> AFile c'))" for y by simp
  moreover have "\<exists>b. A y = Some (AFile b)" if "(A(x \<mapsto> AFile c')) y = Some (AFile b)" for y b
    using that assms(2) by (auto split: if_splits)
  ultimately show ?thesis unfolding links_ok_def a using linksD[OF assms(1)] by metis
qed

lemma links_remove:
  assumes A: "links_ok A" "A p = Some (ADir es)" and xp: "x \<noteq> p" and m: "m < length es" "snd (es ! m) = x"
    and only: "\<And>d j. aref A d j x \<Longrightarrow> d = x \<or> d = p \<and> j = m"
  shows "links_ok (A(p \<mapsto> ADir (butlast (es[m := last es])), x := None))"
proof -
  let ?A = "A(p \<mapsto> ADir (butlast (es[m := last es])), x := None)"
  define h where "h d j = (if d = p \<and> j = m then length es - 1 else j)" for d j :: nat
  have la: "last es = es ! (length es - 1)" using m(1) by (intro last_conv_nth) auto
  have past: "d \<noteq> x \<and> aref A d (h d j) y \<and> y \<noteq> x \<and> (d = p \<longrightarrow> j < length es - 1)" if a: "aref ?A d j y" for d j y
  proof -
    have d: "d \<noteq> x" using a by (auto simp: aref_def)
    have h: "aref A d (h d j) y" and i: "d = p \<longrightarrow> j < length es - 1"
      using a m A(2) d by (auto simp: aref_def h_def nth_butlast nth_list_update la split: if_splits)
    have "y \<noteq> x"
    proof
      assume "y = x"
      then have "d = p \<and> h d j = m" using only[of d "h d j"] h d by blast
      then show False using i m(1) by (auto simp: h_def split: if_splits)
    qed
    then show ?thesis using d h i by blast
  qed
  have "y \<in> dom ?A" if "aref ?A d j y" for d j y using linksD(1)[OF A(1)] past[OF that] by (auto simp: domIff)
  moreover have "d = e \<and> j = l" if f: "?A y = Some (AFile b)" "aref ?A d j y" "aref ?A e l y" for y b d j e l
  proof -
    have "A y = Some (AFile b)" using f(1) by (auto split: if_splits)
    then have "d = e \<and> h d j = h e l" using linksD(2)[OF A(1)] past[OF f(2)] past[OF f(3)] by blast
    then show ?thesis using past[OF f(2)] past[OF f(3)] by (auto simp: h_def split: if_splits)
  qed
  ultimately show ?thesis unfolding links_ok_def by blast
qed

section \<open>The invariant\<close>

definition foot :: "kinds \<Rightarrow> fs \<Rightarrow> nat \<Rightarrow> nat set" where
  "foot K s x = insert x (nodes_of (the (K x)) s x)"

definition blocks_of :: "kinds \<Rightarrow> fs \<Rightarrow> nat \<Rightarrow> blknum_t set" where
  "blocks_of K s x = (if K x = Some Fnode then set (file_blocks s x) else {})"

definition dir_good :: "fs \<Rightarrow> nat \<Rightarrow> bool" where
  "dir_good s d \<longleftrightarrow> distinct (map name_of (dir_entries s d)) \<and> (\<forall>e\<in>set (dir_entries s d). length (name_of e) \<le> 13)"

definition node_good :: "kinds \<Rightarrow> fs \<Rightarrow> nat \<Rightarrow> bool" where
  "node_good K s x \<longleftrightarrow> (\<forall>k. K x = Some k \<longrightarrow> node_ok k s x \<and> (k = Fnode \<longrightarrow> file_ok s x) \<and> (k = Dnode \<longrightarrow> dir_good s x))"

text \<open>Every data block is free or in a file.\<close>

definition blocks_kept :: "kinds \<Rightarrow> fs \<Rightarrow> bool" where
  "blocks_kept K s \<longleftrightarrow> (\<forall>w. data_block w \<longrightarrow> uint w \<in> set (free_list s) \<or> (\<exists>x. w \<in> blocks_of K s x))"

definition tree :: "kinds \<Rightarrow> fs \<Rightarrow> bool" where
  "tree K s \<longleftrightarrow> fs_ok s \<and> ERRNO s = 0 \<and> K 2 = Some Dnode \<and> (\<forall>x. node_good K s x)
     \<and> (\<forall>x\<in>dom K. \<forall>y\<in>dom K. x \<noteq> y \<longrightarrow> foot K s x \<inter> foot K s y = {} \<and> blocks_of K s x \<inter> blocks_of K s y = {}) \<and> links_ok (abs_fs K s)
     \<and> blocks_kept K s"

lemma treeD:
  assumes "tree K s"
  shows "fs_ok s" "ERRNO s = 0" "K 2 = Some Dnode" "K x = Some k \<Longrightarrow> node_ok k s x" "K x = Some Fnode \<Longrightarrow> file_ok s x"
    "K x = Some Dnode \<Longrightarrow> dir_good s x"
    "x \<in> dom K \<Longrightarrow> y \<in> dom K \<Longrightarrow> x \<noteq> y \<Longrightarrow> foot K s x \<inter> foot K s y = {}"
    "x \<in> dom K \<Longrightarrow> y \<in> dom K \<Longrightarrow> x \<noteq> y \<Longrightarrow> blocks_of K s x \<inter> blocks_of K s y = {}"
    "links_ok (abs_fs K s)" "blocks_kept K s"
  using assms unfolding tree_def node_good_def by blast+

lemma foot_self [simp]: "x \<in> foot K s x"
  by (simp add: foot_def)

lemma foot_used: "tree K s \<Longrightarrow> x \<in> dom K \<Longrightarrow> foot K s x \<inter> ({0} \<union> free_inodes s) = {}"
proof -
  assume t: "tree K s" and x: "x \<in> dom K"
  from x obtain k where k: "K x = Some k" by blast
  have "node_ok k s x" by (rule treeD(4)[OF t k])
  then show ?thesis using k by (auto simp: foot_def node_ok_def nodes_of_def)
qed

lemma blocks_used:
  assumes "tree K s" "w \<in> blocks_of K s x"
  shows "data_block w" "uint w \<notin> set (free_list s)"
  using assms treeD(5)[of K s x] by (auto simp: blocks_of_def file_ok_def split: if_splits)

text \<open>A free inode is not in use.\<close>

lemma free_not_in: "tree K s \<Longrightarrow> x \<in> free_inodes s \<Longrightarrow> K x = None"
proof (rule ccontr)
  assume t: "tree K s" and x: "x \<in> free_inodes s" and n: "K x \<noteq> None"
  have "foot K s x \<inter> ({0} \<union> free_inodes s) = {}" using n by (intro foot_used[OF t]) (simp add: domIff)
  then show False using foot_self[of x K s] x by blast
qed

section \<open>A step that touches some nodes\<close>

text \<open>Outside the nodes \<open>C\<close>, the free inodes and the free blocks, nothing changes.\<close>

definition touches :: "kinds \<Rightarrow> nat set \<Rightarrow> fs \<Rightarrow> fs \<Rightarrow> bool" where
  "touches K C s s' \<longleftrightarrow>
     (\<forall>m<4096. m \<notin> {0} \<union> free_inodes s \<union> \<Union>(foot K s ` C) \<longrightarrow> inode_at s' m = inode_at s m)
     \<and> free_inodes s' \<subseteq> free_inodes s \<union> \<Union>(foot K s ` C)
     \<and> (\<forall>w. data_block w \<and> uint w \<notin> set (free_list s) \<and> w \<notin> \<Union>(blocks_of K s ` C) \<longrightarrow>
          file_blk s' (unat w) = file_blk s (unat w) \<and> uint w \<notin> set (free_list s'))"

lemma touched_other:
  assumes t: "tree K s" and c: "touches K C s s'" "C \<subseteq> dom K" and y: "y \<in> dom K" "y \<notin> C"
  shows "node_good K s' y" "foot K s' y = foot K s y" "blocks_of K s' y = blocks_of K s y" "entries_of s' y = entries_of s y"
    "K y = Some Dnode \<Longrightarrow> dir_entries s' y = dir_entries s y" "K y = Some Fnode \<Longrightarrow> content s' y = content s y"
proof -
  let ?G = "{0} \<union> free_inodes s \<union> \<Union>(foot K s ` C)"
  obtain l where l: "K y = Some l" using y(1) by blast
  have n: "node_ok l s y" by (rule treeD(4)[OF t l])
  have "foot K s y \<inter> foot K s x = {}" if "x \<in> C" for x using treeD(7)[OF t y(1)] that c(2) y(2) by blast
  then have "foot K s y \<inter> ?G = {}" using foot_used[OF t y(1)] by blast
  then have "({y} \<union> nodes_of l s y) \<inter> ?G = {}" using l by (simp add: foot_def)
  moreover have "\<forall>m<4096. m \<notin> ?G \<longrightarrow> inode_at s' m = inode_at s m" "free_inodes s' \<subseteq> ?G" using c(1) unfolding touches_def by blast+
  ultimately have u: "node_ok l s' y" "inode_at s' y = inode_at s y" "nodes_of l s' y = nodes_of l s y"
    "node_bytes s' (inode_at s y) (pages_of l s y) = node_bytes s (inode_at s y) (pages_of l s y)"
    using same_node[of ?G s' s l y] n by blast+
  show f: "foot K s' y = foot K s y" using u(3) l by (simp add: foot_def)
  show e: "entries_of s' y = entries_of s y" using u(2) by (simp add: entries_of_def)
  have de: "dir_entries s' y = dir_entries s y" if "K y = Some Dnode"
    using u(2,4) e that l by (simp add: dir_entries_def pages_of_def)
  then show "K y = Some Dnode \<Longrightarrow> dir_entries s' y = dir_entries s y" .
  have fl: "file_ok s' y \<and> content s' y = content s y \<and> file_blocks s' y = file_blocks s y" if k: "K y = Some Fnode"
  proof -
    have lk: "l = Fnode" using k l by simp
    have "file_blk s' (unat w) = file_blk s (unat w) \<and> uint w \<notin> set (free_list s')" if w: "w \<in> set (file_blocks s y)" for w
    proof -
      have wb: "w \<in> blocks_of K s y" using w k by (simp add: blocks_of_def)
      then have "w \<notin> blocks_of K s x" if "x \<in> C" for x using treeD(8)[OF t y(1)] that c(2) y(2) by blast
      then show ?thesis using c(1) blocks_used[OF t wb] unfolding touches_def by blast
    qed
    then show ?thesis using same_file[OF treeD(1)[OF t] treeD(5)[OF t k] u(1)[unfolded lk] u(2) u(4)[unfolded lk]] by blast
  qed
  then show "content s' y = content s y" if "K y = Some Fnode" using that by blast
  show "blocks_of K s' y = blocks_of K s y" using fl by (simp add: blocks_of_def)
  show "node_good K s' y" using u(1) l fl de treeD(6)[OF t, of y] by (simp add: node_good_def dir_good_def)
qed

text \<open>No data block is lost in a step that leaves the blocks it touches free or in a file.\<close>

lemma blocks_step:
  assumes t: "tree K s" and c: "touches K C s s'" "C \<subseteq> dom K" "\<And>y. y \<notin> C \<union> N \<Longrightarrow> K' y = K y" "N \<subseteq> free_inodes s"
    and o: "\<And>w. uint w \<in> set (free_list s) \<or> w \<in> \<Union>(blocks_of K s ` C) \<Longrightarrow>
      uint w \<in> set (free_list s') \<or> w \<in> \<Union>(blocks_of K' s' ` C)"
  shows "blocks_kept K' s'"
  unfolding blocks_kept_def
proof (intro allI impI)
  fix w :: blknum_t assume "data_block w"
  then consider "uint w \<in> set (free_list s) \<or> w \<in> \<Union>(blocks_of K s ` C)" | x where "w \<in> blocks_of K s x" "x \<notin> C"
    using treeD(10)[OF t] unfolding blocks_kept_def by blast
  then show "uint w \<in> set (free_list s') \<or> (\<exists>x. w \<in> blocks_of K' s' x)"
  proof cases
    case 1
    from o[OF this] show ?thesis by blast
  next
    case (2 x)
    have x: "x \<in> dom K" using 2(1) by (auto simp: blocks_of_def split: if_splits)
    then have "x \<notin> C \<union> N" using 2(2) c(4) free_not_in[OF t] by (auto simp: domIff)
    then have "K' x = K x" "blocks_of K s' x = blocks_of K s x" using c(3) touched_other(3)[OF t c(1,2) x 2(2)] by auto
    then have "w \<in> blocks_of K' s' x" using 2(1) by (simp add: blocks_of_def)
    then show ?thesis by blast
  qed
qed

text \<open>The invariant after a step: what is new comes out of what was free or touched.\<close>

lemma tree_step:
  assumes t: "tree K s" and c: "touches K C s s'" "C \<subseteq> dom K" "N \<subseteq> free_inodes s" and s': "fs_ok s'" "ERRNO s' = 0"
    and K': "\<And>y. y \<notin> C \<union> N \<Longrightarrow> K' y = K y" "K' 2 = Some Dnode"
    and x: "\<And>x. x \<in> C \<union> N \<Longrightarrow> node_good K' s' x"
      "\<And>x. x \<in> C \<union> N \<Longrightarrow> x \<in> dom K' \<Longrightarrow> foot K' s' x \<subseteq> free_inodes s \<union> \<Union>(foot K s ` C)"
      "\<And>x w. x \<in> C \<union> N \<Longrightarrow> w \<in> blocks_of K' s' x \<Longrightarrow> uint w \<in> set (free_list s) \<or> w \<in> \<Union>(blocks_of K s ` C)"
    and d: "\<And>x y. x \<in> C \<union> N \<Longrightarrow> y \<in> C \<union> N \<Longrightarrow> x \<in> dom K' \<Longrightarrow> y \<in> dom K' \<Longrightarrow> x \<noteq> y \<Longrightarrow>
      foot K' s' x \<inter> foot K' s' y = {} \<and> blocks_of K' s' x \<inter> blocks_of K' s' y = {}"
    and r: "links_ok (abs_fs K' s')"
    and o: "\<And>w. uint w \<in> set (free_list s) \<or> w \<in> \<Union>(blocks_of K s ` C) \<Longrightarrow>
      uint w \<in> set (free_list s') \<or> w \<in> \<Union>(blocks_of K' s' ` C)"
  shows "tree K' s'"
proof -
  let ?G = "free_inodes s \<union> \<Union>(foot K s ` C)"
  have old: "y \<in> dom K" "y \<notin> C" if "y \<in> dom K'" "y \<notin> C \<union> N" for y using that K'(1)[of y] by (simp_all add: domIff)
  have same: "node_good K' s' y" "foot K' s' y = foot K s y" "blocks_of K' s' y = blocks_of K s y"
    if y: "y \<in> dom K'" "y \<notin> C \<union> N" for y
    using touched_other[OF t c(1,2) old[OF y]] K'(1)[OF y(2)] by (simp_all add: node_good_def foot_def blocks_of_def)
  have apart: "foot K s y \<inter> ?G = {}" if "y \<in> dom K" "y \<notin> C" for y
    using foot_used[OF t that(1)] treeD(7)[OF t that(1)] that c(2) by blast
  have bapart: "uint w \<notin> set (free_list s)" "w \<notin> \<Union>(blocks_of K s ` C)" if "y \<in> dom K" "y \<notin> C" "w \<in> blocks_of K s y" for y w
    using blocks_used(2)[OF t that(3)] treeD(8)[OF t that(1)] that c(2) by blast+
  have "node_good K' s' y" for y
    using x(1)[of y] same(1)[of y] by (cases "y \<in> C \<union> N"; cases "y \<in> dom K'") (auto simp: node_good_def)
  moreover have "foot K' s' y \<inter> foot K' s' z = {} \<and> blocks_of K' s' y \<inter> blocks_of K' s' z = {}"
    if yz: "y \<in> dom K'" "z \<in> dom K'" "y \<noteq> z" for y z
  proof -
    have mixed: "foot K' s' a \<inter> foot K' s' b = {} \<and> blocks_of K' s' a \<inter> blocks_of K' s' b = {}"
      if ab: "a \<in> C \<union> N" "b \<notin> C \<union> N" "a \<in> dom K'" "b \<in> dom K'" for a b
      using x(2)[OF ab(1,3)] x(3)[OF ab(1)] same(2,3)[OF ab(4,2)] apart[OF old[OF ab(4,2)]] bapart[OF old[OF ab(4,2)]] by blast
    show ?thesis
    proof (cases "y \<in> C \<union> N")
      case True
      then show ?thesis using d[OF True _ yz] mixed[OF True _ yz(1,2)] by blast
    next
      case False
      show ?thesis
      proof (cases "z \<in> C \<union> N")
        case True
        then show ?thesis using mixed[OF True False yz(2,1)] by blast
      next
        case z: False
        show ?thesis using same(2,3)[OF yz(1) False] same(2,3)[OF yz(2) z]
          treeD(7,8)[OF t old(1)[OF yz(1) False] old(1)[OF yz(2) z] yz(3)] by simp
      qed
    qed
  qed
  moreover have "blocks_kept K' s'" by (rule blocks_step[OF t c(1,2) K'(1) c(3) o])
  ultimately show ?thesis using s' K'(2) r unfolding tree_def by blast
qed

section \<open>Paths\<close>

text \<open>One name in one directory (a dot is the directory itself), and the components of a path.\<close>

definition alook :: "nat \<Rightarrow> (byte list \<times> nat) list \<Rightarrow> byte list \<Rightarrow> nat option" where
  "alook i es c = (if c = dot then Some i else map_of es c)"

primrec resolve :: "afs \<Rightarrow> nat \<Rightarrow> byte list list \<Rightarrow> nat option" where
  "resolve A i [] = Some i"
| "resolve A i (c # cs) =
     (case A i of Some (ADir es) \<Rightarrow> (case alook i es c of Some j \<Rightarrow> resolve A j cs | None \<Rightarrow> None) | _ \<Rightarrow> None)"

lemma dir_lookup_map_of:
  "\<forall>e\<in>set es. length (name_of e) \<le> 13 \<Longrightarrow> dir_lookup es c
     = (case map_of (map (\<lambda>e. (name_of e, unat (de_inum e))) es) c of None \<Rightarrow> -1 | Some x \<Rightarrow> int x)"
proof (induction es)
  case (Cons e es)
  have "name_match c e \<longleftrightarrow> c = name_of e"
  proof -
    have l: "length (name_of e) \<le> 13" using Cons.prems by simp
    have "c = name_of e" if m: "take 14 c = name_of e"
    proof -
      have "length (take 14 c) \<le> 13" using l m by simp
      then have "length c \<le> 13" by (simp add: min_def split: if_splits)
      then show ?thesis using m by simp
    qed
    moreover have "take 14 (name_of e) = name_of e" using l by simp
    ultimately show ?thesis by (auto simp: name_match_def name_of_def)
  qed
  then show ?case using Cons by (simp add: dir_lookup_Cons)
qed (simp add: dir_lookup_def)

lemma lookup_abs:
  assumes "dir_good s i"
  shows "lookup_in s i c = (case alook i (abs_entries s i) c of None \<Rightarrow> -1 | Some x \<Rightarrow> int x)"
  using dir_lookup_map_of[of "dir_entries s i" c] assms by (auto simp: lookup_in_def alook_def abs_entries_def dir_good_def)

lemma resolve_walk:
  assumes t: "tree K s"
  shows "resolve (abs_fs K s) i cs = Some j \<Longrightarrow> path_walk s (int i) cs (int j)"
proof (induction cs arbitrary: i)
  case Nil
  then show ?case using walk_here[of s "int i"] by simp
next
  case (Cons c cs)
  then obtain k where k: "K i = Some Dnode" "alook i (abs_entries s i) c = Some k" "resolve (abs_fs K s) k cs = Some j"
    by (auto simp: abs_dir split: option.splits anode.splits)
  have "path_walk s (lookup_in s i c) cs (int j)" using Cons.IH[OF k(3)] k(2) lookup_abs[OF treeD(6)[OF t k(1)]] by simp
  then show ?case by (rule walk_down[OF treeD(4)[OF t k(1)]])
qed

text \<open>Outside the touched nodes the abstraction is the same.\<close>

lemma abs_other:
  assumes "tree K s" "touches K C s s'" "C \<subseteq> dom K" "\<And>y. y \<notin> C \<union> N \<Longrightarrow> K' y = K y" "y \<notin> C \<union> N"
  shows "abs_fs K' s' y = abs_fs K s y"
proof (cases "y \<in> dom K")
  case True
  have "y \<notin> C" using assms(5) by blast
  from touched_other(5,6)[OF assms(1-3) True this] show ?thesis
    using assms(4)[OF assms(5)] by (auto simp: abs_fs_def abs_entries_def split: option.splits nkind.splits)
next
  case False
  then show ?thesis using assms(4)[OF assms(5)] by (simp add: abs_fs_def domIff)
qed

end
