(* ===== verification/FS_Rmdir.thy ===== *)
theory FS_Rmdir
  imports FS_Requests
begin

text \<open>
  Removing directories: \<open>sfs_rmdir\<close> empties the listing of the directory, whatever it holds, and removes its
  entry. The inode itself is never given back to the bitmap.
\<close>

definition dir_removed :: "fs \<Rightarrow> nat \<Rightarrow> nat \<Rightarrow> nat \<Rightarrow> fs \<Rightarrow> bool" where
  "dir_removed s p x m s' \<longleftrightarrow> fs_ok s' \<and> node_ok Dnode s' p
     \<and> dir_entries s' p = butlast ((dir_entries s p)[m := last (dir_entries s p)])
     \<and> node_ok Dnode s' x \<and> dir_entries s' x = []
     \<and> free_inodes s \<union> nodes_of Dnode s x \<subseteq> free_inodes s'
     \<and> free_inodes s' \<union> nodes_of Dnode s' p \<subseteq> free_inodes s \<union> nodes_of Dnode s x \<union> nodes_of Dnode s p
     \<and> kept s ({x, p} \<union> free_inodes s \<union> nodes_of Dnode s x \<union> nodes_of Dnode s p) s'"

text \<open>Emptying a directory frees its pages.\<close>

lemma empty_dir:
  assumes s: "fs_ok s" "node_ok Dnode s x"
  shows "\<exists>v. dnode_listing_set (of_nat x) 0 s = Some v \<and> fs_ok v \<and> node_ok Dnode v x \<and> entries_of v x = 0
     \<and> free_inodes v = free_inodes s \<union> nodes_of Dnode s x \<and> kept s ({x} \<union> free_inodes s \<union> nodes_of Dnode s x) v"
proof -
  have c: "clamp_size Dnode 0 = 0" "need 0 (pages_of Dnode s x) 0 0 = 0"
    by (simp_all add: clamp_size_def need_shrink)
  from listing_set_ok[OF s, of 0] obtain v where v: "dnode_listing_set (of_nat x) 0 s = Some v" "resized Dnode s x 0 v"
    "unchanged s ({x} \<union> free_inodes s \<union> nodes_of Dnode s x) v" by (auto simp: c)
  have n: "nodes_of Dnode v x = {}" "fs_ok v" "node_ok Dnode v x" "entries_of v x = 0"
    using v(2) by (simp_all add: resized_def nodes_of_def pages_of_def)
  then have "free_inodes v = free_inodes s \<union> nodes_of Dnode s x" using v(2) by (simp add: resized_def)
  then show ?thesis using v n by (auto simp: unchanged_def)
qed

lemma remove_dir:
  assumes s: "fs_ok s" "node_ok Dnode s x" and p: "node_ok Dnode s p" "({p} \<union> nodes_of Dnode s p) \<inter> ({x} \<union> nodes_of Dnode s x) = {}"
    and f: "readable 13 f" "m < entries_of s p" "\<forall>j<entries_of s p. same_name (dir_entries s p ! j) f \<longleftrightarrow> j = m"
  shows "\<exists>v s'. dnode_listing_set (of_nat x) 0 s = Some v \<and> dnode_remove (int p) f v = Some s' \<and> dir_removed s p x m s'"
proof -
  let ?G = "{x} \<union> free_inodes s \<union> nodes_of Dnode s x"
  from empty_dir[OF s] obtain v where v: "dnode_listing_set (of_nat x) 0 s = Some v" "fs_ok v" "node_ok Dnode v x" "entries_of v x = 0"
    "free_inodes v = free_inodes s \<union> nodes_of Dnode s x" "kept s ?G v" by blast
  have "({p} \<union> nodes_of Dnode s p) \<inter> ?G = {}" using p by (auto simp: node_ok_def)
  moreover have "free_inodes v \<subseteq> ?G" using v(5) by blast
  ultimately have n: "node_ok Dnode v p" "inode_at v p = inode_at s p" "nodes_of Dnode v p = nodes_of Dnode s p"
    "node_bytes v (inode_at s p) (pages_of Dnode s p) = node_bytes s (inode_at s p) (pages_of Dnode s p)"
    using same_node[OF kept_inodes[OF v(6)] p(1)] by blast+
  have e: "entries_of v p = entries_of s p" "dir_entries v p = dir_entries s p"
    using n(2,4) by (simp_all add: entries_of_def pages_of_def dir_entries_def)
  from dnode_remove_ok[OF v(2) n(1) f(1), of m] f(2,3) obtain s' where s': "dnode_remove (int p) f v = Some s'" "removed v p m s'"
    by (auto simp: e)
  let ?H = "{p} \<union> free_inodes v \<union> nodes_of Dnode v p"
  have k: "kept v ?H s'" using s'(2) by (simp add: removed_def)
  have f': "free_inodes s' \<union> nodes_of Dnode s' p \<subseteq> free_inodes s \<union> nodes_of Dnode s x \<union> nodes_of Dnode s p"
    "free_inodes s \<union> nodes_of Dnode s x \<subseteq> free_inodes s'" using s'(2) v(5) n(3) by (auto simp: removed_def)
  have "nodes_of Dnode v x = {}" using v(4) by (simp add: nodes_of_def pages_of_def)
  then have "({x} \<union> nodes_of Dnode v x) \<inter> ?H = {}" using v(3) p(2) n(3) by (auto simp: node_ok_def)
  moreover have "free_inodes s' \<subseteq> ?H" using f'(1) v(5) n(3) by blast
  ultimately have x: "node_ok Dnode s' x" "inode_at s' x = inode_at v x" using same_node[OF kept_inodes[OF k] v(3)] by blast+
  have "dir_entries s' x = []" using x(2) v(4) by (simp add: dir_entries_def entries_of_def)
  moreover have "kept s ({x, p} \<union> free_inodes s \<union> nodes_of Dnode s x \<union> nodes_of Dnode s p) s'"
  proof (rule kept_trans)
    show "kept s ({x, p} \<union> free_inodes s \<union> nodes_of Dnode s x \<union> nodes_of Dnode s p) v" by (rule kept_mono[OF v(6)]) blast
    show "kept v ({x, p} \<union> free_inodes s \<union> nodes_of Dnode s x \<union> nodes_of Dnode s p) s'"
      by (rule kept_mono[OF k]) (use v(5) n(3) in blast)
  qed
  ultimately have "dir_removed s p x m s'" using s'(2) x f' e by (simp add: dir_removed_def removed_def)
  then show ?thesis using v(1) s'(1) by blast
qed

lemma sfs_rmdir_ok:
  assumes s: "fs_ok s" "\<forall>d\<in>set cs. component d" "component c" "length (path_text cs c) < PATH_MAX"
    and w: "path_walk s 2 cs (int p)" "node_ok Dnode s p" "lookup_in s p c = int x" "node_ok Dnode s x"
    and dj: "({p} \<union> nodes_of Dnode s p) \<inter> ({x} \<union> nodes_of Dnode s x) = {}"
    and m: "m < entries_of s p" "\<forall>j<entries_of s p. same_name (dir_entries s p ! j) (c @ [0]) \<longleftrightarrow> j = m"
    and b: "length c + 1 \<le> length fbuf"
  shows "\<exists>s'. sfs_rmdir (path_text cs c @ 0 # r) fbuf s = Some (0, s') \<and> dir_removed s p x m s'"
proof -
  obtain t where t: "path_to_inum (path_text cs c @ 0 # r) s = Some ((int x, int p), t)" "same_disk s t"
    using path_resolves[OF s w(1,2)] w(3) by metis
  note d = same_disk_frame[OF t(2)]
  obtain f where f: "path_basename (path_text cs c @ 0 # r) fbuf = Some f" "terminated f" "cstr f = c"
    using path_basename_path[OF s(2,3) b] by auto
  have "0 \<notin> set c" using s(3) by (simp add: component_def)
  then have nm: "same_name e f = same_name e (c @ [0])" for e using f(3) by (simp add: same_name_def)
  have rd: "readable 13 f" using f(2) by (simp add: readable_def)
  have "fs_ok t" "node_ok Dnode t x" "node_ok Dnode t p" "({p} \<union> nodes_of Dnode t p) \<inter> ({x} \<union> nodes_of Dnode t x) = {}"
    "m < entries_of t p" "\<forall>j<entries_of t p. same_name (dir_entries t p ! j) f \<longleftrightarrow> j = m"
    using s w dj m d by (simp_all add: nm)
  from remove_dir[OF this(1-4) rd this(5,6)] obtain v s' where
    v: "dnode_listing_set (of_nat x) 0 t = Some v" "dnode_remove (int p) f v = Some s'" "dir_removed t p x m s'" by blast
  have "dir_removed s p x m s'" using v(3) by (simp add: dir_removed_def kept_def d)
  then show ?thesis using t(1) f(1) v(1,2) by (simp add: sfs_rmdir_def)
qed

text \<open>The directory \<open>/a\<close> in the root of a fresh disk.\<close>

lemma a_dir:
  "\<exists>s. sfs_mkdir (path_text [] [97] @ [0]) (zeros 14) mounted = Some (0, s) \<and> fs_ok s \<and> node_ok Dnode s 2 \<and> node_ok Dnode s 3
     \<and> (\<exists>f. dir_entries s 2 = dir_entries mounted 2 @ [new_entry f 3] \<and> cstr f = [97] \<and> terminated f)
     \<and> lookup_in s 2 [97] = int 3 \<and> nodes_of Dnode s 2 = {} \<and> nodes_of Dnode s 3 = {}"
proof -
  have "length (zeros 14) = 14" by simp
  from sfs_mkdir_ok[OF mounted(1,5) a_path(1-3) root_walk node_ok_root(1) a_path(4) root_room a_path(5) this a_path(6), of "[]"]
  obtain s f where s: "sfs_mkdir (path_text [] [97] @ [0]) (zeros 14) mounted = Some (0, s)" "cstr f = [97]" "terminated f"
    "created Dnode mounted 2 f 3 (dir_node (of_nat 3) (of_nat 2)) s" by blast
  then have e: "dir_entries s 2 = dir_entries mounted 2 @ [new_entry f 3]" by (simp add: created_def)
  have "entries_of s 2 = 3" using e length_dir_entries[of s 2] by (simp add: root_entries)
  then have "nodes_of Dnode s 2 = {}" by (simp add: nodes_of_def pages_of_def npages_def)
  then show ?thesis using s e by (auto simp: created_def)
qed

section \<open>Properties\<close>

text \<open>
  C10. Removing a directory: when the path resolves to a directory whose inodes are not those of its parent, and its name is
  the only one in the parent that agrees in 13 bytes, sfs_rmdir returns 0, whatever the directory holds: the directory
  is left without entries, its page inodes are free again, its entry is removed from the parent, and nothing else
  changes. Its own inode is not given back to the bitmap.
\<close>

theorem sfs_rmdir_spec:
  assumes "fs_ok s" "\<forall>d\<in>set cs. component d" "component c" "length (path_text cs c) < PATH_MAX"
    and "path_walk s 2 cs (int p)" "node_ok Dnode s p" "lookup_in s p c = int x" "node_ok Dnode s x"
    and "({p} \<union> nodes_of Dnode s p) \<inter> ({x} \<union> nodes_of Dnode s x) = {}"
    and "m < entries_of s p" "\<forall>j<entries_of s p. same_name (dir_entries s p ! j) (c @ [0]) \<longleftrightarrow> j = m"
    and "length c + 1 \<le> length fbuf"
  shows "\<exists>s'. sfs_rmdir (path_text cs c @ 0 # r) fbuf s = Some (0, s') \<and> dir_removed s p x m s' \<and> x \<notin> free_inodes s'"
proof -
  from sfs_rmdir_ok[OF assms] obtain s' where "sfs_rmdir (path_text cs c @ 0 # r) fbuf s = Some (0, s')" "dir_removed s p x m s'" by blast
  then show ?thesis by (auto simp: dir_removed_def node_ok_def)
qed

theorem sfs_rmdir_spec_witness:
  "\<exists>s s'. sfs_mkdir (path_text [] [97] @ [0]) (zeros 14) mounted = Some (0, s)
     \<and> sfs_rmdir (path_text [] [97] @ [0]) (zeros 14) s = Some (0, s')
     \<and> dir_entries s' 2 = dir_entries mounted 2 \<and> dir_entries s' 3 = [] \<and> 3 \<notin> free_inodes s'"
proof -
  obtain s f where s: "sfs_mkdir (path_text [] [97] @ [0]) (zeros 14) mounted = Some (0, s)" "fs_ok s" "node_ok Dnode s 2" "node_ok Dnode s 3"
    "dir_entries s 2 = dir_entries mounted 2 @ [new_entry f 3]" "cstr f = [97]" "terminated f"
    "lookup_in s 2 [97] = int 3" "nodes_of Dnode s 2 = {}" "nodes_of Dnode s 3 = {}" using a_dir by blast
  have n: "entries_of s 2 = 3" using s(5) length_dir_entries[of s 2] by (simp add: root_entries)
  have "cstr (de_name (new_entry f 3)) = [97]" using s(6,7) by (simp add: cstr_new_entry)
  then have "same_name (new_entry f 3) ([97] @ [0])" by (simp add: same_name_def cstr_Cons)
  moreover have "\<not> same_name \<lparr>de_name = dot_name, de_inum = 2\<rparr> ([97] @ [0])" "\<not> same_name \<lparr>de_name = dotdot_name, de_inum = 2\<rparr> ([97] @ [0])"
    by (simp_all add: same_name_def dot_name_def dotdot_name_def cstr_Cons)
  ultimately have m: "\<forall>j<entries_of s 2. same_name (dir_entries s 2 ! j) ([97] @ [0]) \<longleftrightarrow> j = 2"
    unfolding n s(5) root_entries by (auto simp: less_Suc_eq numeral_3_eq_3)
  have w: "path_walk s 2 [] (int 2)" using walk_here[of s 2] by simp
  have dj: "({2} \<union> nodes_of Dnode s 2) \<inter> ({3} \<union> nodes_of Dnode s 3) = {}" using s(9,10) by simp
  from sfs_rmdir_spec[OF s(2) a_path(1-3) w s(3,8,4) dj _ m, of "zeros 14" "[]"] n obtain s' where
    "sfs_rmdir (path_text [] [97] @ [0]) (zeros 14) s = Some (0, s')" "dir_removed s 2 3 2 s'" "3 \<notin> free_inodes s'" by auto
  then show ?thesis using s(1,5) by (auto simp: dir_removed_def root_entries)
qed

end
