(* ===== verification/FS_Truncate.thy ===== *)
theory FS_Truncate
  imports FS_Requests
begin

text \<open>
  \<open>sfs_truncate\<close> to a length within the blocks a file has: the blocks behind are freed, the size is set. (What it
  does beyond them is in \<open>FS_Faults\<close>.)
\<close>

definition truncated :: "fs \<Rightarrow> nat \<Rightarrow> nat \<Rightarrow> fs \<Rightarrow> bool" where
  "truncated s i o' s' \<longleftrightarrow> (let n = o' div 512 + 1 in
     fs_ok s' \<and> file_ok s' i \<and> fsize_of s' i = o' \<and> file_blocks s' i = take n (file_blocks s i)
     \<and> content s' i = take o' (data_of s (file_blocks s i)) \<and> ERRNO s' = ERRNO s
     \<and> free_list s' = rev (map uint (drop n (file_blocks s i))) @ free_list s
     \<and> free_inodes s \<subseteq> free_inodes s' \<and> free_inodes s' \<union> nodes_of Fnode s' i \<subseteq> free_inodes s \<union> nodes_of Fnode s i
     \<and> (\<forall>m<4096. m \<notin> {0, i} \<union> free_inodes s \<union> nodes_of Fnode s i \<longrightarrow> inode_at s' m = inode_at s m)
     \<and> (\<forall>b>1024. b \<notin> unat ` set (drop n (file_blocks s i)) \<longrightarrow> file_blk s' b = file_blk s b))"

text \<open>Storing the same listing again keeps the node, up to the size.\<close>

lemma store_again:
  assumes s: "fs_ok s" "node_ok Fnode s i" "md_isdir (inode_at s i) = 0" and n: "entries_of s i = n"
    and f: "\<forall>j<n. f_ent (f_arr s) j = file_blocks s i ! j" and F: "F \<le> 8344 * 512"
  shows "\<exists>w s'. fnode_listing_set (of_nat i) (int n) s = Some w \<and> inode_set_attr_upc (of_nat i) None (Some (int F)) w = s'
     \<and> fs_ok s' \<and> node_ok Fnode s' i \<and> md_isdir (inode_at s' i) = 0 \<and> fsize_of s' i = F \<and> file_blocks s' i = file_blocks s i
     \<and> free_inodes s' \<union> nodes_of Fnode s' i = free_inodes s \<union> nodes_of Fnode s i \<and> free_inodes s \<subseteq> free_inodes s'
     \<and> kept s ({i} \<union> free_inodes s \<union> nodes_of Fnode s i) s'"
proof -
  let ?G = "{i} \<union> free_inodes s \<union> nodes_of Fnode s i"
  have n8: "n \<le> 8344" using s(2) n npages_le[of Fnode n MAX_PAGES] by (simp add: node_ok_def pages_of_def ptr_at_def)
  have c: "clamp_size Fnode (int n) = n" "pages_of Fnode s i = npages Fnode n" "\<not> leaks (npages Fnode n) (npages Fnode n)"
    using n8 n by (simp_all add: clamp_size_def pages_of_def leaks_def)
  from listing_set_ok[OF s(1,2), of "int n"] obtain w where w: "fnode_listing_set (of_nat i) (int n) s = Some w" "resized Fnode s i n w"
    "unchanged s ?G w" using n8 by (auto simp: c need_shrink)
  have l: "length (inode_at s i) = INODE_SIZE" "length (f_arr s) = ARR_BYTES" using s(1) fs_ok_disk[OF s(1)] by (simp_all add: fs_ok_def)
  have hd: "nd_head (set_head (f_arr s) n (inode_at s i)) (inode_at w i)" using w(2) by (simp add: resized_def)
  have d0: "md_isdir (inode_at w i) = 0"
    using head_fields(7)[OF hd set_head_simps(1)[OF l]] head_fields(6)[OF hd set_head_simps(1)[OF l]] set_head_simps(7,8)[OF l] s(3) by simp
  have fb: "file_blocks w i = file_blocks s i"
    unfolding resized_blocks[OF w(2)] by (rule nth_equalityI) (use f n in simp_all)
  have wo: "fs_ok w" "node_ok Fnode w i" "free_inodes w \<union> nodes_of Fnode w i = free_inodes s \<union> nodes_of Fnode s i" "free_inodes s \<subseteq> free_inodes w"
    using w(2) c(3) by (simp_all add: resized_def c(2))
  from set_attr_file[OF wo(1,2) d0 F] obtain t where t: "inode_set_attr_upc (of_nat i) None (Some (int F)) w = t" "fs_ok t" "node_ok Fnode t i"
    "inode_at t i = set_fsize (of_nat F) (inode_at w i)" "nodes_of Fnode t i = nodes_of Fnode w i" "free_inodes t = free_inodes w"
    "unchanged w {i} t" "file_blocks t i = file_blocks w i" by blast
  have lw: "length (inode_at w i) = INODE_SIZE" using fs_ok_disk[OF wo(1)] by simp
  have "kept s ?G t"
  proof (rule kept_trans)
    show "kept s ?G w" using w(3) by (simp add: unchanged_def)
    show "kept w ?G t" by (rule kept_mono[of w "{i}"]) (use t(7) in \<open>simp_all add: unchanged_def\<close>)
  qed
  moreover have "md_isdir (inode_at t i) = 0" "fsize_of t i = F"
    using t(4) d0 fsize_fields[OF lw] F by (simp_all add: fsize_of_def unsigned_of_nat take_bit_nat_eq_self)
  ultimately show ?thesis using w(1) t wo fb by (intro exI[of _ w] exI[of _ t]) simp
qed

lemma truncate_within:
  assumes s: "fs_ok s" "file_ok s i" and n: "n = o' div 512 + 1" "n \<le> entries_of s i"
  shows "\<exists>u v w s'. fnode_listing (of_nat i) s = (entries_of s i, u) \<and> fstream_free (int i) (int n) u = Some v
     \<and> fnode_listing_set (of_nat i) (int n) v = Some w \<and> inode_set_attr_upc (of_nat i) None (Some (int o')) w = s' \<and> truncated s i o' s'"
proof -
  let ?n = "entries_of s i" and ?bs = "file_blocks s i" and ?G = "{0, i} \<union> free_inodes s \<union> nodes_of Fnode s i"
  have nok: "node_ok Fnode s i" and bs: "distinct ?bs" "\<forall>b\<in>set ?bs. data_block b \<and> uint b \<notin> set (free_list s)"
    using s(2) by (simp_all add: file_ok_def)
  have n8: "?n \<le> 8344" using nok npages_le[of Fnode ?n MAX_PAGES] by (simp add: node_ok_def pages_of_def ptr_at_def)
  obtain b A where A: "fnode_listing (of_nat i) s = (?n, s\<lparr>iblockbuf := b, f_arr := A\<rparr>)" "length A = ARR_BYTES"
    using file_listing[OF s(1) nok] by blast
  let ?u = "s\<lparr>iblockbuf := b, f_arr := A\<rparr>"
  have "length (f_arr s) = ARR_BYTES" using s(1) by (simp add: fs_ok_def)
  then have u: "fs_ok ?u" using s(1) A(2) by simp
  have ue: "entries_of ?u i = ?n" "file_blocks ?u i = ?bs" "fsize_of ?u i = fsize_of s i" "nodes_of Fnode ?u i = nodes_of Fnode s i"
    by (simp_all add: file_blocks_def fsize_of_def)
  have uf: "file_ok ?u i" using s(2) by (simp add: file_ok_def ue)
  from fstream_free_ok[OF u uf, of n] n(2) obtain v where v: "fstream_free (int i) (int n) ?u = Some v" "cut ?u i n v" by (auto simp: ue)
  have vv: "fs_ok v" "node_ok Fnode v i" "md_isdir (inode_at v i) = 0" "file_blocks v i = take n ?bs" "free_inodes s \<subseteq> free_inodes v"
    "free_inodes v \<union> nodes_of Fnode v i \<subseteq> free_inodes s \<union> nodes_of Fnode s i" "\<forall>j<n. f_ent (f_arr v) j = ?bs ! j"
    "free_list v = rev (map uint (drop n ?bs)) @ free_list s" "ERRNO v = ERRNO s"
    "\<forall>m<4096. m \<notin> ?G \<longrightarrow> inode_at v m = inode_at s m" "\<forall>b>1024. b \<notin> unat ` set (drop n ?bs) \<longrightarrow> file_blk v b = file_blk s b"
    using v(2) unfolding cut_def ue by simp_all
  have ve: "entries_of v i = n" using vv(4) length_file_blocks[of v i] n(2) by simp
  have "o' < 512 * n" using dividend_less_times_div[of 512 o'] n(1) by simp
  then have F: "o' \<le> 8344 * 512" using n(2) n8 by simp
  have "\<forall>j<n. f_ent (f_arr v) j = file_blocks v i ! j" using vv(4,7) n(2) by simp
  from store_again[OF vv(1-3) ve this F] obtain w t where w: "fnode_listing_set (of_nat i) (int n) v = Some w"
    "inode_set_attr_upc (of_nat i) None (Some (int o')) w = t" "fs_ok t" "node_ok Fnode t i" "md_isdir (inode_at t i) = 0" "fsize_of t i = o'"
    "file_blocks t i = take n ?bs" "free_inodes t \<union> nodes_of Fnode t i = free_inodes v \<union> nodes_of Fnode v i" "free_inodes v \<subseteq> free_inodes t"
    "kept v ({i} \<union> free_inodes v \<union> nodes_of Fnode v i) t" unfolding vv(4) by blast
  have fl: "free_list t = rev (map uint (drop n ?bs)) @ free_list s" using w(10) vv(8) by (simp add: kept_def)
  have blk: "file_blk t b = file_blk s b" if "b > 1024" "b \<notin> unat ` set (drop n ?bs)" for b
    using w(10) vv(11) that by (simp add: kept_def)
  have dj: "set (take n ?bs) \<inter> set (drop n ?bs) = {}" using bs(1) by (rule set_take_disj_set_drop_if_distinct) simp
  have "entries_of t i = n" using w(7) length_file_blocks[of t i] n(2) by simp
  moreover have "\<forall>b\<in>set (take n ?bs). data_block b \<and> uint b \<notin> set (free_list t)"
    using bs(2) dj by (auto simp: fl dest: in_set_takeD simp flip: word_uint_eq_iff)
  ultimately have fo: "file_ok t i" using w(4-7) bs(1) \<open>o' < 512 * n\<close> by (simp add: file_ok_def)
  have same: "file_blk t (unat b) = file_blk s (unat b)" if "b \<in> set (take n ?bs)" for b
    using that dj bs(2) by (intro blk) (auto simp: data_block_def dest: in_set_takeD simp flip: word_unat_eq_iff)
  have "data_of t (take n ?bs) = data_of s (take n ?bs)" using same by (simp add: data_of_def cong: map_cong)
  then have "content t i = take o' (data_of s (take n ?bs))" by (simp add: content_def w(6,7))
  also have "\<dots> = take o' (data_of s (take n ?bs) @ data_of s (drop n ?bs))"
    using \<open>o' < 512 * n\<close> fs_ok_disk[OF s(1)] n(2) by simp
  also have "\<dots> = take o' (data_of s ?bs)" by (simp flip: data_of_append)
  finally have ct: "content t i = take o' (data_of s ?bs)" .
  have nd: "free_inodes s \<subseteq> free_inodes t" "free_inodes t \<union> nodes_of Fnode t i \<subseteq> free_inodes s \<union> nodes_of Fnode s i"
    using w(8,9) vv(5,6) by blast+
  have "inode_at t m = inode_at s m" if "m < 4096" "m \<notin> ?G" for m
  proof -
    have "m \<notin> {i} \<union> free_inodes v \<union> nodes_of Fnode v i" using that(2) vv(6) by blast
    then show ?thesis using w(10) vv(10) that by (simp add: kept_def)
  qed
  moreover have "ERRNO t = ERRNO s" using w(10) vv(9) by (simp add: kept_def)
  ultimately have "truncated s i o' t" using w(3,6,7) fo ct fl nd blk unfolding truncated_def Let_def n(1)[symmetric] by blast
  then show ?thesis using A(1) v(1) w(1,2) by blast
qed

lemma sfs_truncate_ok:
  assumes s: "fs_ok s" "\<forall>d\<in>set cs. component d" "component c" "length (path_text cs c) < PATH_MAX"
    and w: "path_walk s 2 cs (int p)" "node_ok Dnode s p" "lookup_in s p c = int i" "file_ok s i"
    and n: "o' div 512 + 1 \<le> entries_of s i"
  shows "\<exists>s'. sfs_truncate (path_text cs c @ 0 # r) (int o') s = Some (0, s') \<and> truncated s i o' s'"
proof -
  let ?n = "o' div 512 + 1"
  obtain t where t: "path_to_inum (path_text cs c @ 0 # r) s = Some ((int i, int p), t)" "same_disk s t"
    using path_resolves[OF s w(1,2)] w(3) by metis
  note d = same_disk_frame[OF t(2)] file_same_disk[OF t(2)]
  have "fs_ok t" "file_ok t i" "?n \<le> entries_of t i" using s(1) w(4) n d by simp_all
  from truncate_within[OF this(1,2) refl this(3)] obtain u v x s' where
    r: "fnode_listing (of_nat i) t = (entries_of t i, u)" "fstream_free (int i) (int ?n) u = Some v"
    "fnode_listing_set (of_nat i) (int ?n) v = Some x" "inode_set_attr_upc (of_nat i) None (Some (int o')) x = s'" and e: "truncated t i o' s'"
    by blast
  have dat: "data_of t bs = data_of s bs" for bs by (simp add: data_of_def d)
  have e: "truncated s i o' s'" using e by (simp add: truncated_def Let_def d dat)
  have "entries_of s i \<le> 8344" using w(4) npages_le[of Fnode "entries_of s i" MAX_PAGES] by (simp add: file_ok_def node_ok_def pages_of_def ptr_at_def)
  then have "?n < 2147483648" "o' < 2147483648" using n dividend_less_times_div[of 512 o'] by simp_all
  then have ci: "c_int (int o') = int o'" "c_int (int ?n) = int ?n" by (simp_all add: c_int_id)
  have off: "int o' sdiv 512 + 1 = int ?n" using int_sdiv(1)[of o' 512] by simp
  have z: "nat (int ?n - int (entries_of t i)) = 0" "extend_blocks 0 (int (entries_of t i)) u = Some u" using n d by simp_all
  have "sfs_truncate (path_text cs c @ 0 # r) (int o') s = Some (0, s')"
    unfolding sfs_truncate_def
    by (simp only: t(1) r z ci off Let_def prod.case option.simps bind.bind_lunit of_int_of_nat_eq of_nat_numeral
        of_nat_less_0_iff if_False)
  then show ?thesis using e by blast
qed

section \<open>Properties\<close>

text \<open>
  C11. Truncating a file to a length within the blocks it has: sfs_truncate returns 0, the size is the length, the content is
  what the blocks hold up to there (the old content cut, when the length is not beyond the old size), the blocks behind the one the
  length falls into are given back in reverse order, and nothing of any other node changes.
\<close>

theorem sfs_truncate_spec:
  assumes "fs_ok s" "\<forall>d\<in>set cs. component d" "component c" "length (path_text cs c) < PATH_MAX"
    and "path_walk s 2 cs (int p)" "node_ok Dnode s p" "lookup_in s p c = int i" "file_ok s i" "o' div 512 + 1 \<le> entries_of s i"
  shows "\<exists>s'. sfs_truncate (path_text cs c @ 0 # r) (int o') s = Some (0, s') \<and> truncated s i o' s'"
  by (rule sfs_truncate_ok[OF assms])

end
