(* ===== verification/FS_Refine.thy ===== *)
theory FS_Refine
  imports FS_Tree FS_Rmdir FS_Truncate
begin

text \<open>
  The requests against the abstract file system: each keeps the invariant \<open>tree\<close>, and what it does to the
  abstraction \<open>abs_fs\<close> is an update of one or two abstract nodes.
\<close>

section \<open>New nodes\<close>

lemma created_touches:
  assumes p: "K p = Some Dnode" and c: "created k s p f x nd s'"
  shows "touches K {p} s s'"
proof -
  have f: "\<Union>(foot K s ` {p}) = insert p (nodes_of Dnode s p)" using p by (simp add: foot_def)
  have k: "kept s ({p} \<union> free_inodes s \<union> nodes_of Dnode s p) s'"
    and u: "free_inodes s' \<union> nodes_of Dnode s' p = free_inodes s - {x} \<union> nodes_of Dnode s p"
    using c by (simp_all add: created_def)
  have "free_inodes s' \<subseteq> free_inodes s \<union> insert p (nodes_of Dnode s p)" using u by blast
  then show ?thesis using k unfolding touches_def f kept_def data_block_def by auto
qed

lemma created_foot:
  assumes t: "tree K s" and p: "K p = Some Dnode" and c: "created k s p f x nd s'"
  shows "x \<noteq> p" "x \<notin> nodes_of Dnode s' p" "p \<noteq> 0" "nodes_of Dnode s' p \<subseteq> free_inodes s \<union> nodes_of Dnode s p"
proof -
  have n: "node_ok Dnode s p" by (rule treeD(4)[OF t p])
  have x: "x \<in> free_inodes s" and u: "free_inodes s' \<union> nodes_of Dnode s' p = free_inodes s - {x} \<union> nodes_of Dnode s p"
    using c by (simp_all add: created_def)
  show "x \<noteq> p" "p \<noteq> 0" using n x by (auto simp: node_ok_def)
  have "x \<notin> nodes_of Dnode s p" using n x by (auto simp: node_ok_def)
  then show "x \<notin> nodes_of Dnode s' p" using u by blast
  show "nodes_of Dnode s' p \<subseteq> free_inodes s \<union> nodes_of Dnode s p" using u by blast
qed

lemma name_of_new: "terminated f \<Longrightarrow> length (cstr f) \<le> 13 \<Longrightarrow> name_of (new_entry f x) = cstr f"
  by (simp add: name_of_def cstr_new_entry)

lemma alook_None: "alook i es c = None \<longleftrightarrow> c \<noteq> dot \<and> c \<notin> fst ` set es"
  by (simp add: alook_def map_of_eq_None_iff)

lemma fst_abs_entries: "fst ` set (abs_entries s d) = set (map name_of (dir_entries s d))"
  by (simp add: abs_entries_def image_image)

lemma created_dir_good:
  assumes t: "tree K s" and p: "K p = Some Dnode" and c: "created k s p f x nd s'"
    and f: "length (cstr f) \<le> 13" "terminated f" "alook p (abs_entries s p) (cstr f) = None"
  shows "dir_good s' p" "abs_entries s' p = abs_entries s p @ [(cstr f, x)]"
proof -
  have e: "dir_entries s' p = dir_entries s p @ [new_entry f x]" using c by (simp add: created_def)
  note n = name_of_new[OF f(2,1), of x]
  have "cstr f \<notin> set (map name_of (dir_entries s p))" using f(3) by (simp add: alook_None fst_abs_entries)
  then show "dir_good s' p" using treeD(6)[OF t p] n f(1) by (auto simp: dir_good_def e)
  have "x < 1024" using c free_inodes_range[OF treeD(1)[OF t]] by (auto simp: created_def)
  then have "unat (de_inum (new_entry f x)) = x" by (simp add: new_entry_def unat_of_nat_ushort del: unat_of_nat)
  then show "abs_entries s' p = abs_entries s p @ [(cstr f, x)]" by (simp add: abs_entries_def e n)
qed

text \<open>A new node with one new entry, whatever kind the node has.\<close>

lemma created_tree:
  assumes t: "tree K s" and p: "K p = Some Dnode" and c: "created k s p f x nd s'"
    and f: "length (cstr f) \<le> 13" "terminated f" "alook p (abs_entries s p) (cstr f) = None"
    and kf: "k = Fnode \<Longrightarrow> file_ok s' x \<and> file_blocks s' x = []"
    and kd: "k = Dnode \<Longrightarrow> dir_good s' x \<and> snd ` set (abs_entries s' x) \<subseteq> {x, p}"
  shows "K x = None" "tree (K(x \<mapsto> k)) s'"
    "abs_fs (K(x \<mapsto> k)) s' = (abs_fs K s)(p \<mapsto> ADir (abs_entries s p @ [(cstr f, x)]), x \<mapsto> the (abs_fs (K(x \<mapsto> k)) s' x))"
proof -
  let ?K = "K(x \<mapsto> k)"
  have x: "x \<in> free_inodes s" "node_ok k s' x" "nodes_of k s' x = {}" "fs_ok s'" "ERRNO s' = ERRNO s" "node_ok Dnode s' p"
    using c by (simp_all add: created_def)
  note ft = created_foot[OF t p c] and tc = created_touches[where K = K, OF p c] and g = created_dir_good[OF t p c f]
  have C: "{p} \<subseteq> dom K" "{x} \<subseteq> free_inodes s" using p x(1) by auto
  show n: "K x = None" by (rule free_not_in[OF t x(1)])
  have same: "?K y = K y" if "y \<notin> {p} \<union> {x}" for y using that by simp
  have eq: "abs_fs ?K s' y = abs_fs K s y" if "y \<notin> {p} \<union> {x}" for y by (rule abs_other[OF t tc C(1) same that])
  have pa: "abs_fs K s p = Some (ADir (abs_entries s p))" "abs_fs ?K s' p = Some (ADir (abs_entries s p @ [(cstr f, x)]))"
    using p ft(1) g(2) by (auto simp: abs_dir)
  have xa: "abs_fs K s x = None" "abs_fs ?K s' x \<noteq> None" using n by (auto simp: abs_fs_def split: nkind.split)
  define v where "v = the (abs_fs ?K s' x)"
  have xv: "abs_fs ?K s' x = Some v" using xa(2) by (simp add: v_def)
  have ab: "abs_fs ?K s' = (abs_fs K s)(p \<mapsto> ADir (abs_entries s p @ [(cstr f, x)]), x \<mapsto> v)"
  proof
    fix y show "abs_fs ?K s' y = ((abs_fs K s)(p \<mapsto> ADir (abs_entries s p @ [(cstr f, x)]), x \<mapsto> v)) y"
      using eq[of y] pa(2) xv ft(1) by (cases "y = x"; cases "y = p") simp_all
  qed
  then show "abs_fs ?K s' = (abs_fs K s)(p \<mapsto> ADir (abs_entries s p @ [(cstr f, x)]), x \<mapsto> the (abs_fs ?K s' x))"
    unfolding v_def .
  show "tree ?K s'"
  proof (rule tree_step[OF t tc C x(4)])
    show "ERRNO s' = 0" using x(5) treeD(2)[OF t] by simp
    show "?K 2 = Some Dnode" using treeD(3)[OF t] n by auto
    show "links_ok (abs_fs ?K s')" unfolding ab
    proof (rule links_add[OF treeD(9)[OF t] pa(1) xa(1)])
      fix es assume "v = ADir es"
      then have "abs_fs ?K s' x = Some (ADir es)" using xv by simp
      then show "snd ` set es \<subseteq> {x, p}" using kd abs_dir[of ?K s' x es] by simp
    qed
  next
    fix y assume "y \<in> {p} \<union> {x}"
    then show "node_good ?K s' y" using ft(1) g(1) x(2,6) p kf kd by (auto simp: node_good_def)
    show "foot ?K s' y \<subseteq> free_inodes s \<union> \<Union> (foot K s ` {p})"
      using \<open>y \<in> {p} \<union> {x}\<close> ft(1,4) x(1,3) p by (auto simp: foot_def)
    fix w assume "w \<in> blocks_of ?K s' y"
    then show "uint w \<in> set (free_list s) \<or> w \<in> \<Union> (blocks_of K s ` {p})"
      using \<open>y \<in> {p} \<union> {x}\<close> kf p by (auto simp: blocks_of_def split: if_splits)
  next
    fix y z assume "y \<in> {p} \<union> {x}" "z \<in> {p} \<union> {x}" "y \<noteq> z"
    then show "foot ?K s' y \<inter> foot ?K s' z = {} \<and> blocks_of ?K s' y \<inter> blocks_of ?K s' z = {}"
      using ft(1,2) x(3) p kf by (auto simp: foot_def blocks_of_def)
  next
    fix w assume "uint w \<in> set (free_list s) \<or> w \<in> \<Union> (blocks_of K s ` {p})"
    moreover have "free_list s' = free_list s" using c by (simp add: created_def kept_def)
    ultimately show "uint w \<in> set (free_list s') \<or> w \<in> \<Union> (blocks_of ?K s' ` {p})" using p by (simp add: blocks_of_def)
  qed (use same in simp)
qed

section \<open>Operations of the abstract file system\<close>

definition a_create :: "nat \<Rightarrow> byte list \<Rightarrow> nat \<Rightarrow> afs \<Rightarrow> afs" where
  "a_create p c x A =
     (case A p of Some (ADir es) \<Rightarrow> A(p \<mapsto> ADir (es @ [(c, x)]), x \<mapsto> AFile []) | _ \<Rightarrow> A)"

definition a_mkdir :: "nat \<Rightarrow> byte list \<Rightarrow> nat \<Rightarrow> afs \<Rightarrow> afs" where
  "a_mkdir p c x A =
     (case A p of Some (ADir es) \<Rightarrow> A(p \<mapsto> ADir (es @ [(c, x)]), x \<mapsto> ADir [(dot, x), (dot @ dot, p)]) | _ \<Rightarrow> A)"

definition a_write :: "nat \<Rightarrow> nat \<Rightarrow> byte list \<Rightarrow> afs \<Rightarrow> afs" where
  "a_write x o' dat A = (case A x of Some (AFile b) \<Rightarrow> A(x \<mapsto> AFile (mput o' dat b)) | _ \<Rightarrow> A)"

definition a_truncate :: "nat \<Rightarrow> nat \<Rightarrow> afs \<Rightarrow> afs" where
  "a_truncate x o' A = (case A x of Some (AFile b) \<Rightarrow> A(x \<mapsto> AFile (take o' b)) | _ \<Rightarrow> A)"

text \<open>Unlinking moves the last entry into the place of the one removed.\<close>

definition a_unlink :: "nat \<Rightarrow> byte list \<Rightarrow> afs \<Rightarrow> afs" where
  "a_unlink p c A =
     (case A p of
        Some (ADir es) \<Rightarrow>
          A(p \<mapsto> ADir (butlast (es[length (takeWhile (\<lambda>e. fst e \<noteq> c) es) := last es])), the (map_of es c) := None)
      | _ \<Rightarrow> A)"

text \<open>A path that names: components, and short enough for the buffer of the walk.\<close>

definition path_ok :: "byte list list \<Rightarrow> byte list \<Rightarrow> bool" where
  "path_ok cs c \<longleftrightarrow> (\<forall>d\<in>set cs. component d) \<and> component c \<and> length (path_text cs c) < PATH_MAX"

text \<open>The directory a path leads into, and that the last name is new there.\<close>

definition new_name :: "afs \<Rightarrow> byte list list \<Rightarrow> byte list \<Rightarrow> nat \<Rightarrow> bool" where
  "new_name A cs c p \<longleftrightarrow> path_ok cs c \<and> length c \<le> 13 \<and> resolve A 2 cs = Some p
     \<and> (\<exists>es. A p = Some (ADir es) \<and> alook p es c = None)"

lemma new_nameD:
  assumes t: "tree K s" and n: "new_name (abs_fs K s) cs c p"
  shows "\<forall>d\<in>set cs. component d" "component c" "length (path_text cs c) < PATH_MAX" "length c \<le> 13" "K p = Some Dnode"
    "path_walk s 2 cs (int p)" "node_ok Dnode s p" "lookup_in s p c = -1" "alook p (abs_entries s p) c = None"
proof -
  show "\<forall>d\<in>set cs. component d" "component c" "length (path_text cs c) < PATH_MAX" "length c \<le> 13" and p: "K p = Some Dnode"
    and l: "alook p (abs_entries s p) c = None"
    using n by (auto simp: new_name_def path_ok_def abs_dir)
  have "resolve (abs_fs K s) 2 cs = Some p" using n by (simp add: new_name_def)
  from resolve_walk[OF t this] show "path_walk s 2 cs (int p)" by simp
  show "node_ok Dnode s p" by (rule treeD(4)[OF t p])
  show "lookup_in s p c = -1" using lookup_abs[OF treeD(6)[OF t p], of c] l by simp
qed

lemma create_refines:
  assumes t: "tree K s" and n: "new_name (abs_fs K s) cs c p" and r: "room_for_entry s p" "14 \<le> length (c @ 0 # r)"
    and x: "x = Min (free_inodes s)"
  shows "\<exists>s'. sfs_create (path_text cs c @ 0 # r) s = Some (0, s') \<and> K x = None
     \<and> tree (K(x \<mapsto> Fnode)) s' \<and> abs_fs (K(x \<mapsto> Fnode)) s' = a_create p c x (abs_fs K s)"
proof -
  note d = new_nameD[OF t n]
  from sfs_create_ok[OF treeD(1,2)[OF t] d(1-3,6-8) r(1) d(4) r(2) x] obtain s' where
    s': "sfs_create (path_text cs c @ 0 # r) s = Some (0, s')"
    and c: "created Fnode s p (c @ 0 # r) x (file_node (of_nat x) (of_nat p)) s'" by blast
  have n: "node_ok Fnode s' x" "inode_at s' x = file_node (of_nat x) (of_nat p)" "fs_ok s'" using c by (simp_all add: created_def)
  note f = new_file_ok[OF fs_ok_disk[OF n(3)] n(1,2)]
  have b: "file_blocks s' x = []" using f(2) by (simp add: file_blocks_def)
  have z: "cstr (c @ 0 # r) = c" "terminated (c @ 0 # r)" using d(2) by (simp_all add: component_def)
  have l: "length (cstr (c @ 0 # r)) \<le> 13" "alook p (abs_entries s p) (cstr (c @ 0 # r)) = None" using d(4,9) by (simp_all add: z)
  have fk: "file_ok s' x \<and> file_blocks s' x = []" using f(1) b by blast
  note g = created_tree[OF t d(5) c l(1) z(2) l(2) fk, simplified]
  have "abs_fs (K(x \<mapsto> Fnode)) s' x = Some (AFile [])" using f(4) by (simp add: abs_fs_def)
  moreover have "abs_fs K s p = Some (ADir (abs_entries s p))" using d(5) by (simp add: abs_fs_def)
  ultimately have "abs_fs (K(x \<mapsto> Fnode)) s' = a_create p c x (abs_fs K s)" using g(3) z(1) by (simp add: a_create_def)
  then show ?thesis using s' g(1,2) by blast
qed

lemma mkdir_refines:
  assumes t: "tree K s" and n: "new_name (abs_fs K s) cs c p" and r: "room_for_entry s p" "length fbuf = 14"
    and x: "x = Min (free_inodes s)"
  shows "\<exists>s'. sfs_mkdir (path_text cs c @ 0 # r) fbuf s = Some (0, s') \<and> K x = None
     \<and> tree (K(x \<mapsto> Dnode)) s' \<and> abs_fs (K(x \<mapsto> Dnode)) s' = a_mkdir p c x (abs_fs K s)"
proof -
  note d = new_nameD[OF t n]
  from sfs_mkdir_ok[OF treeD(1,2)[OF t] d(1-3,6-8) r(1) d(4) r(2) x] obtain s' f where
    s': "sfs_mkdir (path_text cs c @ 0 # r) fbuf s = Some (0, s')" and f: "cstr f = c" "terminated f"
    and c: "created Dnode s p f x (dir_node (of_nat x) (of_nat p)) s'" by blast
  have xr: "x < 65536" "p < 65536" using c free_inodes_range[OF treeD(1)[OF t], of x] d(7) by (auto simp: created_def node_ok_def)
  have "inode_at s' x = dir_node (of_nat x) (of_nat p)" using c by (simp add: created_def)
  note e = dir_node_entries[OF this]
  have nm: "cstr dot_name = dot" "cstr dotdot_name = dot @ dot" by (simp_all add: dot_name_def dotdot_name_def cstr_Cons dot_def zeros_def)
  have a: "abs_entries s' x = [(dot, x), (dot @ dot, p)]"
    using xr by (simp add: abs_entries_def e name_of_def nm unat_of_nat_ushort del: unat_of_nat)
  have "dir_good s' x" by (simp add: dir_good_def e name_of_def nm) (simp add: dot_def)
  then have dg: "dir_good s' x \<and> snd ` set (abs_entries s' x) \<subseteq> {x, p}" by (simp add: a)
  have l: "length (cstr f) \<le> 13" "alook p (abs_entries s p) (cstr f) = None" using d(4,9) by (simp_all add: f)
  note g = created_tree[OF t d(5) c l(1) f(2) l(2) _ dg, simplified]
  have "abs_fs (K(x \<mapsto> Dnode)) s' x = Some (ADir [(dot, x), (dot @ dot, p)])" using a by (simp add: abs_fs_def)
  moreover have "abs_fs K s p = Some (ADir (abs_entries s p))" using d(5) by (simp add: abs_fs_def)
  ultimately have "abs_fs (K(x \<mapsto> Dnode)) s' = a_mkdir p c x (abs_fs K s)" using g(3) f(1) by (simp add: a_mkdir_def)
  then show ?thesis using s' g(1,2) by blast
qed

section \<open>Requests on files\<close>

text \<open>Buffers are not part of the abstraction.\<close>

lemma tree_buffers:
  assumes t: "tree K s" and l: "length A = ARR_BYTES" "length B = ARR_BYTES"
  shows "tree K (s\<lparr>iblockbuf := b, d_arr := A, f_arr := B\<rparr>)" "abs_fs K (s\<lparr>iblockbuf := b, d_arr := A, f_arr := B\<rparr>) = abs_fs K s"
proof -
  let ?t = "s\<lparr>iblockbuf := b, d_arr := A, f_arr := B\<rparr>"
  have f: "fs_ok ?t" using treeD(1)[OF t] l by (auto simp: fs_ok_def[of s])
  have e: "dir_entries ?t i = dir_entries s i" "entries_of ?t i = entries_of s i" "file_blocks ?t i = file_blocks s i" "node_ok k ?t i = node_ok k s i"
    "nodes_of k ?t i = nodes_of k s i" for i k
    by (simp_all add: dir_entries_def file_blocks_def)
  have c: "content ?t i = content s i" "file_ok ?t i = file_ok s i" for i
    by (simp_all add: content_def file_ok_def data_of_def fsize_of_def e)
  show a: "abs_fs K ?t = abs_fs K s"
    by (rule ext) (simp add: abs_fs_def abs_entries_def e c split: option.split nkind.split)
  have q: "node_good K ?t = node_good K s" "foot K ?t = foot K s" "blocks_of K ?t = blocks_of K s"
    by (rule ext, simp add: node_good_def dir_good_def foot_def blocks_of_def e c)+
  have k: "blocks_kept K ?t = blocks_kept K s" by (simp add: blocks_kept_def q(3))
  have "ERRNO ?t = 0" using treeD(2)[OF t] by simp
  then show "tree K ?t" using t f unfolding tree_def a q k by (elim conjE, intro conjI) assumption+
qed

text \<open>The file a path leads to, its directory and its content.\<close>

definition file_at :: "afs \<Rightarrow> byte list list \<Rightarrow> byte list \<Rightarrow> nat \<Rightarrow> nat \<Rightarrow> byte list \<Rightarrow> bool" where
  "file_at A cs c p x b \<longleftrightarrow> path_ok cs c \<and> resolve A 2 cs = Some p \<and> A x = Some (AFile b)
     \<and> (\<exists>es. A p = Some (ADir es) \<and> alook p es c = Some x)"

lemma file_atD:
  assumes t: "tree K s" and n: "file_at (abs_fs K s) cs c p x b"
  shows "\<forall>d\<in>set cs. component d" "component c" "length (path_text cs c) < PATH_MAX" "K p = Some Dnode" "K x = Some Fnode"
    "path_walk s 2 cs (int p)" "node_ok Dnode s p" "lookup_in s p c = int x" "map_of (abs_entries s p) c = Some x" "b = content s x"
    "file_ok s x" "p \<noteq> x"
proof -
  show "\<forall>d\<in>set cs. component d" "component c" "length (path_text cs c) < PATH_MAX" and p: "K p = Some Dnode" and x: "K x = Some Fnode"
    and l: "b = content s x"
    using n by (auto simp: file_at_def path_ok_def abs_dir abs_file)
  have al: "alook p (abs_entries s p) c = Some x" using n by (auto simp: file_at_def abs_dir)
  have "resolve (abs_fs K s) 2 cs = Some p" using n by (simp add: file_at_def)
  from resolve_walk[OF t this] show "path_walk s 2 cs (int p)" by simp
  show "node_ok Dnode s p" by (rule treeD(4)[OF t p])
  show "lookup_in s p c = int x" using lookup_abs[OF treeD(6)[OF t p], of c] al by simp
  show px: "p \<noteq> x" using p x by auto
  show "map_of (abs_entries s p) c = Some x" using al px by (auto simp: alook_def split: if_splits)
  show "file_ok s x" by (rule treeD(5)[OF t x])
qed

lemma file_at_inum:
  assumes t: "tree K s" and n: "file_at (abs_fs K s) cs c p x b"
  shows "\<exists>t. path_to_inum (path_text cs c @ 0 # r) s = Some ((int x, int p), t) \<and> same_disk s t"
  using path_to_inum_ok[OF treeD(1)[OF t] file_atD(1,2)[OF t n] _ _ file_atD(6,7)[OF t n], of "[]" r] file_atD(3,8)[OF t n] by auto

lemma fsize_small:
  assumes "fs_ok s" "file_ok s i"
  shows "fsize_of s i < 2147483648" "length (content s i) = fsize_of s i"
proof -
  have "pages_of Fnode s i \<le> MAX_PAGES" "fsize_of s i \<le> 512 * entries_of s i" using assms by (simp_all add: file_ok_def node_ok_def)
  then show "fsize_of s i < 2147483648" using npages_le[of Fnode "entries_of s i" MAX_PAGES] by (simp add: pages_of_def ptr_at_def)
  then show "length (content s i) = fsize_of s i" using assms by (simp add: content_def fs_ok_disk file_ok_def)
qed

lemma c_int_nat: "n < 2147483648 \<Longrightarrow> c_int (int n) = int n"
  by (simp add: c_int_id)

lemma read_refines:
  assumes t: "tree K s" and n: "file_at (abs_fs K s) cs c p x b" and z: "o' + z < 2147483648"
  shows "\<exists>s'. sfs_read (path_text cs c @ 0 # r) (int z) (int o') s = Some ((int (length (mget o' z b)), mget o' z b), s')
     \<and> tree K s' \<and> abs_fs K s' = abs_fs K s"
proof -
  note d = file_atD[OF t n]
  obtain u where u: "path_to_inum (path_text cs c @ 0 # r) s = Some ((int x, int p), u)" "same_disk s u"
    using file_at_inum[OF t n] by blast
  note f = same_disk_frame[OF u(2)] file_same_disk[OF u(2)]
  have ok: "fs_ok u" "file_ok u x" "content u x = b" using f treeD(1)[OF t] d(10,11) by simp_all
  from fstream_read_ok[OF ok(1,2) z fsize_small(1)[OF ok(1,2)]] obtain v A where
    v: "fstream_read (int x) (int z) (int o') u = Some ((int (length (mget o' z b)), mget o' z b), u\<lparr>iblockbuf := v, f_arr := A\<rparr>)"
    "length A = ARR_BYTES" unfolding ok(3) by blast
  obtain w B where w: "length B = ARR_BYTES" "u = s\<lparr>iblockbuf := w, d_arr := B\<rparr>" using u(2) by (auto simp: same_disk_def)
  have e: "u\<lparr>iblockbuf := v, f_arr := A\<rparr> = s\<lparr>iblockbuf := v, d_arr := B, f_arr := A\<rparr>" by (simp add: w(2))
  have "sfs_read (path_text cs c @ 0 # r) (int z) (int o') s
      = Some ((int (length (mget o' z b)), mget o' z b), s\<lparr>iblockbuf := v, d_arr := B, f_arr := A\<rparr>)"
    using u(1) v(1) z by (simp add: sfs_read_def c_int_nat e)
  then show ?thesis using tree_buffers[OF t w(1) v(2), of v] by blast
qed

text \<open>A step on nodes the file system already has.\<close>

lemma wrote_touches:
  assumes t: "tree K s" and x: "K x = Some Fnode" and w: "wrote s x o' dat s'"
  shows "touches K {x} s s'"
proof -
  have f: "\<Union>(foot K s ` {x}) = insert x (nodes_of Fnode s x)" "\<Union>(blocks_of K s ` {x}) = set (file_blocks s x)"
    using x by (simp_all add: foot_def blocks_of_def)
  let ?e = "end_block o' (length dat)"
  have n: "free_list s' = drop (?e - entries_of s x) (free_list s)" "file_blocks s' x = future_blocks s x ?e"
    "free_inodes s' \<union> nodes_of Fnode s' x = free_inodes s \<union> nodes_of Fnode s x"
    "\<forall>m<4096. m \<notin> {0, x} \<union> free_inodes s \<union> nodes_of Fnode s x \<longrightarrow> inode_at s' m = inode_at s m"
    "\<forall>b>1024. b \<notin> unat ` set (file_blocks s' x) \<longrightarrow> file_blk s' b = file_blk s b" using w by (simp_all add: wrote_def)
  have b: "file_blk s' (unat y) = file_blk s (unat y) \<and> uint y \<notin> set (free_list s')"
    if y: "data_block y" "uint y \<notin> set (free_list s)" "y \<notin> set (file_blocks s x)" for y
  proof -
    have "y \<noteq> word_of_int a" if "a \<in> set (free_list s)" for a
      using free_list_words(2)[OF treeD(1)[OF t] that] that y(2) by auto
    then have "y \<notin> set (file_blocks s' x)" using y(3) by (auto simp: n(2) future_blocks_def dest: in_set_takeD)
    then have "unat y \<notin> unat ` set (file_blocks s' x)" by (auto simp flip: word_unat_eq_iff)
    then show ?thesis using n(5) y(1,2) by (auto simp: data_block_def n(1) dest: in_set_dropD)
  qed
  have "free_inodes s' \<subseteq> free_inodes s \<union> insert x (nodes_of Fnode s x)" using n(3) by blast
  then show ?thesis unfolding touches_def f using n(4) b by auto
qed

text \<open>A file changed in place.\<close>

lemma changed_tree:
  assumes t: "tree K s" and x: "K x = Some Fnode" and tc: "touches K {x} s s'" and u: "fs_ok s'" "ERRNO s' = 0" "file_ok s' x"
    and f: "nodes_of Fnode s' x \<subseteq> free_inodes s \<union> nodes_of Fnode s x"
    and b: "\<And>v. v \<in> set (file_blocks s' x) \<Longrightarrow> uint v \<in> set (free_list s) \<or> v \<in> set (file_blocks s x)"
    and o: "\<And>v. uint v \<in> set (free_list s) \<or> v \<in> set (file_blocks s x) \<Longrightarrow> uint v \<in> set (free_list s') \<or> v \<in> set (file_blocks s' x)"
  shows "tree K s'" "abs_fs K s' = (abs_fs K s)(x \<mapsto> AFile (content s' x))"
proof -
  have C: "{x} \<subseteq> dom K" "{} \<subseteq> free_inodes s" using x by auto
  have ax: "abs_fs K s x = Some (AFile (content s x))" using x by (simp add: abs_fs_def)
  show ab: "abs_fs K s' = (abs_fs K s)(x \<mapsto> AFile (content s' x))"
  proof
    fix y show "abs_fs K s' y = ((abs_fs K s)(x \<mapsto> AFile (content s' x))) y"
      using abs_other[OF t tc C(1), of "{}" K y] x by (cases "y = x") (simp_all add: abs_fs_def[of K s' x])
  qed
  have bx: "blocks_of K s x = set (file_blocks s x)" "blocks_of K s' x = set (file_blocks s' x)" using x by (simp_all add: blocks_of_def)
  show "tree K s'"
  proof (rule tree_step[OF t tc C u(1,2)])
    show "links_ok (abs_fs K s')" unfolding ab by (rule links_write[OF treeD(9)[OF t] ax])
    show "K 2 = Some Dnode" by (rule treeD(3)[OF t])
  next
    fix y assume y: "y \<in> {x} \<union> {}"
    then show "node_good K s' y" using x u(3) by (simp add: node_good_def file_ok_def)
    show "foot K s' y \<subseteq> free_inodes s \<union> \<Union> (foot K s ` {x})" using y f x by (auto simp: foot_def)
    show "uint v \<in> set (free_list s) \<or> v \<in> \<Union> (blocks_of K s ` {x})" if "v \<in> blocks_of K s' y" for v
      using that y b[of v] bx by simp
  next
    fix v assume "uint v \<in> set (free_list s) \<or> v \<in> \<Union> (blocks_of K s ` {x})"
    then show "uint v \<in> set (free_list s') \<or> v \<in> \<Union> (blocks_of K s' ` {x})" using o[of v] bx by simp
  qed simp_all
qed

lemma write_refines:
  assumes t: "tree K s" and n: "file_at (abs_fs K s) cs c p x b" and z: "0 < z" "z \<le> length buf" "o' \<le> length b" "o' + z < 2147483648"
    and room: "room_for_blocks s x ((o' + z - 1) div 512 + 1)"
  shows "\<exists>s'. sfs_write (path_text cs c @ 0 # r) buf (int z) (int o') s = Some (int z, s')
     \<and> tree K s' \<and> abs_fs K s' = a_write x o' (take z buf) (abs_fs K s)"
proof -
  note d = file_atD[OF t n]
  obtain u where u: "path_to_inum (path_text cs c @ 0 # r) s = Some ((int x, int p), u)" "same_disk s u"
    using file_at_inum[OF t n] by blast
  note f = same_disk_frame[OF u(2)] file_same_disk[OF u(2)]
  have ok: "fs_ok u" "ERRNO u = 0" "file_ok u x" "content u x = b" using f treeD(1,2)[OF t] d(10,11) by simp_all
  have sm: "fsize_of u x < 2147483648" "o' \<le> fsize_of u x" using fsize_small[OF ok(1,3)] ok(4) z(3) by simp_all
  have rm: "room_for_blocks u x ((o' + z - 1) div 512 + 1)" using room by (simp add: f)
  from fstream_write_content[OF ok(1-3) sm(2) z(4) sm(1) z(1,2) rm] obtain s' where
    s': "fstream_write (int x) buf (int z) (int o') u = Some (int z, s')" and w: "wrote u x o' (take z buf) s'" by blast
  have w: "wrote s x o' (take z buf) s'" using w by (simp add: wrote_def f)
  have run: "sfs_write (path_text cs c @ 0 # r) buf (int z) (int o') s = Some (int z, s')"
    using u(1) s' z by (simp add: sfs_write_def c_int_nat)
  let ?n = "end_block o' (length (take z buf)) - entries_of s x"
  have ww: "fs_ok s'" "ERRNO s' = 0" "file_ok s' x" "content s' x = mput o' (take z buf) b"
    "free_inodes s' \<union> nodes_of Fnode s' x = free_inodes s \<union> nodes_of Fnode s x"
    "file_blocks s' x = file_blocks s x @ map word_of_int (take ?n (free_list s))" "free_list s' = drop ?n (free_list s)"
    using w treeD(2)[OF t] d(10) by (simp_all add: wrote_def future_blocks_def)
  have fl: "set (free_list s) = set (take ?n (free_list s)) \<union> set (free_list s')" unfolding ww(7) by (metis append_take_drop_id set_append)
  have nd: "nodes_of Fnode s' x \<subseteq> free_inodes s \<union> nodes_of Fnode s x" using ww(5) by blast
  have b: "uint v \<in> set (free_list s) \<or> v \<in> set (file_blocks s x)" if "v \<in> set (file_blocks s' x)" for v
    using that free_list_words(2)[OF treeD(1)[OF t]] by (auto simp: ww(6) dest: in_set_takeD)
  have o: "uint v \<in> set (free_list s') \<or> v \<in> set (file_blocks s' x)" if "uint v \<in> set (free_list s) \<or> v \<in> set (file_blocks s x)" for v
    using that fl image_eqI[of v word_of_int "uint v" "set (take ?n (free_list s))"] by (auto simp: ww(6))
  note g = changed_tree[OF t d(5) wrote_touches[OF t d(5) w] ww(1-3) nd b o]
  have "abs_fs K s x = Some (AFile b)" using d(5,10) by (simp add: abs_fs_def)
  then show ?thesis using run g ww(4) by (auto simp: a_write_def)
qed

lemma truncated_touches:
  assumes t: "tree K s" and x: "K x = Some Fnode" and w: "truncated s x o' s'"
  shows "touches K {x} s s'"
proof -
  let ?n = "o' div 512 + 1"
  have f: "\<Union>(foot K s ` {x}) = insert x (nodes_of Fnode s x)" "\<Union>(blocks_of K s ` {x}) = set (file_blocks s x)"
    using x by (simp_all add: foot_def blocks_of_def)
  have n: "free_list s' = rev (map uint (drop ?n (file_blocks s x))) @ free_list s"
    "free_inodes s' \<union> nodes_of Fnode s' x \<subseteq> free_inodes s \<union> nodes_of Fnode s x"
    "\<forall>m<4096. m \<notin> {0, x} \<union> free_inodes s \<union> nodes_of Fnode s x \<longrightarrow> inode_at s' m = inode_at s m"
    "\<forall>b>1024. b \<notin> unat ` set (drop ?n (file_blocks s x)) \<longrightarrow> file_blk s' b = file_blk s b" using w by (simp_all add: truncated_def Let_def)
  have b: "file_blk s' (unat y) = file_blk s (unat y) \<and> uint y \<notin> set (free_list s')"
    if y: "data_block y" "uint y \<notin> set (free_list s)" "y \<notin> set (file_blocks s x)" for y
  proof -
    have "y \<notin> set (drop ?n (file_blocks s x))" using y(3) by (auto dest: in_set_dropD)
    then have "unat y \<notin> unat ` set (drop ?n (file_blocks s x))" "uint y \<notin> uint ` set (drop ?n (file_blocks s x))"
      by (auto simp flip: word_unat_eq_iff word_uint_eq_iff)
    then show ?thesis using n(4) y(1,2) by (auto simp: data_block_def n(1))
  qed
  have "free_inodes s' \<subseteq> free_inodes s \<union> insert x (nodes_of Fnode s x)" using n(2) by blast
  then show ?thesis unfolding touches_def f using n(3) b by auto
qed

lemma truncate_refines:
  assumes t: "tree K s" and n: "file_at (abs_fs K s) cs c p x b" and z: "o' \<le> length b" "o' div 512 + 1 \<le> entries_of s x"
  shows "\<exists>s'. sfs_truncate (path_text cs c @ 0 # r) (int o') s = Some (0, s')
     \<and> tree K s' \<and> abs_fs K s' = a_truncate x o' (abs_fs K s)"
proof -
  note d = file_atD[OF t n]
  let ?n = "o' div 512 + 1"
  from sfs_truncate_ok[OF treeD(1)[OF t] d(1-3,6-8,11) z(2)] obtain s' where
    run: "sfs_truncate (path_text cs c @ 0 # r) (int o') s = Some (0, s')" and w: "truncated s x o' s'" by blast
  have ww: "fs_ok s'" "ERRNO s' = 0" "file_ok s' x" "content s' x = take o' (data_of s (file_blocks s x))"
    "free_inodes s' \<union> nodes_of Fnode s' x \<subseteq> free_inodes s \<union> nodes_of Fnode s x"
    "file_blocks s' x = take ?n (file_blocks s x)" "free_list s' = rev (map uint (drop ?n (file_blocks s x))) @ free_list s"
    using w treeD(2)[OF t] by (simp_all add: truncated_def Let_def)
  have "o' \<le> fsize_of s x" using z(1) fsize_small(2)[OF treeD(1)[OF t] d(11)] d(10) by simp
  then have "take o' b = take o' (data_of s (file_blocks s x))" unfolding d(10) content_def by (simp add: min_def)
  then have ct: "content s' x = take o' b" using ww(4) by simp
  have nd: "nodes_of Fnode s' x \<subseteq> free_inodes s \<union> nodes_of Fnode s x" using ww(5) by blast
  have b: "uint v \<in> set (free_list s) \<or> v \<in> set (file_blocks s x)" if "v \<in> set (file_blocks s' x)" for v
    using that by (auto simp: ww(6) dest: in_set_takeD)
  have sp: "set (file_blocks s x) = set (take ?n (file_blocks s x)) \<union> set (drop ?n (file_blocks s x))" by (metis append_take_drop_id set_append)
  have o: "uint v \<in> set (free_list s') \<or> v \<in> set (file_blocks s' x)" if "uint v \<in> set (free_list s) \<or> v \<in> set (file_blocks s x)" for v
    using that unfolding sp ww(6,7) by auto
  note g = changed_tree[OF t d(5) truncated_touches[OF t d(5) w] ww(1-3) nd b o]
  have "abs_fs K s x = Some (AFile b)" using d(5,10) by (simp add: abs_fs_def)
  then show ?thesis using run g ct by (auto simp: a_truncate_def)
qed

text \<open>Removing the only entry of a file.\<close>

lemma index_of:
  assumes "map_of es c = Some x" "distinct (map fst es)"
  shows "length (takeWhile (\<lambda>e. fst e \<noteq> c) es) < length es" "es ! length (takeWhile (\<lambda>e. fst e \<noteq> c) es) = (c, x)"
    "j < length es \<Longrightarrow> fst (es ! j) = c \<longleftrightarrow> j = length (takeWhile (\<lambda>e. fst e \<noteq> c) es)"
proof -
  let ?m = "length (takeWhile (\<lambda>e. fst e \<noteq> c) es)"
  have i: "(c, x) \<in> set es" using assms(1) by (rule map_of_SomeD)
  show m: "?m < length es"
  proof (rule ccontr)
    assume "\<not> ?m < length es"
    then have "takeWhile (\<lambda>e. fst e \<noteq> c) es = es" by (metis le_antisym length_takeWhile_le not_le takeWhile_eq_take take_all)
    then have "\<forall>e\<in>set es. fst e \<noteq> c" by (simp add: takeWhile_eq_all_conv)
    then show False using i by auto
  qed
  have c: "fst (es ! ?m) = c" using nth_length_takeWhile[of "\<lambda>e. fst e \<noteq> c" es] m by simp
  then have "map_of es c = Some (snd (es ! ?m))" using m assms(2) by (metis map_of_is_SomeI nth_mem prod.collapse)
  then show "es ! ?m = (c, x)" using c assms(1) by (metis option.inject prod.collapse)
  show "fst (es ! j) = c \<longleftrightarrow> j = ?m" if "j < length es"
    using nth_eq_iff_index_eq[OF assms(2), of j ?m] that m c by simp
qed

lemma abs_butlast: "m < length es \<Longrightarrow> map f (butlast (es[m := last es])) = butlast ((map f es)[m := last (map f es)])"
  by (cases "es = []") (auto simp: map_butlast map_update last_map)

lemma unlinked_touches:
  assumes t: "tree K s" and k: "K p = Some Dnode" "K x = Some Fnode" and u: "unlinked s p x m s'"
  shows "touches K {p, x} s s'"
proof -
  have f: "\<Union>(foot K s ` {p, x}) = {p, x} \<union> nodes_of Dnode s p \<union> nodes_of Fnode s x" "\<Union>(blocks_of K s ` {p, x}) = set (file_blocks s x)"
    using k by (auto simp: foot_def blocks_of_def)
  have n: "free_inodes s' \<union> nodes_of Dnode s' p \<subseteq> insert x (free_inodes s \<union> nodes_of Fnode s x) \<union> nodes_of Dnode s p"
    "free_list s' = rev (map uint (file_blocks s x)) @ free_list s"
    "\<forall>m<4096. m \<notin> {0, x, p} \<union> free_inodes s \<union> nodes_of Fnode s x \<union> nodes_of Dnode s p \<longrightarrow> inode_at s' m = inode_at s m"
    "\<forall>b>1024. b \<notin> unat ` set (file_blocks s x) \<longrightarrow> file_blk s' b = file_blk s b" using u by (simp_all add: unlinked_def)
  have b: "file_blk s' (unat y) = file_blk s (unat y) \<and> uint y \<notin> set (free_list s')"
    if y: "data_block y" "uint y \<notin> set (free_list s)" "y \<notin> set (file_blocks s x)" for y
  proof -
    have "unat y \<notin> unat ` set (file_blocks s x)" using y(3) by (auto simp flip: word_unat_eq_iff)
    moreover have "uint y \<notin> uint ` set (file_blocks s x)" using y(3) by (auto simp flip: word_uint_eq_iff)
    ultimately show ?thesis using n(4) y by (auto simp: data_block_def n(2))
  qed
  have "free_inodes s' \<subseteq> free_inodes s \<union> ({p, x} \<union> nodes_of Dnode s p \<union> nodes_of Fnode s x)" using n(1) by blast
  then show ?thesis unfolding touches_def f using n(3) b by auto
qed

lemma same_name_iff:
  assumes "length (name_of e) \<le> 13" "length c \<le> 13" "0 \<notin> set c"
  shows "same_name e (c @ 0 # r) \<longleftrightarrow> name_of e = c"
  using assms by (simp add: same_name_def name_of_def)

text \<open>The one entry of that name in a directory.\<close>

lemma dir_entry_index:
  assumes t: "tree K s" and p: "K p = Some Dnode" and e: "map_of (abs_entries s p) c = Some x" and c: "component c"
  defines "m \<equiv> length (takeWhile (\<lambda>e. fst e \<noteq> c) (abs_entries s p))"
  shows "m < entries_of s p" "abs_entries s p ! m = (c, x)"
    "\<forall>j<entries_of s p. same_name (dir_entries s p ! j) (c @ 0 # r) \<longleftrightarrow> j = m" "length c \<le> 13" "m < length (abs_entries s p)"
proof -
  have g: "dir_good s p" by (rule treeD(6)[OF t p])
  have ln: "length (abs_entries s p) = entries_of s p" by (simp add: abs_entries_def)
  have ds: "distinct (map fst (abs_entries s p))" using g by (simp add: abs_entries_def dir_good_def comp_def)
  note i = index_of[OF e ds, folded m_def, unfolded ln]
  show "m < entries_of s p" "abs_entries s p ! m = (c, x)" "m < length (abs_entries s p)" unfolding ln by (rule i(1), rule i(2), rule i(1))
  have nm: "fst (abs_entries s p ! j) = name_of (dir_entries s p ! j)" if "j < entries_of s p" for j
    using that by (simp add: abs_entries_def)
  have sh: "length (name_of (dir_entries s p ! j)) \<le> 13" if "j < entries_of s p" for j
    using g that by (simp add: dir_good_def)
  show l: "length c \<le> 13" using sh[OF i(1)] nm[OF i(1)] i(2) by simp
  have "0 \<notin> set c" using c by (simp add: component_def)
  then show "\<forall>j<entries_of s p. same_name (dir_entries s p ! j) (c @ 0 # r) \<longleftrightarrow> j = m"
    using same_name_iff sh nm i(3) l by simp
qed

lemma set_butlast_update: "set (butlast (es[m := last es])) \<subseteq> set es"
proof (cases "es = []")
  case False
  have "set (butlast (es[m := last es])) \<subseteq> set (es[m := last es])" by (auto dest: in_set_butlastD)
  also have "\<dots> \<subseteq> insert (last es) (set es)" by (rule set_update_subset_insert)
  finally show ?thesis using False by auto
qed simp

lemma distinct_butlast_update:
  assumes "distinct xs" "m < length xs"
  shows "distinct (butlast (xs[m := last xs]))"
proof (cases "m = length xs - 1")
  case True
  then have "xs[m := last xs] = xs" using assms(2) by (metis last_conv_nth length_0_conv less_nat_zero_code list_update_id)
  then show ?thesis using assms(1) by (simp add: distinct_butlast)
next
  case False
  have ne: "xs \<noteq> []" using assms(2) by auto
  define ys where "ys = butlast xs"
  have xs: "xs = ys @ [last xs]" using ne by (simp add: ys_def)
  have m: "m < length ys" using False assms(2) by (simp add: ys_def)
  have "butlast (xs[m := last xs]) = ys[m := last xs]" using m by (subst xs) (simp add: list_update_append)
  moreover have "distinct ys" "last xs \<notin> set ys" using assms(1) xs distinct_append[of ys "[last xs]"] by auto
  ultimately show ?thesis by (simp add: distinct_list_update)
qed

lemma entry_removed:
  assumes t: "tree K s" and p: "K p = Some Dnode" and m: "m < entries_of s p"
    and e: "dir_entries s' p = butlast ((dir_entries s p)[m := last (dir_entries s p)])"
  shows "dir_good s' p" "abs_entries s' p = butlast ((abs_entries s p)[m := last (abs_entries s p)])"
proof -
  have g: "dir_good s p" by (rule treeD(6)[OF t p])
  have m': "m < length (dir_entries s p)" using m by simp
  have "map name_of (dir_entries s' p) = butlast ((map name_of (dir_entries s p))[m := last (map name_of (dir_entries s p))])"
    unfolding e by (rule abs_butlast[OF m'])
  moreover have "distinct (butlast ((map name_of (dir_entries s p))[m := last (map name_of (dir_entries s p))]))"
    by (rule distinct_butlast_update) (use g m in \<open>simp_all add: dir_good_def\<close>)
  moreover have "set (dir_entries s' p) \<subseteq> set (dir_entries s p)" unfolding e by (rule set_butlast_update)
  ultimately show "dir_good s' p" using g unfolding dir_good_def by auto
  show "abs_entries s' p = butlast ((abs_entries s p)[m := last (abs_entries s p)])"
    unfolding abs_entries_def e by (rule abs_butlast[OF m'])
qed

text \<open>A node removed with its entry, whatever kind it has.\<close>

lemma removed_tree:
  assumes t: "tree K s" and p: "K p = Some Dnode" and x: "x \<in> dom K" "x \<noteq> p" "x \<noteq> 2" and tc: "touches K {p, x} s s'"
    and u: "fs_ok s'" "ERRNO s' = 0" "node_ok Dnode s' p" "nodes_of Dnode s' p \<subseteq> free_inodes s \<union> \<Union>(foot K s ` {p, x})"
    and e: "dir_entries s' p = butlast ((dir_entries s p)[m := last (dir_entries s p)])"
    and m: "m < entries_of s p" "snd (abs_entries s p ! m) = x" "\<And>d j. aref (abs_fs K s) d j x \<Longrightarrow> d = x \<or> d = p \<and> j = m"
    and o: "\<And>w. uint w \<in> set (free_list s) \<or> w \<in> blocks_of K s x \<Longrightarrow> uint w \<in> set (free_list s')"
  shows "tree (K(x := None)) s'"
    "abs_fs (K(x := None)) s' = (abs_fs K s)(p \<mapsto> ADir (butlast ((abs_entries s p)[m := last (abs_entries s p)])), x := None)"
proof -
  let ?K = "K(x := None)" and ?es = "abs_entries s p"
  note g = entry_removed[OF t p m(1) e]
  have C: "{p, x} \<subseteq> dom K" "{} \<subseteq> free_inodes s" using p x(1) by auto
  have same: "?K y = K y" if "y \<notin> {p, x} \<union> {}" for y using that by simp
  have A: "abs_fs K s p = Some (ADir ?es)" using p by (simp add: abs_fs_def)
  show ab: "abs_fs ?K s' = (abs_fs K s)(p \<mapsto> ADir (butlast (?es[m := last ?es])), x := None)"
  proof
    fix y show "abs_fs ?K s' y = ((abs_fs K s)(p \<mapsto> ADir (butlast (?es[m := last ?es])), x := None)) y"
      using abs_other[where N = "{}" and K' = ?K and y = y, OF t tc C(1) same] g(2) p x(2)
      by (cases "y = x"; cases "y = p") (simp_all add: abs_fs_def[of ?K s' x] abs_fs_def[of ?K s' p])
  qed
  have bp: "blocks_of K s p = {}" "blocks_of ?K s' p = {}" using p x(2) by (simp_all add: blocks_of_def)
  show "tree ?K s'"
  proof (rule tree_step[OF t tc C u(1,2)])
    have "m < length ?es" using m(1) by (simp add: abs_entries_def)
    then show "links_ok (abs_fs ?K s')" unfolding ab by (rule links_remove[OF treeD(9)[OF t] A x(2) _ m(2,3)])
    show "?K 2 = Some Dnode" using treeD(3)[OF t] x(3) by auto
  next
    fix y assume y: "y \<in> {p, x} \<union> {}"
    then show "node_good ?K s' y" using p x(2) u(3) g(1) by (auto simp: node_good_def)
    show "foot ?K s' y \<subseteq> free_inodes s \<union> \<Union> (foot K s ` {p, x})" if "y \<in> dom ?K"
      using y that u(4) p x(2) by (auto simp: foot_def)
    show "uint v \<in> set (free_list s) \<or> v \<in> \<Union> (blocks_of K s ` {p, x})" if "v \<in> blocks_of ?K s' y" for v
      using y that bp(2) by (auto simp: blocks_of_def split: if_splits)
  next
    fix y z assume "y \<in> {p, x} \<union> {}" "z \<in> {p, x} \<union> {}" "y \<in> dom ?K" "z \<in> dom ?K" "y \<noteq> z"
    then show "foot ?K s' y \<inter> foot ?K s' z = {} \<and> blocks_of ?K s' y \<inter> blocks_of ?K s' z = {}" by auto
  next
    fix v assume "uint v \<in> set (free_list s) \<or> v \<in> \<Union> (blocks_of K s ` {p, x})"
    then show "uint v \<in> set (free_list s') \<or> v \<in> \<Union> (blocks_of ?K s' ` {p, x})" using o[of v] bp(1) by auto
  qed (use same in simp)
qed

lemma unlink_refines:
  assumes t: "tree K s" and n: "file_at (abs_fs K s) cs c p x b"
  shows "\<exists>s'. sfs_unlink (path_text cs c @ 0 # r) s = Some (0, s')
     \<and> tree (K(x := None)) s' \<and> abs_fs (K(x := None)) s' = a_unlink p c (abs_fs K s)"
proof -
  note d = file_atD[OF t n]
  define m where "m = length (takeWhile (\<lambda>e. fst e \<noteq> c) (abs_entries s p))"
  note i = dir_entry_index[OF t d(4,9,2), folded m_def]
  have "foot K s p \<inter> foot K s x = {}" using d(4,5,12) by (intro treeD(7)[OF t]) auto
  then have dj: "({p} \<union> nodes_of Dnode s p) \<inter> ({x} \<union> nodes_of Fnode s x) = {}" using d(4,5) by (simp add: foot_def)
  from sfs_unlink_ok[OF treeD(1)[OF t] d(1-3,6-8,11) dj i(1) i(3)] obtain s' where
    run: "sfs_unlink (path_text cs c @ 0 # r) s = Some (0, s')" and u: "unlinked s p x m s'" by blast
  have A: "abs_fs K s p = Some (ADir (abs_entries s p))" "abs_fs K s x = Some (AFile b)" using d(4,5,10) by (simp_all add: abs_fs_def)
  have m: "snd (abs_entries s p ! m) = x" using i(2) by simp
  then have "aref (abs_fs K s) p m x" using A(1) i(5) by (simp add: aref_def)
  then have o: "d = x \<or> d = p \<and> j = m" if "aref (abs_fs K s) d j x" for d j
    using linksD(2)[OF treeD(9)[OF t] A(2) that] by blast
  have x: "x \<in> dom K" "x \<noteq> p" "x \<noteq> 2" using d(5,12) treeD(3)[OF t] by auto
  have uu: "fs_ok s'" "ERRNO s' = 0" "node_ok Dnode s' p" "dir_entries s' p = butlast ((dir_entries s p)[m := last (dir_entries s p)])"
    using u treeD(2)[OF t] by (simp_all add: unlinked_def)
  have "free_inodes s' \<union> nodes_of Dnode s' p \<subseteq> insert x (free_inodes s \<union> nodes_of Fnode s x) \<union> nodes_of Dnode s p"
    using u by (simp add: unlinked_def)
  then have nd: "nodes_of Dnode s' p \<subseteq> free_inodes s \<union> \<Union>(foot K s ` {p, x})" using d(4,5) by (auto simp: foot_def)
  have fl: "uint w \<in> set (free_list s')" if "uint w \<in> set (free_list s) \<or> w \<in> blocks_of K s x" for w
    using that u d(5) by (auto simp: unlinked_def blocks_of_def)
  note g = removed_tree[OF t d(4) x unlinked_touches[OF t d(4,5) u] uu(1-3) nd uu(4) i(1) m o fl]
  have "abs_fs (K(x := None)) s' = a_unlink p c (abs_fs K s)" using d(9) A(1) by (simp add: a_unlink_def g(2) m_def)
  then show ?thesis using run g(1) by blast
qed

section \<open>Removing a directory\<close>

text \<open>
  The directory a path leads to, when only its entry and its own entries lead to it: it is not the root, no directory below
  names it as its parent. Its inode stays allocated, outside the abstraction.
\<close>

definition dir_at :: "afs \<Rightarrow> byte list list \<Rightarrow> byte list \<Rightarrow> nat \<Rightarrow> nat \<Rightarrow> bool" where
  "dir_at A cs c p x \<longleftrightarrow> path_ok cs c \<and> c \<noteq> dot \<and> resolve A 2 cs = Some p \<and> x \<noteq> 2 \<and> x \<noteq> p \<and> (\<exists>fs. A x = Some (ADir fs))
     \<and> (\<exists>es. A p = Some (ADir es) \<and> map_of es c = Some x
         \<and> (\<forall>d j. aref A d j x \<longrightarrow> d = x \<or> d = p \<and> fst (es ! j) = c))"

lemma dir_atD:
  assumes t: "tree K s" and n: "dir_at (abs_fs K s) cs c p x"
  shows "\<forall>d\<in>set cs. component d" "component c" "length (path_text cs c) < PATH_MAX" "K p = Some Dnode" "K x = Some Dnode"
    "path_walk s 2 cs (int p)" "node_ok Dnode s p" "lookup_in s p c = int x" "node_ok Dnode s x" "map_of (abs_entries s p) c = Some x"
    "x \<noteq> p" "x \<noteq> 2" "\<And>d j. aref (abs_fs K s) d j x \<Longrightarrow> d = x \<or> d = p \<and> fst (abs_entries s p ! j) = c"
proof -
  show "\<forall>d\<in>set cs. component d" "component c" "length (path_text cs c) < PATH_MAX" and p: "K p = Some Dnode" and x: "K x = Some Dnode"
    and m: "map_of (abs_entries s p) c = Some x" and "x \<noteq> p" "x \<noteq> 2"
    using n by (auto simp: dir_at_def path_ok_def abs_dir)
  have r: "resolve (abs_fs K s) 2 cs = Some p" and c: "c \<noteq> dot" using n by (auto simp: dir_at_def)
  from resolve_walk[OF t r] show "path_walk s 2 cs (int p)" by simp
  show "node_ok Dnode s p" "node_ok Dnode s x" by (rule treeD(4)[OF t p], rule treeD(4)[OF t x])
  show "lookup_in s p c = int x" using lookup_abs[OF treeD(6)[OF t p], of c] m c by (simp add: alook_def)
  show "d = x \<or> d = p \<and> fst (abs_entries s p ! j) = c" if "aref (abs_fs K s) d j x" for d j
    using n that by (auto simp: dir_at_def abs_dir)
qed

lemma dir_removed_touches:
  assumes t: "tree K s" and k: "K p = Some Dnode" "K x = Some Dnode" and u: "dir_removed s p x m s'"
  shows "touches K {p, x} s s'"
proof -
  have f: "\<Union>(foot K s ` {p, x}) = {p, x} \<union> nodes_of Dnode s p \<union> nodes_of Dnode s x" using k by (auto simp: foot_def)
  have n: "kept s ({x, p} \<union> free_inodes s \<union> nodes_of Dnode s x \<union> nodes_of Dnode s p) s'"
    "free_inodes s' \<union> nodes_of Dnode s' p \<subseteq> free_inodes s \<union> nodes_of Dnode s x \<union> nodes_of Dnode s p"
    using u by (simp_all add: dir_removed_def)
  have "free_inodes s' \<subseteq> free_inodes s \<union> ({p, x} \<union> nodes_of Dnode s p \<union> nodes_of Dnode s x)" using n(2) by blast
  then show ?thesis unfolding touches_def f using n(1) by (auto simp: kept_def data_block_def)
qed

lemma rmdir_refines:
  assumes t: "tree K s" and n: "dir_at (abs_fs K s) cs c p x" and b: "length fbuf = 14"
  shows "\<exists>s'. sfs_rmdir (path_text cs c @ 0 # r) fbuf s = Some (0, s')
     \<and> tree (K(x := None)) s' \<and> abs_fs (K(x := None)) s' = a_unlink p c (abs_fs K s)"
proof -
  note d = dir_atD[OF t n]
  define m where "m = length (takeWhile (\<lambda>e. fst e \<noteq> c) (abs_entries s p))"
  note i = dir_entry_index[OF t d(4,10,2), folded m_def]
  have "foot K s p \<inter> foot K s x = {}" using d(4,5,11) by (intro treeD(7)[OF t]) auto
  then have dj: "({p} \<union> nodes_of Dnode s p) \<inter> ({x} \<union> nodes_of Dnode s x) = {}" using d(4,5) by (simp add: foot_def)
  have fb: "length c + 1 \<le> length fbuf" using i(4) b by simp
  from sfs_rmdir_ok[OF treeD(1)[OF t] d(1-3,6-9) dj i(1) i(3) fb] obtain s' where
    run: "sfs_rmdir (path_text cs c @ 0 # r) fbuf s = Some (0, s')" and u: "dir_removed s p x m s'" by blast
  have A: "abs_fs K s p = Some (ADir (abs_entries s p))" using d(4) by (simp add: abs_fs_def)
  have m: "snd (abs_entries s p ! m) = x" using i(2) by simp
  have ds: "distinct (map fst (abs_entries s p))"
    using treeD(6)[OF t d(4)] by (simp add: abs_entries_def dir_good_def comp_def)
  have o: "e = x \<or> e = p \<and> j = m" if a: "aref (abs_fs K s) e j x" for e j
  proof -
    have "j < length (abs_entries s p)" if "e = p" using a that A by (auto simp: aref_def)
    then show ?thesis using d(13)[OF a] index_of(3)[OF d(10) ds, folded m_def] by blast
  qed
  have x: "x \<in> dom K" using d(5) by auto
  have uu: "fs_ok s'" "ERRNO s' = 0" "node_ok Dnode s' p" "dir_entries s' p = butlast ((dir_entries s p)[m := last (dir_entries s p)])"
    using u treeD(2)[OF t] by (simp_all add: dir_removed_def kept_def)
  have "free_inodes s' \<union> nodes_of Dnode s' p \<subseteq> free_inodes s \<union> nodes_of Dnode s x \<union> nodes_of Dnode s p"
    using u by (simp add: dir_removed_def)
  then have nd: "nodes_of Dnode s' p \<subseteq> free_inodes s \<union> \<Union>(foot K s ` {p, x})" using d(4,5) by (auto simp: foot_def)
  have fl: "uint w \<in> set (free_list s')" if "uint w \<in> set (free_list s) \<or> w \<in> blocks_of K s x" for w
    using that u d(5) by (simp add: dir_removed_def kept_def blocks_of_def)
  note g = removed_tree[OF t d(4) x d(11,12) dir_removed_touches[OF t d(4,5) u] uu(1-3) nd uu(4) i(1) m o fl]
  have "abs_fs (K(x := None)) s' = a_unlink p c (abs_fs K s)" using d(10) A(1) by (simp add: a_unlink_def g(2) m_def)
  then show ?thesis using run g(1) by blast
qed

end
