(* ===== verification/FS_Session.thy ===== *)
theory FS_Session
  imports FS_Refine
begin

text \<open>
  Sessions: sequences of requests through the operation table. The specification is a transition relation over
  the abstract file system (\<open>a_oper\<close>); a request whose names are right and for which the device has
  room (\<open>served\<close>) returns, keeps the invariant and is one of its transitions.
\<close>

section \<open>The specification\<close>

definition entry_at :: "afs \<Rightarrow> byte list list \<Rightarrow> byte list \<Rightarrow> nat \<Rightarrow> nat \<Rightarrow> bool" where
  "entry_at A cs c p x \<longleftrightarrow> path_ok cs c \<and> resolve A 2 cs = Some p \<and> (\<exists>es. A p = Some (ADir es) \<and> alook p es c = Some x)"

definition no_entry :: "afs \<Rightarrow> byte list list \<Rightarrow> byte list \<Rightarrow> nat \<Rightarrow> bool" where
  "no_entry A cs c p \<longleftrightarrow> path_ok cs c \<and> resolve A 2 cs = Some p \<and> (\<exists>es. A p = Some (ADir es) \<and> alook p es c = None)"

text \<open>The requests that only look whether the path leads anywhere.\<close>

fun looks :: "request \<Rightarrow> byte list option" where
  "looks (Getattr p u g) = Some p"
| "looks (Open p) = Some p"
| "looks (Opendir p) = Some p"
| "looks _ = None"

inductive a_oper :: "request \<Rightarrow> afs \<Rightarrow> int \<Rightarrow> afs \<Rightarrow> bool" where
  a_creates: "new_name A cs c p \<Longrightarrow> A x = None \<Longrightarrow> a_oper (Create (path_text cs c @ 0 # r)) A 0 (a_create p c x A)"
| a_makes: "new_name A cs c p \<Longrightarrow> A x = None \<Longrightarrow> a_oper (Mkdir (path_text cs c @ 0 # r) fb) A 0 (a_mkdir p c x A)"
| a_writes: "file_at A cs c p x b \<Longrightarrow> o' \<le> length b \<Longrightarrow> z \<le> length buf \<Longrightarrow>
    a_oper (Write (path_text cs c @ 0 # r) buf (int z) (int o')) A (int z) (a_write x o' (take z buf) A)"
| a_reads: "file_at A cs c p x b \<Longrightarrow> a_oper (Read (path_text cs c @ 0 # r) (int z) (int o')) A (int (length (mget o' z b))) A"
| a_truncates: "file_at A cs c p x b \<Longrightarrow> o' \<le> length b \<Longrightarrow> a_oper (Truncate (path_text cs c @ 0 # r) (int o')) A 0 (a_truncate x o' A)"
| a_unlinks: "file_at A cs c p x b \<Longrightarrow> a_oper (Unlink (path_text cs c @ 0 # r)) A 0 (a_unlink p c A)"
| a_removes: "dir_at A cs c p x \<Longrightarrow> a_oper (Rmdir (path_text cs c @ 0 # r) fb) A 0 (a_unlink p c A)"
| a_looks: "entry_at A cs c p x \<Longrightarrow> looks req = Some (path_text cs c @ 0 # r) \<Longrightarrow> a_oper req A 0 A"
| a_lists: "entry_at A cs c p x \<Longrightarrow> A x = Some (ADir es) \<Longrightarrow> a_oper (Readdir (path_text cs c @ 0 # r)) A 0 A"
| a_misses: "no_entry A cs c p \<Longrightarrow> wants req = Some (path_text cs c @ 0 # r) \<Longrightarrow> a_oper req A (- ENOENT) A"
| a_clashes: "entry_at A cs c p x \<Longrightarrow> a_oper (Create (path_text cs c @ 0 # r)) A (- EEXIST) A"
| a_clashes_dir: "entry_at A cs c p x \<Longrightarrow> a_oper (Mkdir (path_text cs c @ 0 # r) fb) A (- EEXIST) A"

section \<open>Requests that are served\<close>

text \<open>
  What the code needs beyond the specification: room in the directory and on the device, sizes below \<open>2^31\<close>, and
  readable memory behind the name (\<open>di_ent_c\<close> copies 14 bytes). The last argument is the kinds afterwards.
\<close>

inductive served :: "kinds \<Rightarrow> fs \<Rightarrow> request \<Rightarrow> kinds \<Rightarrow> bool" for K s where
  s_create: "new_name (abs_fs K s) cs c p \<Longrightarrow> room_for_entry s p \<Longrightarrow> 14 \<le> length (c @ 0 # r) \<Longrightarrow>
    served K s (Create (path_text cs c @ 0 # r)) (K(Min (free_inodes s) \<mapsto> Fnode))"
| s_mkdir: "new_name (abs_fs K s) cs c p \<Longrightarrow> room_for_entry s p \<Longrightarrow> length fb = 14 \<Longrightarrow>
    served K s (Mkdir (path_text cs c @ 0 # r) fb) (K(Min (free_inodes s) \<mapsto> Dnode))"
| s_write: "file_at (abs_fs K s) cs c p x b \<Longrightarrow> 0 < z \<Longrightarrow> z \<le> length buf \<Longrightarrow> o' \<le> length b \<Longrightarrow> o' + z < 2147483648 \<Longrightarrow>
    room_for_blocks s x ((o' + z - 1) div 512 + 1) \<Longrightarrow> served K s (Write (path_text cs c @ 0 # r) buf (int z) (int o')) K"
| s_read: "file_at (abs_fs K s) cs c p x b \<Longrightarrow> o' + z < 2147483648 \<Longrightarrow> served K s (Read (path_text cs c @ 0 # r) (int z) (int o')) K"
| s_truncate: "file_at (abs_fs K s) cs c p x b \<Longrightarrow> o' \<le> length b \<Longrightarrow> o' div 512 + 1 \<le> entries_of s x \<Longrightarrow>
    served K s (Truncate (path_text cs c @ 0 # r) (int o')) K"
| s_unlink: "file_at (abs_fs K s) cs c p x b \<Longrightarrow> served K s (Unlink (path_text cs c @ 0 # r)) (K(x := None))"
| s_rmdir: "dir_at (abs_fs K s) cs c p x \<Longrightarrow> length fb = 14 \<Longrightarrow> served K s (Rmdir (path_text cs c @ 0 # r) fb) (K(x := None))"
| s_look: "entry_at (abs_fs K s) cs c p x \<Longrightarrow> looks req = Some (path_text cs c @ 0 # r) \<Longrightarrow> served K s req K"
| s_list: "entry_at (abs_fs K s) cs c p x \<Longrightarrow> K x = Some Dnode \<Longrightarrow> served K s (Readdir (path_text cs c @ 0 # r)) K"
| s_miss: "no_entry (abs_fs K s) cs c p \<Longrightarrow> wants req = Some (path_text cs c @ 0 # r) \<Longrightarrow> served K s req K"
| s_clash: "entry_at (abs_fs K s) cs c p x \<Longrightarrow> served K s (Create (path_text cs c @ 0 # r)) K"
| s_clash_dir: "entry_at (abs_fs K s) cs c p x \<Longrightarrow> length c \<le> 13 \<Longrightarrow> length fb = 14 \<Longrightarrow>
    served K s (Mkdir (path_text cs c @ 0 # r) fb) K"

lemma tree_same_disk:
  assumes t: "tree K s" and u: "same_disk s u"
  shows "tree K u" "abs_fs K u = abs_fs K s"
proof -
  obtain b A where "length A = ARR_BYTES" "u = s\<lparr>iblockbuf := b, d_arr := A\<rparr>" using u by (auto simp: same_disk_def)
  moreover have "length (f_arr s) = ARR_BYTES" using treeD(1)[OF t] by (simp add: fs_ok_def)
  ultimately show "tree K u" "abs_fs K u = abs_fs K s" using tree_buffers[OF t, of A "f_arr s" b] by simp_all
qed

text \<open>An entry leads to a node.\<close>

lemma entry_atD:
  assumes t: "tree K s" and n: "entry_at (abs_fs K s) cs c p x"
  shows "\<forall>d\<in>set cs. component d" "component c" "length (path_text cs c) < PATH_MAX" "path_walk s 2 cs (int p)" "node_ok Dnode s p"
    "lookup_in s p c = int x" "x \<in> dom K"
proof -
  show "\<forall>d\<in>set cs. component d" "component c" "length (path_text cs c) < PATH_MAX" using n by (auto simp: entry_at_def path_ok_def)
  have r: "resolve (abs_fs K s) 2 cs = Some p" and p: "K p = Some Dnode" and l: "alook p (abs_entries s p) c = Some x"
    using n by (auto simp: entry_at_def abs_dir)
  from resolve_walk[OF t r] show "path_walk s 2 cs (int p)" by simp
  show "node_ok Dnode s p" by (rule treeD(4)[OF t p])
  show "lookup_in s p c = int x" using lookup_abs[OF treeD(6)[OF t p], of c] l by simp
  show "x \<in> dom K"
  proof (cases "c = dot")
    case True
    then show ?thesis using l p by (auto simp: alook_def)
  next
    case False
    then have "(c, x) \<in> set (abs_entries s p)" using l by (auto simp: alook_def dest: map_of_SomeD)
    then obtain j where "j < length (abs_entries s p)" "snd (abs_entries s p ! j) = x" by (metis in_set_conv_nth snd_conv)
    then have "aref (abs_fs K s) p j x" using p by (auto simp: aref_def abs_dir)
    then have "x \<in> dom (abs_fs K s)" by (rule linksD(1)[OF treeD(9)[OF t]])
    then show ?thesis by (auto simp: abs_fs_def split: option.splits)
  qed
qed

lemma no_entryD:
  assumes t: "tree K s" and n: "no_entry (abs_fs K s) cs c p"
  shows "\<forall>d\<in>set cs. component d" "component c" "length (path_text cs c) < PATH_MAX" "path_walk s 2 cs (int p)" "node_ok Dnode s p"
    "lookup_in s p c = -1"
proof -
  show "\<forall>d\<in>set cs. component d" "component c" "length (path_text cs c) < PATH_MAX" using n by (auto simp: no_entry_def path_ok_def)
  have r: "resolve (abs_fs K s) 2 cs = Some p" and p: "K p = Some Dnode" and l: "alook p (abs_entries s p) c = None"
    using n by (auto simp: no_entry_def abs_dir)
  from resolve_walk[OF t r] show "path_walk s 2 cs (int p)" by simp
  show "node_ok Dnode s p" by (rule treeD(4)[OF t p])
  show "lookup_in s p c = -1" using lookup_abs[OF treeD(6)[OF t p], of c] l by simp
qed

lemma look_ok:
  assumes t: "tree K s" and n: "entry_at (abs_fs K s) cs c p x" and q: "looks req = Some (path_text cs c @ 0 # r)"
  shows "\<exists>u. sfs_oper req s = Some (0, u) \<and> same_disk s u"
proof -
  note d = entry_atD[OF t n]
  obtain k where k: "node_ok k s x" using d(7) treeD(4)[OF t] by blast
  obtain u where u: "path_to_inum (path_text cs c @ 0 # r) s = Some ((int x, int p), u)" "same_disk s u"
    using path_resolves[OF treeD(1)[OF t] d(1-5)] d(6) by metis
  show ?thesis
  proof (cases req)
    case (Getattr q a b)
    then have "q = path_text cs c @ 0 # r" using assms(3) by simp
    then show ?thesis using sfs_getattr_ok[OF treeD(1)[OF t] d(1-6) k, of r a b] Getattr by (auto simp: drop_out_def)
  qed (use q u in \<open>auto simp: sfs_open_def sfs_opendir_def\<close>)
qed

lemma served_same:
  assumes "tree K s" "\<exists>u. sfs_oper req s = Some (v, u) \<and> same_disk s u" "a_oper req (abs_fs K s) v (abs_fs K s)"
  shows "\<exists>u. sfs_oper req s = Some (v, u) \<and> tree K u \<and> a_oper req (abs_fs K s) v (abs_fs K u)"
  using assms tree_same_disk[OF assms(1)] by metis

lemma clash_ok:
  assumes t: "tree K s" and n: "entry_at (abs_fs K s) cs c p x"
  shows "\<exists>u. sfs_oper (Create (path_text cs c @ 0 # r)) s = Some (- EEXIST, u) \<and> same_disk s u"
    "length c \<le> 13 \<Longrightarrow> length fb = 14 \<Longrightarrow> \<exists>u. sfs_oper (Mkdir (path_text cs c @ 0 # r) fb) s = Some (- EEXIST, u) \<and> same_disk s u"
proof -
  note d = entry_atD[OF t n]
  obtain k where "node_ok k s x" using d(7) treeD(4)[OF t] by blast
  then have x: "0 < int x" by (simp add: node_ok_def)
  obtain u where u: "path_to_inum (path_text cs c @ 0 # r) s = Some ((int x, int p), u)" "same_disk s u"
    using path_resolves[OF treeD(1)[OF t] d(1-5)] d(6) by metis
  note e = request_eexist[OF u(1) x]
  show "\<exists>u. sfs_oper (Create (path_text cs c @ 0 # r)) s = Some (- EEXIST, u) \<and> same_disk s u" using e(1) u(2) by blast
  assume "length c \<le> 13" "length fb = 14"
  then have "path_basename (path_text cs c @ 0 # r) fb \<noteq> None" using path_basename_path[OF d(1,2), of fb r] by auto
  then show "\<exists>u. sfs_oper (Mkdir (path_text cs c @ 0 # r) fb) s = Some (- EEXIST, u) \<and> same_disk s u" using e(2) u(2) by blast
qed

lemma served_ok:
  assumes t: "tree K s" and v: "served K s req K'"
  shows "\<exists>v u. sfs_oper req s = Some (v, u) \<and> tree K' u \<and> a_oper req (abs_fs K s) v (abs_fs K' u)"
  using v
proof cases
  case (s_create cs c p r)
  from create_refines[OF t s_create(3-5) refl] obtain u where u: "sfs_oper req s = Some (0, u)" "K (Min (free_inodes s)) = None" "tree K' u"
    "abs_fs K' u = a_create p c (Min (free_inodes s)) (abs_fs K s)" using s_create(1,2) by auto
  have "a_oper req (abs_fs K s) 0 (abs_fs K' u)" unfolding u(4) s_create(1)
    by (rule a_creates[OF s_create(3)]) (simp add: abs_fs_def u(2))
  then show ?thesis using u by blast
next
  case (s_mkdir cs c p fb r)
  from mkdir_refines[OF t s_mkdir(3-5) refl, of r] obtain u where u: "sfs_oper req s = Some (0, u)" "K (Min (free_inodes s)) = None" "tree K' u"
    "abs_fs K' u = a_mkdir p c (Min (free_inodes s)) (abs_fs K s)" using s_mkdir(1,2) by auto
  have "a_oper req (abs_fs K s) 0 (abs_fs K' u)" unfolding u(4) s_mkdir(1)
    by (rule a_makes[OF s_mkdir(3)]) (simp add: abs_fs_def u(2))
  then show ?thesis using u by blast
next
  case (s_write cs c p x b z buf o' r)
  from write_refines[OF t s_write(3-8), of r] obtain u where u: "sfs_oper req s = Some (int z, u)" "tree K u"
    "abs_fs K u = a_write x o' (take z buf) (abs_fs K s)" using s_write(1) by auto
  then show ?thesis using a_writes[OF s_write(3,6,5), of r] s_write(1,2) by auto
next
  case (s_read cs c p x b o' z r)
  from read_refines[OF t s_read(3,4), of r] obtain u where u: "sfs_oper req s = Some (int (length (mget o' z b)), u)" "tree K u"
    "abs_fs K u = abs_fs K s" using s_read(1) by (auto simp: drop_out_def)
  then show ?thesis using a_reads[OF s_read(3), of r z o'] s_read(1,2) by auto
next
  case (s_truncate cs c p x b o' r)
  from truncate_refines[OF t s_truncate(3-5), of r] obtain u where u: "sfs_oper req s = Some (0, u)" "tree K u"
    "abs_fs K u = a_truncate x o' (abs_fs K s)" using s_truncate(1) by auto
  then show ?thesis using a_truncates[OF s_truncate(3,4), of r] s_truncate(1,2) by auto
next
  case (s_unlink cs c p x b r)
  from unlink_refines[OF t s_unlink(3), of r] show ?thesis using a_unlinks[OF s_unlink(3), of r] s_unlink(1,2) by auto
next
  case (s_rmdir cs c p x fb r)
  from rmdir_refines[OF t s_rmdir(3,4), of r] show ?thesis using a_removes[OF s_rmdir(3), of r fb] s_rmdir(1,2) by auto
next
  case (s_look cs c p x r)
  then show ?thesis using served_same[OF t look_ok[OF t s_look(2,3)] a_looks[OF s_look(2,3)]] by blast
next
  case (s_list cs c p x r)
  note d = entry_atD[OF t s_list(3)]
  have l: "\<exists>u. sfs_oper (Readdir (path_text cs c @ 0 # r)) s = Some (0, u) \<and> same_disk s u"
    using sfs_readdir_ok[OF treeD(1)[OF t] d(1-6) treeD(4)[OF t s_list(4)], of r] by (auto simp: drop_out_def)
  have "abs_fs K s x = Some (ADir (abs_entries s x))" using s_list(4) by (simp add: abs_fs_def)
  then show ?thesis using served_same[OF t l a_lists[OF s_list(3)]] s_list(1,2) by blast
next
  case (s_miss cs c p r)
  note d = no_entryD[OF t s_miss(2)]
  have "\<exists>u. sfs_oper req s = Some (- ENOENT, u) \<and> same_disk s u"
    using path_resolves[OF treeD(1)[OF t] d(1-5)] d(6) request_enoent[OF s_miss(3)] by metis
  then show ?thesis using served_same[OF t _ a_misses[OF s_miss(2,3)]] s_miss(1) by blast
next
  case (s_clash cs c p x r)
  then show ?thesis using served_same[OF t clash_ok(1)[OF t s_clash(3)] a_clashes[OF s_clash(3)]] by blast
next
  case (s_clash_dir cs c p x fb r)
  then show ?thesis using served_same[OF t clash_ok(2)[OF t s_clash_dir(3-5)] a_clashes_dir[OF s_clash_dir(3)]] by blast
qed

section \<open>Sessions\<close>

text \<open>Requests with their results, one after the other, on the code's model and on the specification.\<close>

inductive session :: "kinds \<Rightarrow> fs \<Rightarrow> (request \<times> int) list \<Rightarrow> kinds \<Rightarrow> fs \<Rightarrow> bool" where
  session_end: "session K s [] K s"
| session_more: "served K s req K' \<Longrightarrow> sfs_oper req s = Some (v, t) \<Longrightarrow> session K' t es K'' u \<Longrightarrow> session K s ((req, v) # es) K'' u"

inductive a_session :: "afs \<Rightarrow> (request \<times> int) list \<Rightarrow> afs \<Rightarrow> bool" where
  a_end: "a_session A [] A"
| a_more: "a_oper req A v B \<Longrightarrow> a_session B es C \<Longrightarrow> a_session A ((req, v) # es) C"

lemma session_ok:
  "session K s es K' u \<Longrightarrow> tree K s \<Longrightarrow> tree K' u \<and> a_session (abs_fs K s) es (abs_fs K' u)"
proof (induction rule: session.induct)
  case (session_more K s req K' v t es K'' u)
  obtain w y where "sfs_oper req s = Some (w, y)" "tree K' y" "a_oper req (abs_fs K s) w (abs_fs K' y)"
    using served_ok[OF session_more.prems session_more.hyps(1)] by blast
  then have "tree K' t" "a_oper req (abs_fs K s) v (abs_fs K' t)" using session_more.hyps(2) by simp_all
  then show ?case using session_more.IH a_more by blast
qed (simp add: a_end)

section \<open>A fresh file system\<close>

definition fresh_kinds :: kinds where "fresh_kinds = [2 \<mapsto> Dnode]"

lemma mounted_abs: "abs_fs fresh_kinds mounted = [2 \<mapsto> ADir [(dot, 2), (dot @ dot, 2)]]"
proof
  fix x show "abs_fs fresh_kinds mounted x = [2 \<mapsto> ADir [(dot, 2), (dot @ dot, 2)]] x"
    by (simp add: abs_fs_def fresh_kinds_def abs_entries_def root_entries name_of_def dot_name_def dotdot_name_def cstr_Cons dot_def zeros_def)
qed

lemma mounted_tree: "tree fresh_kinds mounted"
proof -
  have "dir_good mounted 2"
    by (simp add: dir_good_def root_entries name_of_def dot_name_def dotdot_name_def cstr_Cons zeros_def)
  then have n: "node_good fresh_kinds mounted x" for x
    using node_ok_root(1) by (simp add: node_good_def fresh_kinds_def)
  have "aref [2 \<mapsto> ADir [(dot, 2), (dot @ dot, 2)]] d j x \<Longrightarrow> x = 2" for d j x
    by (auto simp: aref_def less_Suc_eq split: if_splits)
  then have l: "links_ok (abs_fs fresh_kinds mounted)" unfolding mounted_abs links_ok_def by (auto split: if_splits)
  have "uint w \<in> set (blocks_from 1025)" if "data_block w" for w
    unfolding blocks_from_def set_map set_upt
    by (rule image_eqI[where x = "unat w"]) (use that in \<open>simp_all add: uint_nat[symmetric] data_block_def\<close>)
  then have "blocks_kept fresh_kinds mounted" by (simp add: blocks_kept_def mounted(2))
  then show ?thesis using n l mounted(1,5) by (simp add: tree_def) (simp add: fresh_kinds_def)
qed

lemma new_a: "new_name (abs_fs fresh_kinds mounted) [] [97] 2"
  using a_path(1-3) by (simp add: new_name_def path_ok_def mounted_abs alook_def dot_def)

lemma mounted_min: "Min (free_inodes mounted) = 3"
  using a_path(6) by simp

text \<open>The abstract file system with the file \<open>/a\<close>.\<close>

definition a_abs :: "byte list \<Rightarrow> afs" where
  "a_abs b = [2 \<mapsto> ADir [(dot, 2), (dot @ dot, 2), ([97], 3)], 3 \<mapsto> AFile b]"

lemma a_abs: "file_at (a_abs b) [] [97] 2 3 b"
  using a_path(1-3) by (simp add: file_at_def path_ok_def a_abs_def alook_def dot_def)

lemma a_create_abs: "a_create 2 [97] 3 (abs_fs fresh_kinds mounted) = a_abs []"
  by (simp add: a_create_def mounted_abs a_abs_def fun_upd_twist)

lemma a_session_start:
  "\<exists>s. sfs_create a_text mounted = Some (0, s) \<and> tree (fresh_kinds(3 \<mapsto> Fnode)) s \<and> abs_fs (fresh_kinds(3 \<mapsto> Fnode)) s = a_abs []
     \<and> room_for_blocks s 3 1"
proof -
  have l: "14 \<le> length ([97] @ 0 # zeros 19)" by simp
  from create_refines[OF mounted_tree new_a root_room l refl] obtain s where
    s: "sfs_create a_text mounted = Some (0, s)" "tree (fresh_kinds(3 \<mapsto> Fnode)) s" "abs_fs (fresh_kinds(3 \<mapsto> Fnode)) s = a_abs []"
    unfolding mounted_min a_create_abs a_text_def by blast
  from a_file obtain u where u: "sfs_create a_text mounted = Some (0, u)" "entries_of u 3 = 0" "free_list u = blocks_from 1025" by blast
  then have e: "entries_of s 3 = 0" "free_list s = blocks_from 1025" using s(1) by simp_all
  then have "room_for_blocks s 3 1" by (simp add: room_for_blocks_def pages_of_def npages_def need_def ndouble_def)
  then show ?thesis using s by blast
qed

lemma resolve_write: "A x = Some (AFile b) \<Longrightarrow> resolve (A(x \<mapsto> AFile b')) i cs = resolve A i cs"
  by (induction cs arbitrary: i) (auto split: option.splits anode.splits)

lemma file_at_write:
  assumes "file_at A cs c p x b"
  shows "file_at (a_write x o' dat A) cs c p x (mput o' dat b)"
proof -
  have x: "A x = Some (AFile b)" using assms by (simp add: file_at_def)
  then show ?thesis using assms resolve_write[where A = A, OF x] by (auto simp: file_at_def a_write_def)
qed

lemma a_abs_write: "a_write 3 0 dat (a_abs b) = a_abs (mput 0 dat b)"
  by (simp add: a_write_def a_abs_def)

lemma a_session_run:
  "\<exists>K s. session fresh_kinds mounted
     [(Create a_text, 0), (Write a_text [1, 2, 3, 4] 4 0, 4), (Read a_text 9 1, 3), (Mkdir a_text (zeros 14), -17),
      (Unlink a_text, 0), (Unlink a_text, -2)] K s"
proof -
  let ?K = "fresh_kinds(3 \<mapsto> Fnode)" and ?T = "path_text [] [97] @ 0 # zeros 19"
  note T = a_text_def[symmetric]
  obtain s where s: "sfs_create a_text mounted = Some (0, s)" "tree ?K s" "abs_fs ?K s = a_abs []" "room_for_blocks s 3 1"
    using a_session_start by blast
  have l: "14 \<le> length ([97] @ 0 # zeros 19)" by simp
  have v1: "served fresh_kinds mounted (Create a_text) ?K"
    using s_create[OF new_a root_room l] by (simp only: mounted_min T)
  have f1: "file_at (abs_fs ?K s) [] [97] 2 3 []" by (simp add: s(3) a_abs)
  have v2: "served ?K s (Write a_text [1, 2, 3, 4] 4 0) ?K"
    using s_write[OF f1, of 4 "[1, 2, 3, 4]" 0 "zeros 19"] s(4) by (simp add: T)
  from write_refines[OF s(2) f1, of 4 "[1, 2, 3, 4]" 0 "zeros 19"] s(4) obtain t where
    t: "sfs_write a_text [1, 2, 3, 4] 4 0 s = Some (4, t)" "tree ?K t" "abs_fs ?K t = a_abs [1, 2, 3, 4]"
    by (auto simp: s(3) a_abs_write T mput_def)
  have f2: "file_at (abs_fs ?K t) [] [97] 2 3 [1, 2, 3, 4]" by (simp add: t(3) a_abs)
  have v3: "served ?K t (Read a_text 9 1) ?K" using s_read[OF f2, of 1 9 "zeros 19"] by (simp add: T)
  from read_refines[OF t(2) f2, of 1 9 "zeros 19"] obtain u where
    u: "sfs_oper (Read a_text 9 1) t = Some (3, u)" "tree ?K u" "abs_fs ?K u = a_abs [1, 2, 3, 4]"
    by (auto simp: t(3) T mget_def drop_out_def)
  have f3: "file_at (abs_fs ?K u) [] [97] 2 3 [1, 2, 3, 4]" by (simp add: u(3) a_abs)
  then have e3: "entry_at (abs_fs ?K u) [] [97] 2 3" by (auto simp: file_at_def entry_at_def)
  have v4: "served ?K u (Mkdir a_text (zeros 14)) ?K" using s_clash_dir[OF e3, of "zeros 14" "zeros 19"] by (simp add: T)
  obtain w where w: "sfs_oper (Mkdir a_text (zeros 14)) u = Some (-17, w)" "same_disk u w"
    using clash_ok(2)[OF u(2) e3, of "zeros 14" "zeros 19"] by (auto simp: T EEXIST_def)
  have tw: "tree ?K w" "abs_fs ?K w = a_abs [1, 2, 3, 4]" using tree_same_disk[OF u(2) w(2)] u(3) by simp_all
  have f4: "file_at (abs_fs ?K w) [] [97] 2 3 [1, 2, 3, 4]" by (simp add: tw(2) a_abs)
  let ?L = "?K(3 := None)"
  have v5: "served ?K w (Unlink a_text) ?L" using s_unlink[OF f4, of "zeros 19"] by (simp add: T)
  from unlink_refines[OF tw(1) f4, of "zeros 19"] obtain x where
    x: "sfs_unlink a_text w = Some (0, x)" "tree ?L x" "abs_fs ?L x = a_unlink 2 [97] (a_abs [1, 2, 3, 4])" by (auto simp: tw(2) T)
  have "abs_fs ?L x = [2 \<mapsto> ADir [(dot, 2), (dot @ dot, 2)]]" unfolding x(3) by (simp add: a_unlink_def a_abs_def dot_def fun_upd_twist)
  then have n: "no_entry (abs_fs ?L x) [] [97] 2" using a_path(1-3) by (simp add: no_entry_def path_ok_def alook_def dot_def)
  have v6: "served ?L x (Unlink a_text) ?L" using s_miss[OF n, of "Unlink a_text" "zeros 19"] by (simp add: T)
  note d = no_entryD[OF x(2) n]
  obtain y where y: "sfs_oper (Unlink a_text) x = Some (-2, y)"
    using path_resolves[OF treeD(1)[OF x(2)] d(1-5), of "zeros 19"] d(6) request_enoent[of "Unlink a_text" a_text x]
    by (metis T ENOENT_def wants.simps(2))
  have "session fresh_kinds mounted
     [(Create a_text, 0), (Write a_text [1, 2, 3, 4] 4 0, 4), (Read a_text 9 1, 3), (Mkdir a_text (zeros 14), -17),
      (Unlink a_text, 0), (Unlink a_text, -2)] ?L y"
    by (rule session_more[OF v1 _ session_more[OF v2 _ session_more[OF v3 u(1) session_more[OF v4 w(1)
          session_more[OF v5 _ session_more[OF v6 y session_end]]]]]]) (use s(1) t(1) x(1) in simp_all)
  then show ?thesis by blast
qed

text \<open>The file \<open>/a\<close> with four bytes in it.\<close>

lemma a_written:
  "\<exists>s. (\<exists>s0. sfs_create a_text mounted = Some (0, s0) \<and> sfs_write a_text [1, 2, 3, 4] 4 0 s0 = Some (4, s))
     \<and> tree (fresh_kinds(3 \<mapsto> Fnode)) s \<and> abs_fs (fresh_kinds(3 \<mapsto> Fnode)) s = a_abs [1, 2, 3, 4]"
proof -
  let ?K = "fresh_kinds(3 \<mapsto> Fnode)"
  obtain s where s: "sfs_create a_text mounted = Some (0, s)" "tree ?K s" "abs_fs ?K s = a_abs []" "room_for_blocks s 3 1"
    using a_session_start by blast
  have f: "file_at (abs_fs ?K s) [] [97] 2 3 []" by (simp add: s(3) a_abs)
  from write_refines[OF s(2) f, of 4 "[1, 2, 3, 4]" 0 "zeros 19"] s(1,4) show ?thesis
    by (auto simp: s(3) a_abs_write a_text_def mput_def)
qed

theorem sfs_truncate_spec_witness:
  "\<exists>s0 s t. sfs_create a_text mounted = Some (0, s0) \<and> sfs_write a_text [1, 2, 3, 4] 4 0 s0 = Some (4, s)
     \<and> sfs_truncate a_text 2 s = Some (0, t) \<and> content t 3 = [1, 2]"
proof -
  let ?K = "fresh_kinds(3 \<mapsto> Fnode)"
  obtain s0 s where s: "sfs_create a_text mounted = Some (0, s0)" "sfs_write a_text [1, 2, 3, 4] 4 0 s0 = Some (4, s)"
    "tree ?K s" "abs_fs ?K s = a_abs [1, 2, 3, 4]" using a_written by blast
  have f: "file_at (abs_fs ?K s) [] [97] 2 3 [1, 2, 3, 4]" by (simp add: s(4) a_abs)
  note d = file_atD[OF s(3) f]
  have z: "fsize_of s 3 = 4" using fsize_small(2)[OF treeD(1)[OF s(3)] d(11)] d(10)[symmetric] by simp
  then have e: "2 div 512 + 1 \<le> entries_of s 3" using d(11) by (simp add: file_ok_def)
  from sfs_truncate_spec[OF treeD(1)[OF s(3)] d(1-3,6-8,11) e, of "zeros 19"] obtain t where
    t: "sfs_truncate a_text 2 s = Some (0, t)" "truncated s 3 2 t" by (auto simp: a_text_def)
  have "content s 3 = [1, 2, 3, 4]" using d(10) by simp
  then have "take 2 (take 4 (data_of s (file_blocks s 3))) = [1, 2]" unfolding content_def z by simp
  then have "content t 3 = [1, 2]" using t(2) by (simp add: truncated_def Let_def)
  then show ?thesis using s(1,2) t(1) by blast
qed

section \<open>Properties\<close>

text \<open>
  C1. The code implements the abstract file system: in a sound state a request whose names are right, and for which the
  device has room, returns (nothing it does is undefined), leaves a sound state, and its result and its effect
  on the directories and file contents are those of the specification.
\<close>

theorem request_refines:
  assumes "tree K s" "served K s req K'"
  shows "\<exists>v u. sfs_oper req s = Some (v, u) \<and> tree K' u \<and> a_oper req (abs_fs K s) v (abs_fs K' u)"
  by (rule served_ok[OF assms])

theorem request_refines_witness:
  "\<exists>s v u. sfs_oper (Create a_text) mounted = Some (0, s) \<and> tree (fresh_kinds(3 \<mapsto> Fnode)) s
     \<and> sfs_oper (Write a_text [1, 2, 3, 4] 4 0) s = Some (v, u) \<and> tree (fresh_kinds(3 \<mapsto> Fnode)) u"
proof -
  let ?K = "fresh_kinds(3 \<mapsto> Fnode)"
  obtain s where s: "sfs_create a_text mounted = Some (0, s)" "tree ?K s" "abs_fs ?K s = a_abs []" "room_for_blocks s 3 1"
    using a_session_start by blast
  have f: "file_at (abs_fs ?K s) [] [97] 2 3 []" by (simp add: s(3) a_abs)
  have "served ?K s (Write a_text [1, 2, 3, 4] 4 0) ?K"
    using s_write[OF f, of 4 "[1, 2, 3, 4]" 0 "zeros 19"] s(4) by (simp add: a_text_def)
  from request_refines[OF s(2) this] s(1,2) show ?thesis by auto
qed

text \<open>
  C2. Any session of served requests, from a fresh file system or any sound state, keeps the invariant (nodes are well-formed,
  share no inode and no block, every entry leads to a node, no data block is lost) and is a session of the specification with
  the same results.
\<close>

theorem session_refines:
  assumes "tree K s" "session K s es K' u"
  shows "tree K' u \<and> a_session (abs_fs K s) es (abs_fs K' u)"
  by (rule session_ok[OF assms(2,1)])

theorem session_refines_witness:
  "\<exists>A. a_session [2 \<mapsto> ADir [(dot, 2), (dot @ dot, 2)]]
     [(Create a_text, 0), (Write a_text [1, 2, 3, 4] 4 0, 4), (Read a_text 9 1, 3), (Mkdir a_text (zeros 14), -17),
      (Unlink a_text, 0), (Unlink a_text, -2)] A"
  using a_session_run session_refines[OF mounted_tree] unfolding mounted_abs by blast

text \<open>
  C3. Through the handlers, what was written at a path is what is read there: sfs_write of z bytes at an offset within the
  file, then sfs_read of the same range, in a sound state, returns these bytes; the rest of the file system is the same.
\<close>

theorem sfs_write_read:
  assumes "tree K s" "file_at (abs_fs K s) cs c p x b" "0 < z" "z \<le> length buf" "o' \<le> length b" "o' + z < 2147483648"
    and "room_for_blocks s x ((o' + z - 1) div 512 + 1)"
  shows "\<exists>t u. sfs_write (path_text cs c @ 0 # r) buf (int z) (int o') s = Some (int z, t)
     \<and> sfs_read (path_text cs c @ 0 # r) (int z) (int o') t = Some ((int z, take z buf), u)
     \<and> tree K u \<and> (\<forall>y. y \<noteq> x \<longrightarrow> abs_fs K u y = abs_fs K s y)"
proof -
  from write_refines[OF assms, of r] obtain t where
    t: "sfs_write (path_text cs c @ 0 # r) buf (int z) (int o') s = Some (int z, t)" "tree K t"
    "abs_fs K t = a_write x o' (take z buf) (abs_fs K s)" by blast
  have f: "file_at (abs_fs K t) cs c p x (mput o' (take z buf) b)" unfolding t(3) by (rule file_at_write[OF assms(2)])
  have "mget o' z (mput o' (take z buf) b) = take z buf" using assms(4,5) by (simp add: mget_def mput_def)
  with read_refines[OF t(2) f assms(6), of r] obtain u where
    u: "sfs_read (path_text cs c @ 0 # r) (int z) (int o') t = Some ((int z, take z buf), u)" "tree K u" "abs_fs K u = abs_fs K t"
    using assms(4) by auto
  have "abs_fs K u y = abs_fs K s y" if "y \<noteq> x" for y
    using that by (auto simp: u(3) t(3) a_write_def split: option.splits anode.splits)
  then show ?thesis using t(1) u by blast
qed

theorem sfs_write_read_witness:
  "\<exists>s t u. sfs_create a_text mounted = Some (0, s) \<and> sfs_write a_text [1, 2, 3, 4] 4 0 s = Some (4, t)
     \<and> sfs_read a_text 4 0 t = Some ((4, [1, 2, 3, 4]), u)"
proof -
  let ?K = "fresh_kinds(3 \<mapsto> Fnode)"
  obtain s where s: "sfs_create a_text mounted = Some (0, s)" "tree ?K s" "abs_fs ?K s = a_abs []" "room_for_blocks s 3 1"
    using a_session_start by blast
  have f: "file_at (abs_fs ?K s) [] [97] 2 3 []" by (simp add: s(3) a_abs)
  from sfs_write_read[OF s(2) f, of 4 "[1, 2, 3, 4]" 0 "zeros 19"] s(1,4) show ?thesis by (auto simp: a_text_def)
qed

end
