(* ===== verification/FS_Shapes.thy ===== *)
theory FS_Shapes
  imports FS_Requests
begin

text \<open>
  The types of the state: the static buffers and every page of the host file keep their sizes, whatever the device holds and
  whatever is asked, so no copy through a static buffer or into a listing array ever leaves its bounds. An operation that may run into
  undefined behaviour keeps them when it returns.
\<close>

section \<open>Well-shaped states\<close>

definition pages_shaped :: "fs \<Rightarrow> bool" where
  "pages_shaped s \<longleftrightarrow> (\<forall>p. length (file_blk s p) = BLOCK_SIZE)"

definition shaped :: "fs \<Rightarrow> bool" where
  "shaped s \<longleftrightarrow> pages_shaped s \<and> 1025 * BLOCK_SIZE \<le> file_len s \<and> length (SuperBlockBuf s) = SUPERBLOCK_SIZE \<and> length (BlockBuf s) = BLOCK_SIZE
     \<and> length (EmptyBlk s) = BLOCK_SIZE \<and> length (iblockbuf s) = BLOCK_SIZE
     \<and> length (d_arr s) = ARR_BYTES \<and> length (f_arr s) = ARR_BYTES"

named_theorems shape \<open>operations that keep the shapes\<close>

text \<open>\<open>keeps x\<close>: if \<open>x\<close> returns, its state is well-shaped.\<close>

abbreviation keeps :: "fs option \<Rightarrow> bool" where "keeps \<equiv> pred_option shaped"
abbreviation keeps_snd :: "('a \<times> fs) option \<Rightarrow> bool" where "keeps_snd \<equiv> pred_option (\<lambda>r. shaped (snd r))"

lemma pred_option_Some [simp]: "pred_option P (Some x) \<longleftrightarrow> P x" "pred_option P None"
  by simp_all

lemma pred_option_bind: "pred_option Q x \<Longrightarrow> (\<And>y. Q y \<Longrightarrow> x = Some y \<Longrightarrow> pred_option P (f y)) \<Longrightarrow> pred_option P (x \<bind> f)"
  by (cases x) auto

lemma pred_option_bind_any: "(\<And>y. x = Some y \<Longrightarrow> pred_option P (f y)) \<Longrightarrow> pred_option P (x \<bind> f)"
  by (cases x) auto

lemma loop_keeps: "P s \<Longrightarrow> (\<And>i t. i \<in> set is \<Longrightarrow> P t \<Longrightarrow> pred_option P (body i t)) \<Longrightarrow> pred_option P (loop is body s)"
  by (induction "is" arbitrary: s) (auto intro: pred_option_bind)

lemma fold_keeps: "P s \<Longrightarrow> (\<And>i t. P t \<Longrightarrow> P (body i t)) \<Longrightarrow> P (fold body is s)"
  by (induction "is" arbitrary: s) auto

section \<open>Blocks and free blocks\<close>

lemma shaped_disk: "shaped s \<Longrightarrow> length (file_blk s p) = 512" "shaped s \<Longrightarrow> 524800 \<le> file_len s"
  by (simp_all add: shaped_def pages_shaped_def)

lemma block_read_shape [simp]: "shaped s \<Longrightarrow> length buf = 512 \<Longrightarrow> length (snd (block_read n buf s)) = 512"
  by (auto simp: block_read_def pread_def Let_def shaped_def pages_shaped_def)

lemma block_write_shape [shape]: "shaped s \<Longrightarrow> 512 \<le> length buf \<Longrightarrow> shaped (snd (block_write n buf s))"
  by (auto simp: block_write_def pwrite_def shaped_def pages_shaped_def)

lemma shaped_upd [shape]:
  "shaped s \<Longrightarrow> length b = 128 \<Longrightarrow> shaped (s\<lparr>SuperBlockBuf := b\<rparr>)" "shaped s \<Longrightarrow> length b = 512 \<Longrightarrow> shaped (s\<lparr>BlockBuf := b\<rparr>)"
  "shaped s \<Longrightarrow> length b = 512 \<Longrightarrow> shaped (s\<lparr>iblockbuf := b\<rparr>)" "shaped s \<Longrightarrow> length b = ARR_BYTES \<Longrightarrow> shaped (s\<lparr>d_arr := b\<rparr>)"
  "shaped s \<Longrightarrow> length b = ARR_BYTES \<Longrightarrow> shaped (s\<lparr>f_arr := b\<rparr>)" "shaped s \<Longrightarrow> shaped (s\<lparr>ERRNO := e\<rparr>)"
  by (simp_all add: shaped_def pages_shaped_def)

lemma shaped_lengths [simp]: "shaped s \<Longrightarrow> length (SuperBlockBuf s) = 128" "shaped s \<Longrightarrow> length (BlockBuf s) = 512"
  "shaped s \<Longrightarrow> length (EmptyBlk s) = 512" "shaped s \<Longrightarrow> length (iblockbuf s) = 512"
  "shaped s \<Longrightarrow> length (d_arr s) = ARR_BYTES" "shaped s \<Longrightarrow> length (f_arr s) = ARR_BYTES"
  by (simp_all add: shaped_def)

lemma errno_shape [shape]: "shaped s \<Longrightarrow> shaped (errno_push e s)" "shaped s \<Longrightarrow> shaped (snd (errno_pop s))"
  by (simp_all add: errno_push_def errno_pop_def Let_def shape)

lemma freeblock_shape [shape]: "shaped s \<Longrightarrow> shaped (freeblock_read n s)" "shaped s \<Longrightarrow> shaped (freeblock_write n s)"
  by (simp_all add: freeblock_read_def freeblock_write_def shape)

lemma superblock_shape [shape]: "shaped s \<Longrightarrow> shaped (superblock_write s)" "shaped s \<Longrightarrow> shaped (superblock_read s)"
  by (simp_all add: superblock_write_def superblock_read_def Let_def shape)

lemma unlink_head_shape [shape]: "shaped s \<Longrightarrow> shaped (unlink_head n s)"
  by (simp add: unlink_head_def Let_def shape)

lemma free_block_shape [shape]: "shaped s \<Longrightarrow> shaped (snd (free_block_pop s))" "shaped s \<Longrightarrow> shaped (snd (free_block_push n s))"
  "shaped s \<Longrightarrow> (\<forall>b. o' = Some b \<longrightarrow> 512 \<le> length b) \<Longrightarrow> shaped (snd (free_block_allocate o' s))"
  by (auto simp add: free_block_pop_def free_block_push_def free_block_allocate_def Let_def shape split: option.splits)

section \<open>Inodes\<close>

lemma inode_load_shape [shape]: "shaped s \<Longrightarrow> shaped (snd (inode_load n b s))"
  by (simp add: inode_load_def Let_def shape)

lemma nat_mod_4: "nat (n mod 4) \<le> 3"
  by linarith

lemma length_inode_load [simp]: "shaped s \<Longrightarrow> 0 \<le> n \<Longrightarrow> length (fst (inode_load n b s)) = 128"
  using nat_mod_4[of n] by (simp add: inode_load_def Let_def)

lemma inode_dump_shape [shape]: "shaped s \<Longrightarrow> 0 \<le> n \<longrightarrow> length nd = 128 \<Longrightarrow> shaped (inode_dump n nd s)"
  using nat_mod_4[of n] by (auto simp: inode_dump_def Let_def intro!: shape)

lemma length_set_fields [simp]:
  "length nd = 128 \<Longrightarrow> length (set_ino w nd) = 128" "length nd = 128 \<Longrightarrow> length (set_pno w nd) = 128"
  "length nd = 128 \<Longrightarrow> length (set_size w nd) = 128" "length nd = 128 \<Longrightarrow> length (set_nlink w nd) = 128"
  "length nd = 128 \<Longrightarrow> length (set_fsize z nd) = 128" "length nd = 128 \<Longrightarrow> length (set_isdir b nd) = 128"
  "length nd = 128 \<Longrightarrow> i < 4 \<Longrightarrow> length (set_pnum i w nd) = 128" "length nd = 128 \<Longrightarrow> i < 4 \<Longrightarrow> length (set_ex_pnum i w nd) = 128"
  "length nd = 128 \<Longrightarrow> i < 64 \<Longrightarrow> length (set_exnum i w nd) = 128"
  by (simp_all add: layout_defs put16_def put32_def)

lemma node_init_shape [shape]: "shaped s \<Longrightarrow> shaped (dnode_init x p s)" "shaped s \<Longrightarrow> shaped (fnode_init x p s)"
  by (simp_all add: dnode_init_eq fnode_init_eq inode_dump_shape)

lemma get_attr_shape [shape]: "shaped s \<Longrightarrow> shaped (snd (inode_get_attr x st s))" "shaped s \<Longrightarrow> shaped (snd (inode_get_attr_upc x s))"
  by (simp_all add: inode_get_attr_def inode_get_attr_upc_def Let_def split_beta inode_load_shape)

lemma set_attr_shape [shape]: "shaped s \<Longrightarrow> shaped (inode_set_attr_upc x nl sz s)"
proof -
  assume s: "shaped s"
  have l: "length (fst (inode_load (uint x) uninit s)) = 128" using s by simp
  have "length (case sz of None \<Rightarrow> nd | Some z \<Rightarrow> set_size (f z) nd) = 128" "length (case sz of None \<Rightarrow> nd | Some z \<Rightarrow> set_fsize (g z) nd) = 128"
    "length (case nl of None \<Rightarrow> nd | Some k \<Rightarrow> set_nlink (h k) nd) = 128" if "length nd = 128" for nd f g h
    using that by (simp_all split: option.splits)
  then show ?thesis unfolding inode_set_attr_upc_def Let_def split_beta
    by (intro inode_dump_shape inode_load_shape s) (simp add: l)
qed

lemma length_scan_bytes: "scan_bytes is b = Some (n, c) \<Longrightarrow> length c = length b"
proof (induction "is")
  case (Cons i "is")
  define r where "r = scan_bits [0..<8] 0x80 (b ! i)"
  have e: "scan_bytes (i # is) b = (if b ! i \<noteq> 0 then case r of Some (j, c) \<Rightarrow> Some (8 * i + j, b[i := c]) | None \<Rightarrow> scan_bytes is b
     else scan_bytes is b)" unfolding r_def by (rule scan_bytes.simps(2))
  show ?case
  proof (cases "b ! i = 0 \<or> r = None")
    case True
    then have "scan_bytes (i # is) b = scan_bytes is b" unfolding e by auto
    then show ?thesis using Cons by simp
  next
    case False
    then obtain j d where "r = Some (j, d)" by auto
    then have "scan_bytes (i # is) b = Some (8 * i + j, b[i := d])" unfolding e using False by simp
    then show ?thesis using Cons.prems by auto
  qed
qed simp

lemma block_read_bitmap:
  assumes "shaped s"
  shows "length (snd (block_read 1024 uninit s)) = 512"
proof -
  have o: "block_off 1024 = 524288" using block_off_int[of 1024] by simp
  have "length (file_blk s 1024) = 512" "512 \<le> file_len s - 524288" using shaped_disk[OF assms] by simp_all
  then show ?thesis by (simp add: block_read_def pread_def Let_def o min_def)
qed

lemma bitmap_shape [shape]:
  assumes "shaped s"
  shows "shaped (snd (free_inode_pop s))"
proof -
  define r where "r = scan_bytes [0..<INODE_BLK_SIZE div 8] (snd (block_read (int INODE_BLK_SIZE) uninit s))"
  have p: "free_inode_pop s = (case r of Some (n, b) \<Rightarrow> (of_nat n, snd (block_write (int INODE_BLK_SIZE) b s))
     | None \<Rightarrow> (0, errno_push (- ENOSPC) s))"
    unfolding r_def free_inode_pop_def Let_def by (rule refl)
  show ?thesis
  proof (cases r)
    case None
    then show ?thesis using assms by (simp add: p errno_shape)
  next
    case (Some v)
    then obtain n b where v: "r = Some (n, b)" by (cases v) auto
    then have "length b = 512" using length_scan_bytes[OF v[unfolded r_def]] block_read_bitmap[OF assms] by simp
    then show ?thesis using assms by (simp add: p v block_write_shape)
  qed
qed

lemma bitmap_push_shape [shape]: "shaped s \<Longrightarrow> keeps (free_inode_push w s)"
  using block_read_bitmap[of s] by (simp add: free_inode_push_def Let_def block_write_shape)

section \<open>Listings\<close>

text \<open>A listing loop at page \<open>p\<close> of the at most 260 a node can have.\<close>

definition at_page :: "nkind \<Rightarrow> nat \<Rightarrow> lst_state \<Rightarrow> bool" where
  "at_page k p st \<longleftrightarrow> fst st = ptr_at k p \<and> length (fst (snd st)) = ARR_BYTES \<and> shaped (snd (snd st))"

definition page_done :: "lst_state \<Rightarrow> bool" where
  "page_done st \<longleftrightarrow> length (fst (snd st)) = ARR_BYTES \<and> shaped (snd (snd st))"

lemma at_page_done: "at_page k p st \<Longrightarrow> page_done st"
  by (simp add: at_page_def page_done_def)

lemma listing_page_shape:
  assumes "at_page k p st" "p < MAX_PAGES"
  shows "at_page k (Suc p) (snd (listing_page k e num st))"
proof -
  obtain ptr a s where st: "st = (ptr, a, s)" by (cases st) auto
  have "esz k * ptr + 128 \<le> ARR_BYTES" using assms by (simp add: at_page_def st esz_ptr)
  then show ?thesis using assms(1)
    by (simp add: at_page_def st listing_page_def Let_def split_beta ptr_at_Suc inode_load_shape)
qed

lemma listing_double_shape:
  assumes "at_page k (4 + 64 * i) st" "i < 4"
  shows "case listing_double k e nd i st of (r, st') \<Rightarrow> if r then page_done st' else at_page k (4 + 64 * Suc i) st'"
proof -
  obtain ptr a s where st: "st = (ptr, a, s)" by (cases st) auto
  obtain b t where l: "inode_load (uint (ex_pnum_at nd i)) uninit s = (b, t)" by force
  have "shaped t" using assms(1) inode_load_shape[of s "uint (ex_pnum_at nd i)" uninit] l by (simp add: at_page_def st)
  then have 0: "at_page k (4 + 64 * i + 0) (ptr, a, t)" using assms(1) by (simp add: at_page_def st)
  have step: "case listing_page k e (exnum_at b j) u of (r, u') \<Rightarrow> if r then page_done u' else at_page k (4 + 64 * i + Suc j) u'"
    if "at_page k (4 + 64 * i + j) u" "j < 64" for j u
    using listing_page_shape[OF that(1), of e "exnum_at b j"] that(2) assms(2)
    by (cases "listing_page k e (exnum_at b j) u") (auto intro: at_page_done)
  from loop_ret_rule[where i = 0 and n = 64 and P = "\<lambda>j. at_page k (4 + 64 * i + j)" and Q = page_done and body = "\<lambda>j. listing_page k e (exnum_at b j)", OF step _ 0]
  have "case loop_ret [0..<64] (\<lambda>j. listing_page k e (exnum_at b j)) (ptr, a, t) of
      (r, s') \<Rightarrow> if r then page_done s' else at_page k (4 + 64 * i + 64) s'" by simp
  moreover have "4 + 64 * i + 64 = 4 + 64 * Suc i" by simp
  ultimately show ?thesis by (simp only: st listing_double_def l Let_def prod.case)
qed

lemma node_listing_shape:
  assumes s: "shaped s" and l: "length nd = 128" "length a = ARR_BYTES"
  shows "length (fst (node_listing k nd e a s)) = ARR_BYTES \<and> shaped (snd (node_listing k nd e a s))"
proof -
  let ?a = "mput 0 (mget 16 96 nd) a"
  let ?A = "loop_ret [0..<4] (\<lambda>i. listing_page k e (pnum_at nd i)) (ndirect k, ?a, s)"
  have 0: "at_page k 0 (ndirect k, ?a, s)" using s l by (simp add: at_page_def ptr_at_def)
  have step: "case listing_page k e (pnum_at nd j) u of (r, u') \<Rightarrow> if r then page_done u' else at_page k (Suc j) u'"
    if "at_page k j u" "j < 4" for j u
    using listing_page_shape[OF that(1), of e "pnum_at nd j"] that(2)
    by (cases "listing_page k e (pnum_at nd j) u") (auto intro: at_page_done)
  from loop_ret_rule[where i = 0 and n = 4 and P = "\<lambda>j. at_page k j" and Q = page_done and body = "\<lambda>j. listing_page k e (pnum_at nd j)", OF step _ 0]
  have A: "case ?A of (r, st) \<Rightarrow> if r then page_done st else at_page k 4 st" by simp
  have B: "page_done (snd (loop_ret [0..<4] (listing_double k e nd) st))" if "at_page k 4 st" for st
  proof -
    have "at_page k (4 + 64 * 0) st" using that by simp
    from loop_ret_rule[where i = 0 and n = 4 and P = "\<lambda>i. at_page k (4 + 64 * i)" and Q = page_done and body = "listing_double k e nd", OF listing_double_shape _ this]
    show ?thesis by (cases "loop_ret [0..<4] (listing_double k e nd) st") (auto intro: at_page_done split: if_splits)
  qed
  show ?thesis
  proof (cases "e \<le> ndirect k")
    case True
    then show ?thesis using s l by (simp add: node_listing_def Let_def)
  next
    case False
    obtain r st where r: "?A = (r, st)" by (rule prod.exhaust)
    then have "page_done st \<and> r \<or> at_page k 4 st \<and> \<not> r" using A by (cases r) auto
    then show ?thesis
    proof
      assume "page_done st \<and> r"
      then show ?thesis using False r by (cases st) (simp add: node_listing_def Let_def page_done_def)
    next
      assume h: "at_page k 4 st \<and> \<not> r"
      obtain q u where q: "loop_ret [0..<4] (listing_double k e nd) st = (q, u)" by (rule prod.exhaust)
      with B[of st] h have "page_done u" by simp
      then show ?thesis using False r q h by (cases u) (simp add: node_listing_def Let_def page_done_def)
    qed
  qed
qed

lemma listing_shape [shape]: "shaped s \<Longrightarrow> shaped (snd (dnode_listing x s))" "shaped s \<Longrightarrow> shaped (snd (fnode_listing x s))"
proof -
  assume s: "shaped s"
  obtain nd t where l: "inode_load (uint x) uninit s = (nd, t)" by force
  have t: "shaped t" "length nd = 128" using inode_load_shape[OF s, of "uint x" uninit] length_inode_load[OF s, of "uint x" uninit] l by simp_all
  note n = node_listing_shape[OF t(1,2)]
  show "shaped (snd (dnode_listing x s))" using n[of "d_arr t" Dnode "unat (md_size nd)"] t(1)
    by (simp add: dnode_listing_def l Let_def split_beta shaped_upd)
  show "shaped (snd (fnode_listing x s))" using n[of "f_arr t" Fnode "unat (md_size nd)"] t(1)
    by (simp add: fnode_listing_def l Let_def split_beta shaped_upd)
qed

text \<open>Storing: the position is at most page \<open>p\<close>, the node and a double page have their size.\<close>

definition set_page :: "nkind \<Rightarrow> nat \<Rightarrow> set_state \<Rightarrow> bool" where
  "set_page k p st \<longleftrightarrow> (\<exists>q\<le>p. fst st = ptr_at k q) \<and> length (fst (snd st)) = 128 \<and> shaped (snd (snd st))"

lemma set_pageI: "q \<le> p \<Longrightarrow> ptr = ptr_at k q \<Longrightarrow> length nd = 128 \<Longrightarrow> shaped s \<Longrightarrow> set_page k p (ptr, nd, s)"
  by (auto simp: set_page_def)

lemma set_pageE:
  assumes "set_page k p (ptr, nd, s)"
  obtains q where "q \<le> p" "ptr = ptr_at k q" "length nd = 128" "shaped s"
  using assms by (auto simp: set_page_def)

lemma page_slice: "length a = ARR_BYTES \<Longrightarrow> q < MAX_PAGES \<Longrightarrow> length (mget (esz k * ptr_at k q) 128 a) = 128"
  by (simp add: esz_ptr)

lemma loop_upt_keeps:
  assumes "\<And>j t. i \<le> j \<Longrightarrow> j < n \<Longrightarrow> P j t \<Longrightarrow> pred_option (P (Suc j)) (body j t)" and "i \<le> n" and "P i s"
  shows "pred_option (P n) (loop [i..<n] body s)"
  using assms
proof (induction "n - i" arbitrary: i s)
  case (Suc m)
  then have i: "i < n" by simp
  have "pred_option (P n) (loop [Suc i..<n] body t)" if "P (Suc i) t" for t
    by (rule Suc.hyps(1)) (use Suc.hyps(2) Suc.prems(1) i that in auto)
  then show ?case using Suc.prems(1)[of i s] Suc.prems(3) i by (auto simp: upt_conv_Cons intro: pred_option_bind)
qed simp

lemma pop_cases: "shaped s \<Longrightarrow> \<exists>n t. free_inode_pop s = (n, t) \<and> shaped t"
  using bitmap_shape[of s] by (cases "free_inode_pop s") auto

lemma lset_single_shape:
  assumes a: "length a = ARR_BYTES" and st: "set_page k p st" and i: "i < 4" "p < MAX_PAGES"
  shows "pred_option (set_page k (Suc p)) (lset_single k a e c i st)"
proof -
  obtain ptr nd s where e: "st = (ptr, nd, s)" by (cases st) auto
  from st[unfolded e] obtain q where q: "q \<le> p" "ptr = ptr_at k q" "length nd = 128" "shaped s" by (rule set_pageE)
  have l: "length (mget (esz k * ptr) 128 a) = 128" using page_slice[OF a, of q k] q(1,2) i(2) by simp
  have n: "ptr + nper k = ptr_at k (Suc q)" "Suc q \<le> Suc p" using q(1,2) by (simp_all add: ptr_at_Suc)
  have g: "set_page k (Suc p) (ptr + nper k, nd', t)" if "length nd' = 128" "shaped t" for nd' t using set_pageI[OF n(2,1) that] .
  have f: "pred_option (set_page k (Suc p)) ((if b then free_inode_push w s else Some s) \<bind> (\<lambda>s. Some (ptr + nper k, nd, s)))" for b w
    by (rule pred_option_bind[where Q = shaped]) (use q g bitmap_push_shape in auto)
  obtain w t where w: "free_inode_pop s = (w, t)" "shaped t" using pop_cases[OF q(4)] by blast
  show ?thesis using f q i g l w by (auto simp: lset_single_def e Let_def inode_dump_shape)
qed

lemma lset_free_page_shape:
  assumes "shaped s" "ptr = ptr_at k q"
  shows "pred_option (\<lambda>(p, t). p = ptr_at k (Suc q) \<and> shaped t) (lset_free_page k c b j (ptr, s))"
proof -
  have "pred_option (\<lambda>(p, t). p = ptr_at k (Suc q) \<and> shaped t)
      ((if d then free_inode_push w s else Some s) \<bind> (\<lambda>s. Some (ptr + nper k, s)))" for d w
    by (rule pred_option_bind[where Q = shaped]) (use assms bitmap_push_shape in \<open>auto simp: ptr_at_Suc\<close>)
  then show ?thesis by (simp add: lset_free_page_def)
qed

lemma lset_page_shape:
  assumes a: "length a = ARR_BYTES" and st: "set_page k p st" and i: "j < 64" "p < MAX_PAGES"
  shows "set_page k (Suc p) (lset_new_page k a e j st)" "set_page k (Suc p) (lset_old_page k a e c j st)"
proof -
  obtain ptr nd s where e: "st = (ptr, nd, s)" by (cases st) auto
  from st[unfolded e] obtain q where q: "q \<le> p" "ptr = ptr_at k q" "length nd = 128" "shaped s" by (rule set_pageE)
  have l: "length (mget (esz k * ptr) 128 a) = 128" using page_slice[OF a, of q k] q(1,2) i(2) by simp
  have n: "ptr + nper k = ptr_at k (Suc q)" "Suc q \<le> Suc p" using q(1,2) by (simp_all add: ptr_at_Suc)
  have g: "set_page k (Suc p) (ptr + nper k, nd', t)" if "length nd' = 128" "shaped t" for nd' t using set_pageI[OF n(2,1) that] .
  obtain w t where w: "free_inode_pop s = (w, t)" "shaped t" using pop_cases[OF q(4)] by blast
  show "set_page k (Suc p) (lset_new_page k a e j st)" using q i g l w by (auto simp: lset_new_page_def e Let_def inode_dump_shape)
  show "set_page k (Suc p) (lset_old_page k a e c j st)" using q i g l w by (auto simp: lset_old_page_def e Let_def inode_dump_shape)
qed

lemma lset_free_loop_shape:
  assumes "shaped s" "ptr = ptr_at k q"
  shows "pred_option (\<lambda>(p, t). p = ptr_at k (q + 64) \<and> shaped t) (loop [0..<64] (lset_free_page k c b) (ptr, s))"
proof -
  have step: "pred_option (\<lambda>(p, t). p = ptr_at k (q + Suc j) \<and> shaped t) (lset_free_page k c b j st)"
    if "case st of (p, t) \<Rightarrow> p = ptr_at k (q + j) \<and> shaped t" for j st
    using that lset_free_page_shape[of "snd st" "fst st" k "q + j" c b j] by (cases st) simp
  have 0: "case (ptr, s) of (p, t) \<Rightarrow> p = ptr_at k (q + 0) \<and> shaped t" using assms by simp
  show ?thesis
    using loop_upt_keeps[where i = 0 and n = 64 and P = "\<lambda>j (p, t). p = ptr_at k (q + j) \<and> shaped t", OF step _ 0] by simp
qed

lemma lset_fold_shape:
  assumes "length a = ARR_BYTES" "set_page k p st" "p + 64 \<le> MAX_PAGES"
  shows "set_page k (p + 64) (fold (lset_new_page k a e) [0..<64] st)" "set_page k (p + 64) (fold (lset_old_page k a e c) [0..<64] st)"
proof -
  have 0: "set_page k (p + 0) st" using assms(2) by simp
  have "set_page k (p + Suc j) (lset_new_page k a e j t) \<and> set_page k (p + Suc j) (lset_old_page k a e c j t)"
    if "j < 64" "set_page k (p + j) t" for j t
    using lset_page_shape[OF assms(1) that(2,1)] that(1) assms(3) by simp
  then show "set_page k (p + 64) (fold (lset_new_page k a e) [0..<64] st)" "set_page k (p + 64) (fold (lset_old_page k a e c) [0..<64] st)"
    using fold_upt_rule[where i = 0 and n = 64 and P = "\<lambda>j. set_page k (p + j)", OF _ _ 0] by blast+
qed

lemma lset_double_shape:
  assumes a: "length a = ARR_BYTES" and st: "set_page k (4 + 64 * i) st" and i: "i < 4"
  shows "pred_option (set_page k (4 + 64 * Suc i)) (lset_double k a e c i st)"
proof -
  obtain ptr nd s where s: "st = (ptr, nd, s)" by (cases st) auto
  from st[unfolded s] obtain q where q: "q \<le> 4 + 64 * i" "ptr = ptr_at k q" "length nd = 128" "shaped s" by (rule set_pageE)
  have p: "4 + 64 * Suc i = 4 + 64 * i + 64" "4 + 64 * i + 64 \<le> MAX_PAGES" using i by simp_all
  have g: "set_page k (4 + 64 * Suc i) (ptr_at k r, nd', t)" if "r \<le> q + 64" "length nd' = 128" "shaped t" for r nd' t
    using that q(1) by (intro set_pageI[of r]) simp_all
  obtain b t where l: "inode_load (uint (ex_pnum_at nd i)) uninit s = (b, t)" by (rule prod.exhaust)
  have b: "length b = 128" "shaped t" using inode_load_shape[OF q(4), of "uint (ex_pnum_at nd i)" uninit]
      length_inode_load[OF q(4), of "uint (ex_pnum_at nd i)" uninit] l by simp_all
  obtain w u where w: "free_inode_pop s = (w, u)" "shaped u" using pop_cases[OF q(4)] by blast
  have f: "pred_option (set_page k (4 + 64 * Suc i)) (loop [0..<64] (lset_free_page k c b) (ptr, t) \<bind>
      (\<lambda>(ptr, s). free_inode_push v s \<bind> (\<lambda>s. Some (ptr, nd, s))))" for v
  proof (rule pred_option_bind[OF lset_free_loop_shape[OF b(2) q(2)]])
    fix y assume "case y of (p, t) \<Rightarrow> p = ptr_at k (q + 64) \<and> shaped t"
    then obtain x where x: "y = (ptr_at k (q + 64), x)" "shaped x" by (cases y) auto
    show "pred_option (set_page k (4 + 64 * Suc i)) (case y of (ptr, s) \<Rightarrow> free_inode_push v s \<bind> (\<lambda>s. Some (ptr, nd, s)))"
      unfolding x(1) prod.case by (rule pred_option_bind[OF bitmap_push_shape[OF x(2)]]) (use g q(3) in auto)
  qed
  consider (gone) "e \<le> int ptr" | (new) "\<not> e \<le> int ptr" "c \<le> int ptr" | (old) "\<not> e \<le> int ptr" "\<not> c \<le> int ptr" by blast
  then show ?thesis
  proof cases
    case gone
    have "set_page k (4 + 64 * Suc i) (ptr, nd, s)" unfolding q(2) by (rule g) (use q in simp_all)
    then show ?thesis using gone f by (simp add: lset_double_def s l del: upt_rec_numeral)
  next
    case new
    obtain x y v where x: "fold (lset_new_page k a e) [0..<64] (ptr, zeros INODE_SIZE, u) = (x, y, v)" by (metis surj_pair)
    have "set_page k (4 + 64 * i) (ptr, zeros INODE_SIZE, u)" using q w by (intro set_pageI[of q]) simp_all
    then have "set_page k (4 + 64 * Suc i) (x, y, v)" using lset_fold_shape(1)[OF a _ p(2), of k "(ptr, zeros INODE_SIZE, u)" e] x p(1) by simp
    then obtain r where "r \<le> 4 + 64 * Suc i" "x = ptr_at k r" "length y = 128" "shaped v" by (rule set_pageE)
    then show ?thesis using new x w(1) q(3) i
      by (simp add: lset_double_def s Let_def set_pageI inode_dump_shape del: upt_rec_numeral mult_Suc_right)
  next
    case old
    obtain x y v where x: "fold (lset_old_page k a e c) [0..<64] (ptr, b, t) = (x, y, v)" by (metis surj_pair)
    have "set_page k (4 + 64 * i) (ptr, b, t)" using q b by (intro set_pageI[of q]) simp_all
    then have "set_page k (4 + 64 * Suc i) (x, y, v)" using lset_fold_shape(2)[OF a _ p(2), of k "(ptr, b, t)" e c] x p(1) by simp
    then obtain r where "r \<le> 4 + 64 * Suc i" "x = ptr_at k r" "length y = 128" "shaped v" by (rule set_pageE)
    then show ?thesis using old x l q(3) i
      by (simp add: lset_double_def s Let_def set_pageI inode_dump_shape del: upt_rec_numeral mult_Suc_right)
  qed
qed

lemma node_listing_set_shape:
  assumes a: "length a = ARR_BYTES" and s: "shaped s"
  shows "keeps (node_listing_set k a x n s)"
proof -
  obtain nd t where l: "inode_load (uint x) uninit s = (nd, t)" by (rule prod.exhaust)
  have t: "shaped t" "length nd = 128" using inode_load_shape[OF s, of "uint x" uninit] length_inode_load[OF s, of "uint x" uninit] l by simp_all
  let ?nd = "mput 16 (mget 0 96 a) (set_size (word_of_int n) nd)" and ?c = "uint (md_size nd)"
  have 0: "set_page k 0 (ndirect k, ?nd, t)" using t a by (intro set_pageI[of 0]) (simp_all add: ptr_at_def)
  have A: "pred_option (set_page k 4) (loop [0..<4] (lset_single k a n ?c) (ndirect k, ?nd, t))"
    by (rule loop_upt_keeps[where P = "set_page k"]) (use lset_single_shape[OF a] 0 in auto)
  have B: "pred_option (set_page k 260) (loop [0..<4] (lset_double k a n ?c) st)" if "set_page k 4 st" for st
    using loop_upt_keeps[where i = 0 and n = 4 and P = "\<lambda>i. set_page k (4 + 64 * i)", OF lset_double_shape[OF a]] that by simp
  have C: "keeps (case st of (ptr, nd, s) \<Rightarrow> Some (inode_dump (uint (md_ino nd)) nd s))" if "set_page k 260 st" for st
    using that by (cases st) (simp add: set_page_def inode_dump_shape)
  have "keeps (loop [0..<4] (lset_single k a n ?c) (ndirect k, ?nd, t) \<bind>
      (\<lambda>(ptr, nd, s). loop [0..<4] (lset_double k a n ?c) (ptr, nd, s) \<bind> (\<lambda>(ptr, nd, s). Some (inode_dump (uint (md_ino nd)) nd s))))"
    by (rule pred_option_bind[OF A]) (use B C in \<open>auto intro!: pred_option_bind[where Q = "set_page k 260"]\<close>)
  then show ?thesis by (simp only: node_listing_set_def l Let_def prod.case)
qed

lemma listing_set_shape [shape]: "shaped s \<Longrightarrow> keeps (dnode_listing_set x n s)" "shaped s \<Longrightarrow> keeps (fnode_listing_set x n s)"
  unfolding dnode_listing_set_def fnode_listing_set_def Let_def
  by (auto simp: errno_shape intro!: node_listing_set_shape)

section \<open>Directories and paths\<close>

text \<open>What adding and removing an entry have in common: store the listing, then count the link.\<close>

lemma relist_shape:
  assumes "shaped s"
  shows "keeps (dnode_listing_set x m s \<bind> (\<lambda>s. case inode_load z uninit s of (nd, s) \<Rightarrow> Some (inode_dump z (set_nlink (f nd) nd) s)))"
proof (rule pred_option_bind[OF listing_set_shape(1)[OF assms]])
  fix t assume t: "shaped t"
  have "shaped (inode_dump z (set_nlink (f nd) nd) u)" if "inode_load z uninit t = (nd, u)" for nd u
    using inode_load_shape[OF t, of z uninit] length_inode_load[OF t, of z uninit] that by (auto intro!: inode_dump_shape)
  then show "keeps (case inode_load z uninit t of (nd, s) \<Rightarrow> Some (inode_dump z (set_nlink (f nd) nd) s))"
    by (cases "inode_load z uninit t") simp
qed

lemma append_shape:
  assumes s: "shaped s" and e: "length (de_name e) = 14"
  shows "keeps (dnode_append z e s)"
proof -
  obtain n t where l: "dnode_listing (word_of_int z) s = (n, t)" by (rule prod.exhaust)
  have t: "shaped t" using listing_shape(1)[OF s, of "word_of_int z"] l by simp
  have "keeps (dnode_listing_set (word_of_int z) (int n + 1) (t\<lparr>d_arr := d\<rparr>) \<bind>
      (\<lambda>s. case inode_load z uninit s of (nd, s) \<Rightarrow> Some (inode_dump z (set_nlink (md_nlink nd + 1) nd) s)))"
    if d: "set_d_ent n e (d_arr t) = Some d" for d
  proof -
    have "length d = ARR_BYTES" using d t e by (auto simp: set_d_ent_def di_ent_bytes_def split: if_splits)
    then have "shaped (t\<lparr>d_arr := d\<rparr>)" using t by (simp add: shaped_upd)
    then show ?thesis by (rule relist_shape)
  qed
  then show ?thesis by (auto simp: dnode_append_def l intro: pred_option_bind_any)
qed

lemma remove_step_shape:
  assumes s: "shaped s" and i: "i < n"
  shows "keeps (remove_step z fname n i s)"
proof (cases "16 * n \<le> ARR_BYTES")
  case True
  let ?d = "mput (16 * i) (mget (16 * (n - 1)) 16 (d_arr s)) (d_arr s)"
  have "16 * (n - 1) + 16 = 16 * n" "16 * i + 16 \<le> 16 * n" using i by (simp_all add: Suc_leI flip: mult_Suc_right)
  then have "length ?d = ARR_BYTES" using s True by simp
  then have "shaped (s\<lparr>d_arr := ?d\<rparr>)" using s by (simp add: shaped_upd)
  from relist_shape[OF this, of "word_of_int z" "int n - 1" z "\<lambda>nd. md_nlink nd - 1"]
  have "keeps (dnode_listing_set (word_of_int z) (int n - 1) (s\<lparr>d_arr := ?d\<rparr>) \<bind>
      (\<lambda>s. case inode_load z uninit s of (nd, s) \<Rightarrow> Some (inode_dump z (set_nlink (md_nlink nd - 1) nd) s)))" .
  then show ?thesis using s by (auto simp: remove_step_def Let_def intro!: pred_option_bind_any)
next
  case False
  then show ?thesis using s by (simp add: remove_step_def)
qed

lemma remove_shape: "shaped s \<Longrightarrow> keeps (dnode_remove z fname s)"
proof -
  assume s: "shaped s"
  obtain n t where l: "dnode_listing (word_of_int z) s = (n, t)" by (rule prod.exhaust)
  have t: "shaped t" using listing_shape(1)[OF s, of "word_of_int z"] l by simp
  have "keeps (loop [0..<n] (remove_step z fname n) t)" by (rule loop_keeps) (use t remove_step_shape in auto)
  then show ?thesis by (simp add: dnode_remove_def l)
qed

lemma elem_shape: "shaped s \<Longrightarrow> keeps_snd (path_to_inum_elem p w s)"
proof -
  assume s: "shaped s"
  obtain n t where l: "dnode_listing w s = (n, t)" by (rule prod.exhaust)
  have t: "shaped t" using listing_shape(1)[OF s, of w] l by simp
  show ?thesis using s t by (auto simp: path_to_inum_elem_def l intro!: pred_option_bind_any)
qed

lemma walk_shape: "shaped s \<Longrightarrow> pred_option (\<lambda>(_, _, t). shaped t) (walk_path p cur i s)"
proof (induction p arbitrary: cur i s)
  case (Cons c p)
  have "pred_option (\<lambda>(_, _, t). shaped t) (path_to_inum_elem (cur @ [0]) (word_of_int i) s \<bind> (\<lambda>(i, s). walk_path p [] i s))"
  proof (rule pred_option_bind[OF elem_shape[OF Cons.prems]])
    fix y :: "int \<times> fs" assume "shaped (snd y)"
    then show "pred_option (\<lambda>(_, _, t). shaped t) (case y of (i, s) \<Rightarrow> walk_path p [] i s)" using Cons.IH by (cases y) simp
  qed
  then show ?case using Cons.IH[OF Cons.prems] by simp
qed simp

lemma path_shape: "shaped s \<Longrightarrow> keeps_snd (path_to_inum p s)"
proof -
  assume s: "shaped s"
  have "keeps_snd (walk_path q [] 2 s \<bind> (\<lambda>(parent, final, s). if final \<noteq> []
      then path_to_inum_elem (final @ [0]) (word_of_int parent) s \<bind> (\<lambda>(inum, s). Some ((inum, parent), s))
      else Some ((parent, parent), s)))" for q
    by (rule pred_option_bind[OF walk_shape[OF s]]) (auto intro!: pred_option_bind[OF elem_shape])
  then show ?thesis by (auto simp: path_to_inum_def Let_def intro!: pred_option_bind_any)
qed

section \<open>File contents\<close>

lemma length_buf_put: "buf_put off bs m = Some m' \<Longrightarrow> length m' = length m"
  by (auto simp: buf_put_def split: if_splits)

lemma length_read_blocks: "read_blocks m i ptr b s = Some b' \<Longrightarrow> length b' = length b"
proof (induction m arbitrary: i ptr b)
  case (Suc m)
  then obtain w c where "buf_put (int ptr) (snd (block_read w (mget ptr BLOCK_SIZE b) s)) b = Some c"
    "read_blocks m (i + 1) (ptr + BLOCK_SIZE) c s = Some b'" by (auto simp: bind_eq_Some_conv)
  then show ?case using Suc.IH length_buf_put by metis
qed simp

lemma length_f_put: "f_put i v f = Some f' \<Longrightarrow> length f' = length f"
  by (auto simp: f_put_def split: if_splits)

lemma write_blocks_shape:
  "shaped s \<Longrightarrow> ptr + 512 * m \<le> length b \<Longrightarrow> keeps_snd (write_blocks m i n ptr b s)"
proof (induction m arbitrary: i ptr s)
  case (Suc m)
  have l: "length (mget ptr BLOCK_SIZE b) = 512" "ptr + BLOCK_SIZE + 512 * m \<le> length b" using Suc.prems(2) by simp_all
  obtain w t where w: "free_block_allocate (Some (mget ptr BLOCK_SIZE b)) s = (w, t)" by (rule prod.exhaust)
  have t: "shaped t" using free_block_shape(3)[OF Suc.prems(1), of "Some (mget ptr BLOCK_SIZE b)"] w l by simp
  have u: "shaped (t\<lparr>f_arr := f\<rparr>)" if "f_put i w (f_arr t) = Some f" for f
    using length_f_put[OF that] t by (simp add: shaped_upd)
  have v: "shaped (snd (block_write c (mget ptr BLOCK_SIZE b) s))" for c using Suc.prems(1) l by (intro block_write_shape) simp_all
  show ?case using Suc.IH[OF v l(2)] Suc.IH[OF u l(2)] t by (auto simp: w intro!: pred_option_bind_any)
qed simp

lemma free_blocks_shape: "shaped s \<Longrightarrow> keeps (free_blocks m i s)"
  by (induction m arbitrary: i s) (auto intro!: pred_option_bind_any free_block_shape)

lemma fstream_read_shape: "shaped s \<Longrightarrow> keeps_snd (fstream_read i z off s)"
proof -
  assume s: "shaped s"
  obtain n t where l: "fnode_listing (word_of_int i) s = (n, t)" by (rule prod.exhaust)
  have t: "shaped t" using listing_shape(2)[OF s, of "word_of_int i"] l by simp
  obtain m k fz u where g: "inode_get_attr_upc (word_of_int i) t = ((m, k, fz), u)" by (metis surj_pair)
  then have "shaped u" using get_attr_shape(2)[OF t, of "word_of_int i"] by simp
  then show ?thesis by (auto simp: fstream_read_def l g Let_def intro!: pred_option_bind_any)
qed

lemma fstream_write_shape: "shaped s \<Longrightarrow> keeps_snd (fstream_write i buf z off s)"
proof -
  assume s: "shaped s"
  obtain n t where l: "fnode_listing (word_of_int i) s = (n, t)" by (rule prod.exhaust)
  have t: "shaped t" using listing_shape(2)[OF s, of "word_of_int i"] l by simp
  obtain m k fz u where g: "inode_get_attr_upc (word_of_int i) t = ((m, k, fz), u)" by (metis surj_pair)
  then have u: "shaped u" using get_attr_shape(2)[OF t, of "word_of_int i"] by simp
  have fin: "keeps_snd (write_blocks (nat (min e FENTRY_MAX_SIZE - b)) b n 0 bb u \<bind> (\<lambda>(i', s).
      fnode_listing_set (word_of_int i) (if i' < int n then int n else i')
        (inode_set_attr_upc (word_of_int i) None (Some fs') s) \<bind>
      (\<lambda>s. case errno_pop s of (r, s) \<Rightarrow> Some (if r < 0 then r else z, s))))"
    if "length bb = nat (e - b) * BLOCK_SIZE" for e b bb fs'
  proof (rule pred_option_bind[OF write_blocks_shape[OF u]])
    have "nat (min e FENTRY_MAX_SIZE - b) \<le> nat (e - b)" by linarith
    then show "0 + 512 * nat (min e FENTRY_MAX_SIZE - b) \<le> length bb" using that by simp
    fix y :: "int \<times> fs" assume y: "shaped (snd y)"
    have "keeps_snd (fnode_listing_set (word_of_int i) x (inode_set_attr_upc (word_of_int i) None (Some fs') (snd y)) \<bind>
        (\<lambda>s. case errno_pop s of (r, s) \<Rightarrow> Some (if r < 0 then r else z, s)))" for x
      by (rule pred_option_bind[OF listing_set_shape(2)[OF set_attr_shape[OF y]]]) (simp add: split_beta errno_shape)
    then show "keeps_snd (case y of (i', s) \<Rightarrow> fnode_listing_set (word_of_int i) (if i' < int n then int n else i')
        (inode_set_attr_upc (word_of_int i) None (Some fs') s) \<bind> (\<lambda>s. case errno_pop s of (r, s) \<Rightarrow> Some (if r < 0 then r else z, s)))"
      by (cases y) simp
  qed
  show ?thesis unfolding fstream_write_def l g Let_def prod.case
    by (intro pred_option_bind_any fin) (auto dest!: length_read_blocks length_buf_put split: if_splits)
qed

lemma fstream_free_shape: "shaped s \<Longrightarrow> keeps (fstream_free i n s)"
proof -
  assume s: "shaped s"
  obtain m t where l: "fnode_listing (word_of_int i) s = (m, t)" by (rule prod.exhaust)
  have t: "shaped t" using listing_shape(2)[OF s, of "word_of_int i"] l by simp
  show ?thesis by (auto simp: fstream_free_def l intro!: pred_option_bind[OF free_blocks_shape[OF t]] listing_set_shape)
qed

lemma extend_blocks_shape: "shaped s \<Longrightarrow> keeps (extend_blocks m i s)"
proof (induction m arbitrary: i s)
  case (Suc m)
  obtain w t where w: "free_block_allocate None s = (w, t)" by (rule prod.exhaust)
  have t: "shaped t" using free_block_shape(3)[OF Suc.prems, of None] w by simp
  have "shaped (t\<lparr>f_arr := f\<rparr>)" if "f_put i w (f_arr t) = Some f" for f
    using length_f_put[OF that] t by (simp add: shaped_upd)
  then show ?case using Suc.IH by (auto simp: w intro!: pred_option_bind_any)
qed simp

section \<open>Handlers\<close>

lemma length_di_ent_c: "di_ent_c f i = Some e \<Longrightarrow> length (de_name e) = 14"
  by (auto simp: di_ent_c_def split: if_splits)

text \<open>Every handler starts with a walk over its path.\<close>

lemma after_path:
  assumes "shaped s" "\<And>i p t. shaped t \<Longrightarrow> pred_option P (f i p t)"
  shows "pred_option P (path_to_inum path s \<bind> (\<lambda>((i, p), t). f i p t))"
  by (rule pred_option_bind[OF path_shape[OF assms(1)]]) (use assms(2) in \<open>auto split: prod.splits\<close>)

text \<open>The common end of \<open>sfs_create\<close> and \<open>sfs_mkdir\<close>: the entry of the new node, or the way back.\<close>

lemma link_shape:
  assumes "shaped s"
  shows "keeps_snd (di_ent_c fname w \<bind> (\<lambda>e. dnode_append p e s \<bind> (\<lambda>s. case errno_pop s of (r, s) \<Rightarrow>
    if r < 0 then dnode_remove p fname s \<bind> (\<lambda>s. free_inode_push w s \<bind> (\<lambda>s. Some (r, s))) else Some (r, s))))"
proof (rule pred_option_bind_any, rule pred_option_bind)
  fix e assume "di_ent_c fname w = Some e"
  then show "keeps (dnode_append p e s)" by (intro append_shape[OF assms] length_di_ent_c)
  fix t assume t: "shaped t"
  obtain r u where r: "errno_pop t = (r, u)" by (rule prod.exhaust)
  then have "shaped u" using errno_shape(2)[OF t] by simp
  then have "keeps_snd (dnode_remove p fname u \<bind> (\<lambda>s. free_inode_push w s \<bind> (\<lambda>s. Some (r, s))))"
    by (auto intro!: pred_option_bind[OF remove_shape] pred_option_bind[OF bitmap_push_shape])
  moreover have "shaped u" using errno_shape(2)[OF t] r by simp
  ultimately show "keeps_snd (case errno_pop t of (r, s) \<Rightarrow>
    if r < 0 then dnode_remove p fname s \<bind> (\<lambda>s. free_inode_push w s \<bind> (\<lambda>s. Some (r, s))) else Some (r, s))"
    by (simp add: r)
qed

lemma create_shape: "shaped s \<Longrightarrow> keeps_snd (sfs_create path s)"
proof -
  have step: "keeps_snd (if 0 < i then Some (- EEXIST, t) else case free_inode_pop t of (w, t) \<Rightarrow> let t = fnode_init w (word_of_int p) t in
      di_ent_c fname w \<bind> (\<lambda>e. dnode_append p e t \<bind> (\<lambda>s. case errno_pop s of (r, s) \<Rightarrow>
        if r < 0 then dnode_remove p fname s \<bind> (\<lambda>s. free_inode_push w s \<bind> (\<lambda>s. Some (r, s))) else Some (r, s))))"
    if t: "shaped t" for i :: int and p t fname
  proof -
    obtain w u where w: "free_inode_pop t = (w, u)" "shaped u" using pop_cases[OF t] by blast
    show ?thesis unfolding w(1) Let_def prod.case using t link_shape[OF node_init_shape(2)[OF w(2)]] by simp
  qed
  show "shaped s \<Longrightarrow> keeps_snd (sfs_create path s)"
    unfolding sfs_create_def Let_def by (erule after_path) (rule step[unfolded Let_def])
qed

lemma mkdir_shape: "shaped s \<Longrightarrow> keeps_snd (sfs_mkdir path fb s)"
proof -
  have step: "keeps_snd (if 0 < i then Some (- EEXIST, t) else case free_inode_pop t of (w, t) \<Rightarrow> let t = dnode_init w (word_of_int p) t in
      di_ent_c fname w \<bind> (\<lambda>e. dnode_append p e t \<bind> (\<lambda>s. case errno_pop s of (r, s) \<Rightarrow>
        if r < 0 then dnode_remove p fname s \<bind> (\<lambda>s. free_inode_push w s \<bind> (\<lambda>s. Some (r, s))) else Some (r, s))))"
    if t: "shaped t" for i :: int and p t fname
  proof -
    obtain w u where w: "free_inode_pop t = (w, u)" "shaped u" using pop_cases[OF t] by blast
    show ?thesis unfolding w(1) Let_def prod.case using t link_shape[OF node_init_shape(1)[OF w(2)]] by simp
  qed
  show "shaped s \<Longrightarrow> keeps_snd (sfs_mkdir path fb s)"
    unfolding sfs_mkdir_def Let_def by (rule pred_option_bind_any, erule after_path) (rule step[unfolded Let_def])
qed

lemma unlink_shape: "shaped s \<Longrightarrow> keeps_snd (sfs_unlink path s)"
  unfolding sfs_unlink_def Let_def
  by (rule after_path) (auto intro!: pred_option_bind[OF fstream_free_shape] pred_option_bind[OF listing_set_shape(2)]
      pred_option_bind[OF bitmap_push_shape] pred_option_bind[OF remove_shape])

lemma rmdir_shape: "shaped s \<Longrightarrow> keeps_snd (sfs_rmdir path fb s)"
  unfolding sfs_rmdir_def
  by (intro pred_option_bind_any after_path) (auto intro!: pred_option_bind[OF listing_set_shape(1)] pred_option_bind[OF remove_shape])

lemma truncate_shape: "shaped s \<Longrightarrow> keeps_snd (sfs_truncate path off s)"
proof -
  have step: "keeps_snd (if i < 0 then Some (- ENOENT, t) else case fnode_listing (word_of_int i) t of (b, t) \<Rightarrow>
      extend_blocks (nat (n - int b)) (int b) t \<bind> (\<lambda>t. fstream_free i n t \<bind> (\<lambda>t. fnode_listing_set (word_of_int i) n t \<bind>
      (\<lambda>t. Some (0, inode_set_attr_upc (word_of_int i) None (Some z) t)))))"
    if t: "shaped t" for i :: int and t n z
  proof -
    obtain m u where l: "fnode_listing (word_of_int i) t = (m, u)" by (rule prod.exhaust)
    have u: "shaped u" using listing_shape(2)[OF t, of "word_of_int i"] l by simp
    show ?thesis using t by (auto simp: l set_attr_shape intro!: pred_option_bind[OF extend_blocks_shape[OF u]]
        pred_option_bind[OF fstream_free_shape] pred_option_bind[OF listing_set_shape(2)])
  qed
  show "shaped s \<Longrightarrow> keeps_snd (sfs_truncate path off s)"
    unfolding sfs_truncate_def Let_def by (erule after_path) (rule step)
qed

lemma write_shape: "shaped s \<Longrightarrow> keeps_snd (sfs_write path buf z off s)"
proof -
  have "shaped (snd (errno_pop (snd (free_block_pop (snd (errno_pop (snd (free_inode_pop t))))))))" if "shaped t" for t
    using that by (intro errno_shape free_block_shape bitmap_shape)
  then have step: "keeps_snd (if i < 0 then Some (- ENOENT, t) else fstream_write i buf z off t \<bind> (\<lambda>(r, t). if r < 0
      then let (i, t) = free_inode_pop t; (e, t) = errno_pop t; (i, t) = free_block_pop t; (e, t) = errno_pop t in Some (r, t)
      else Some (r, t)))" if "shaped t" for i :: int and t z off
    using that by (auto simp: split_beta Let_def intro!: pred_option_bind[OF fstream_write_shape])
  show "shaped s \<Longrightarrow> keeps_snd (sfs_write path buf z off s)"
    unfolding sfs_write_def by (erule after_path) (rule step)
qed

lemma reading_shape: "shaped s \<Longrightarrow> keeps_snd (drop_out (sfs_read path z off s))"
  "shaped s \<Longrightarrow> keeps_snd (drop_out (sfs_getattr path u g s))" "shaped s \<Longrightarrow> keeps_snd (drop_out (sfs_readdir path s))"
  "shaped s \<Longrightarrow> keeps_snd (sfs_open path s)" "shaped s \<Longrightarrow> keeps_snd (sfs_opendir path s)"
proof -
  have d: "keeps_snd (drop_out r) = keeps_snd r" for r :: "((int \<times> 'a) \<times> fs) option"
    by (auto simp: drop_out_def split: option.splits)
  show "shaped s \<Longrightarrow> keeps_snd (drop_out (sfs_read path z off s))"
    unfolding d sfs_read_def by (rule after_path) (auto intro!: fstream_read_shape)
  show "shaped s \<Longrightarrow> keeps_snd (drop_out (sfs_getattr path u g s))"
    unfolding d sfs_getattr_def Let_def by (rule after_path) (auto simp: split_beta intro!: get_attr_shape)
  show "shaped s \<Longrightarrow> keeps_snd (drop_out (sfs_readdir path s))"
    unfolding d sfs_readdir_def by (rule after_path) (auto simp: split_beta Let_def intro!: listing_shape)
  show "shaped s \<Longrightarrow> keeps_snd (sfs_open path s)" unfolding sfs_open_def by (erule after_path) (simp split: if_splits)
  show "shaped s \<Longrightarrow> keeps_snd (sfs_opendir path s)" unfolding sfs_opendir_def by (erule after_path) (simp split: if_splits)
qed

lemma oper_shape: "shaped s \<Longrightarrow> keeps_snd (sfs_oper req s)"
  by (cases req) (auto simp: sfs_release_def sfs_releasedir_def intro: create_shape mkdir_shape unlink_shape rmdir_shape
      truncate_shape write_shape reading_shape)

section \<open>Mounting, and every sequence of requests\<close>

lemma inode_init_shape: "shaped s \<Longrightarrow> shaped (inode_init s)"
proof -
  assume s: "shaped s"
  define t where "t = fold (\<lambda>i s. snd (free_block_pop s)) [1..<INODE_BLK_SIZE] s"
  have t: "shaped t" unfolding t_def by (rule fold_keeps) (use s free_block_shape(1) in auto)
  have b: "512 \<le> length bitmap_init" by (rule eq_refl, rule length_bitmap_init[symmetric])
  show ?thesis unfolding inode_init_def Let_def t_def[symmetric]
    by (rule node_init_shape(1)[OF block_write_shape[OF free_block_shape(1)[OF t] b]])
qed

lemma formatted_shape:
  assumes "host_ok s" "length (iblockbuf s) = 512" "length (d_arr s) = ARR_BYTES" "length (f_arr s) = ARR_BYTES"
  shows "shaped (free_block_init s)"
proof -
  have "fb_inv (free_block_init s)" "fblock.more (free_block_init s) = fblock.more s" using free_block_init_aux[OF assms(1)] by blast+
  then show ?thesis using fb_inv_ready[of "free_block_init s"] more_arrays[of "free_block_init s" s] assms(2-4)
    by (simp add: ok_defs shaped_def pages_shaped_def del: shaped_lengths)
qed

lemma requests_shape: "requests s rs t \<Longrightarrow> shaped s \<Longrightarrow> shaped t"
proof (induction rule: requests.induct)
  case (request r s v t rs u)
  then show ?case using oper_shape[of s r] by simp
qed simp



end
