(* ===== verification/FS_NoSpace.thy ===== *)
theory FS_NoSpace
  imports FS_Requests
begin

text \<open>
  A device that runs full during a write: \<open>fstream_write\<close> links the blocks it got, stores the size it was asked for all the
  same, and answers \<open>-ENOSPC\<close>; \<open>sfs_write\<close> then takes an inode for its log line and keeps it.
\<close>

section \<open>The loop\<close>

text \<open>An allocation on an empty list: the error is left, nothing else.\<close>

lemma alloc_none:
  assumes s: "fs_ok s" "free_list s = []"
  shows "\<exists>t. free_block_allocate buff s = (-1, t) \<and> fs_ok t \<and> free_list t = [] \<and> f_arr t = f_arr s
     \<and> data_kept (s\<lparr>ERRNO := - ENOSPC\<rparr>) {} t"
proof -
  have fb: "fb_inv s" using s(1) by (simp add: fs_ok_def)
  from allocate_Nil_aux[OF fb s(2), of buff] obtain t where t: "free_block_allocate buff s = (-1, t)" "fb_inv t" "free_list t = []"
    "ERRNO t = - ENOSPC" "file_blk t = file_blk s" "fb_keep s t" by blast
  have ar: "d_arr t = d_arr s" "f_arr t = f_arr s" using more_arrays[of t s] t(6) by (simp_all add: fb_keep_def)
  have "disk_ok t" "free_inodes t = free_inodes s" using fb_inv_ready[OF t(2)] t(5) by (simp_all add: fb_ready_def free_inodes_def)
  then have "fs_ok t" using s t(2,3) ar by (simp add: fs_ok_def ib_inv_def)
  moreover have "data_kept (s\<lparr>ERRNO := - ENOSPC\<rparr>) {} t" using t(4,5) ar by (simp add: data_kept_def)
  ultimately show ?thesis using t(1,3) ar by blast
qed

text \<open>A loop that got through its first \<open>m\<close> rounds goes on from there.\<close>

lemma write_blocks_split:
  "write_blocks m i n p buf u = Some (i + int m, v) \<Longrightarrow>
   write_blocks (m + k) i n p buf u = write_blocks k (i + int m) n (p + 512 * m) buf v"
proof (induction m arbitrary: i p u)
  case (Suc m)
  show ?case
  proof (cases "i < int n")
    case True
    then obtain b where b: "f_get (f_arr u) i = Some b" using Suc.prems by (cases "f_get (f_arr u) i") auto
    then have "write_blocks m (i + 1) n (p + BLOCK_SIZE) buf (snd (block_write b (mget p BLOCK_SIZE buf) u)) = Some (i + 1 + int m, v)"
      using Suc.prems True by (simp add: ac_simps)
    from Suc.IH[OF this] show ?thesis using True b by (simp add: ac_simps)
  next
    case False
    obtain b w where w: "free_block_allocate (Some (mget p BLOCK_SIZE buf)) u = (b, w)" by (rule prod.exhaust)
    have b: "0 \<le> b" using Suc.prems False w by (cases "b < 0") auto
    then obtain f where f: "f_put i b (f_arr w) = Some f" using Suc.prems False w by (cases "f_put i b (f_arr w)") auto
    have "write_blocks m (i + 1) n (p + BLOCK_SIZE) buf (w\<lparr>f_arr := f\<rparr>) = Some (i + 1 + int m, v)"
      using Suc.prems False w b f by (simp add: ac_simps)
    from Suc.IH[OF this] show ?thesis using False w b f by (simp add: ac_simps)
  qed
qed simp

lemma write_blocks_none:
  assumes "fs_ok s" "free_list s = []" "int n \<le> i"
  shows "\<exists>t. write_blocks (Suc m) i n p buf s = Some (i, t) \<and> fs_ok t \<and> free_list t = [] \<and> f_arr t = f_arr s
     \<and> data_kept (s\<lparr>ERRNO := - ENOSPC\<rparr>) {} t"
  using alloc_none[OF assms(1,2), of "Some (mget p BLOCK_SIZE buf)"] assms(3) by auto

text \<open>The data after the loop, for the \<open>k\<close> blocks there are of the \<open>e\<close> that were needed.\<close>

lemma write_data_short:
  assumes w: "writing nb n [] q u" and nb: "distinct nb" "\<forall>b\<in>set nb. data_block b" "length nb = k" "n \<le> k" "k < e" "e \<le> 8344"
    and q: "q = o' div 512" "q \<le> n" and e: "e = (o' + length dat - 1) div 512 + 1" "dat \<noteq> []"
  shows "\<exists>B0 B u1. read_blocks (nat (min (int n) (int e) - int q)) (int q) 0 (zeros (nat (int e - int q) * 512)) u = Some B0
     \<and> buf_put (int (o' mod 512)) dat B0 = Some B
     \<and> write_blocks (nat (min (int e) 8344 - int q)) (int q) n 0 B u = Some (int k, u1)
     \<and> fs_ok u1 \<and> free_list u1 = [] \<and> (\<forall>l<k. f_ent (f_arr u1) l = nb ! l) \<and> data_kept (u\<lparr>ERRNO := - ENOSPC\<rparr>) (unat ` set nb) u1
     \<and> data_of u1 nb = take (512 * k) (mput o' dat (data_of u (take n nb) @ zeros (512 * (e - n))))"
proof -
  have ok: "fs_ok u" "disk_ok u" "length (f_arr u) = ARR_BYTES" "\<forall>l<n. f_ent (f_arr u) l = nb ! l"
    using w q(2) fs_ok_disk by (auto simp: writing_def max_absorb1)
  define D where "D = data_of u (take n nb)"
  define Y where "Y = D @ zeros (512 * (e - n))"
  define X where "X = mput o' dat Y"
  have D: "length D = 512 * n" using ok(2) nb(3,4) by (simp add: D_def)
  have ne: "n < e" "q < e" using nb(4,5) q(2) by simp_all
  have Y: "length Y = 512 * e" using D ne(1) by (simp add: Y_def diff_mult_distrib2)
  have oq: "512 * q \<le> o'" "o' - 512 * q = o' mod 512" by (simp_all add: q(1) minus_mult_div_eq_mod)
  have "o' + length dat - 1 < 512 * e" by (simp add: e(1))
  then have oe: "o' + length dat \<le> 512 * e" by linarith
  have X: "length X = 512 * e" using oe Y by (simp add: X_def)
  have m: "nat (min (int n) (int e) - int q) = n - q" "nat (int e - int q) * 512 = 512 * (e - q)"
    "nat (min (int e) 8344 - int q) = (k - q) + Suc (e - k - 1)" using nb(4-6) ne q(2) by linarith+
  have "read_blocks (n - q) (int q) 0 (zeros (512 * (e - q))) u
      = Some (mput 0 (data_of u (take (n - q) (drop q (take n nb)))) (zeros (512 * (e - q))))"
    by (rule read_blocks_ok[OF ok(2) _ _ ok(3)]) (use ok(4) nb ne q(2) in \<open>auto dest: in_set_takeD\<close>)
  moreover have "data_of u (take (n - q) (drop q (take n nb))) = mget (512 * q) (512 * (n - q)) D"
    using mget_data_of[OF ok(2), of q "n - q" "take n nb"] nb(3,4) q(2) by (simp add: D_def)
  ultimately have B0: "read_blocks (n - q) (int q) 0 (zeros (512 * (e - q))) u = Some (mget (512 * q) (512 * (e - q)) Y)"
    using read_window[OF D q(2) ne(2)] ne(1) by (simp add: Y_def min_def max_def)
  define B where "B = mget (512 * q) (512 * (e - q)) X"
  have eq: "512 * q + 512 * (e - q) = 512 * e" using ne by simp
  have Bp: "mput (o' mod 512) dat (mget (512 * q) (512 * (e - q)) Y) = B"
    using mget_mput_shift[of "512 * q" o' dat "512 * (e - q)" Y] oq oe eq Y by (simp add: B_def X_def)
  have "o' mod 512 + length dat \<le> 512 * (e - q)" using oq oe eq by linarith
  moreover have "length (mget (512 * q) (512 * (e - q)) Y) = 512 * (e - q)" using Y eq by simp
  ultimately have put: "buf_put (int (o' mod 512)) dat (mget (512 * q) (512 * (e - q)) Y) = Some B"
    using Bp by (simp only: buf_put_nat if_True)
  have Bl: "length B = 512 * (e - q)" using X eq by (simp add: B_def)
  have qk: "q \<le> k" "0 + 512 * (k - q) \<le> length B" using q(2) nb(4,5) Bl by (simp_all add: diff_le_mono)
  have "length nb \<le> 8344" "n \<le> length nb" "q + (k - q) \<le> length nb" "\<forall>b\<in>set (take n nb). uint b \<notin> set []"
    using nb(3-6) qk by simp_all
  from write_blocks_ok[OF nb(1,2) this(1,2,4) w this(3) qk(2)] qk(1) obtain v where v:
    "write_blocks (k - q) (int q) n 0 B u = Some (int q + int (k - q), v)" "writing nb n [] k v"
    "\<forall>l. q \<le> l \<and> l < k \<longrightarrow> file_blk v (unat (nb ! l)) = mget (512 * (l - q)) 512 B"
    "data_kept u ((\<lambda>l. unat (nb ! l)) ` {q..<k}) v" by auto
  have vv: "fs_ok v" "free_list v = []" "\<forall>l<k. f_ent (f_arr v) l = nb ! l" using v(2) nb(3,4) by (simp_all add: writing_def max_absorb2)
  have ik: "int q + int (k - q) = int k" using qk(1) by simp
  from write_blocks_none[OF vv(1,2), of n "int k" "e - k - 1" "0 + 512 * (k - q)" B] nb(4) obtain u1 where
    u1: "write_blocks (Suc (e - k - 1)) (int k) n (0 + 512 * (k - q)) B v = Some (int k, u1)" "fs_ok u1" "free_list u1 = []"
      "f_arr u1 = f_arr v" "data_kept (v\<lparr>ERRNO := - ENOSPC\<rparr>) {} u1" by auto
  have wr: "write_blocks ((k - q) + Suc (e - k - 1)) (int q) n 0 B u = Some (int k, u1)"
    unfolding write_blocks_split[OF v(1)] ik by (rule u1(1))
  have "data_kept (u\<lparr>ERRNO := - ENOSPC\<rparr>) ((\<lambda>l. unat (nb ! l)) ` {q..<k}) (v\<lparr>ERRNO := - ENOSPC\<rparr>)"
    using v(4) by (simp add: data_kept_def)
  from data_kept_trans[OF this u1(5)] have kept: "data_kept (u\<lparr>ERRNO := - ENOSPC\<rparr>) ((\<lambda>l. unat (nb ! l)) ` {q..<k}) u1" by simp
  have sub: "(\<lambda>l. unat (nb ! l)) ` {q..<k} \<subseteq> unat ` set nb" using nb(3) by auto
  have same: "file_blk u1 (unat b) = file_blk v (unat b)" if "b \<in> set nb" for b
    using u1(5) nb(2) that by (auto simp: data_kept_def data_block_def)
  have "data_of u1 nb = mget 0 (512 * k) X"
  proof (rule data_eqI, use X nb(3,5) in simp, intro allI impI)
    fix l assume l: "l < length nb"
    have b: "data_block (nb ! l)" "nb ! l \<in> set nb" using nb(2) l by simp_all
    have lk: "512 * l + 512 \<le> 512 * k" using l nb(3) by simp
    have "file_blk u1 (unat (nb ! l)) = mget (512 * l) 512 X"
    proof (cases "q \<le> l")
      case True
      then have "512 * (l - q) + 512 \<le> 512 * (e - q)" "512 * q + 512 * (l - q) = 512 * l" using l nb(3,5) by auto
      then show ?thesis using v(3) True l nb(3) same[OF b(2)] mget_mget[of "512 * (l - q)" 512 "512 * (e - q)" "512 * q" X]
        by (simp add: B_def)
    next
      case False
      then have ln: "l < n" using q(2) by simp
      have "unat (nb ! l) \<notin> (\<lambda>l. unat (nb ! l)) ` {q..<k}"
        using nb(1,3) l False by (auto simp: nth_eq_iff_index_eq dest!: unsigned_word_eqI)
      then have "file_blk u1 (unat (nb ! l)) = file_blk u (unat (nb ! l))" using kept b(1) by (auto simp: data_kept_def data_block_def)
      also have "\<dots> = mget (512 * l) 512 D"
        using mget_data_of[OF ok(2), of l 1 "take n nb"] ln nb(3,4)
        by (simp add: D_def data_of_def take_Suc_conv_app_nth hd_drop_conv_nth take_Suc)
      also have "\<dots> = mget (512 * l) 512 Y" using ln D by (simp add: Y_def mget_append1)
      also have "\<dots> = mget (512 * l) 512 X" using False oq oe X Y unfolding X_def by (subst mget_mput_out) auto
      finally show ?thesis .
    qed
    then show "file_blk u1 (unat (nb ! l)) = mget (512 * l) 512 (mget 0 (512 * k) X)" using mget_mget[OF lk, of 0 X] by simp
  qed
  then have "data_of u1 nb = take (512 * k) (mput o' dat (data_of u (take n nb) @ zeros (512 * (e - n))))"
    by (simp add: X_def Y_def D_def mget_def)
  then show ?thesis using B0 put wr u1(2-4) vv(3) data_kept_mono[OF kept sub] unfolding m by simp
qed

section \<open>fstream_write\<close>

text \<open>
  What is left: every block of the device is in the file and holds its part of the write; the size is the one asked for, which
  the blocks do not cover.
\<close>

definition ran_out :: "fs \<Rightarrow> nat \<Rightarrow> nat \<Rightarrow> byte list \<Rightarrow> fs \<Rightarrow> bool" where
  "ran_out s i o' dat t \<longleftrightarrow> (let nb = file_blocks s i @ map word_of_int (free_list s) in
     fs_ok t \<and> node_ok Fnode t i \<and> free_list t = [] \<and> file_blocks t i = nb \<and> ERRNO t = 0
     \<and> fsize_of t i = max (fsize_of s i) (o' + length dat) \<and> 512 * entries_of t i < fsize_of t i
     \<and> data_of t nb = take (512 * length nb) (mput o' dat (data_of s (file_blocks s i) @ zeros (512 * (end_block o' (length dat) - entries_of s i))))
     \<and> (\<forall>m<4096. m \<notin> {0, i} \<union> free_inodes s \<union> nodes_of Fnode s i \<longrightarrow> inode_at t m = inode_at s m)
     \<and> (\<forall>b>1024. b \<notin> unat ` set nb \<longrightarrow> file_blk t b = file_blk s b))"

text \<open>The pages that the blocks of the file and of the free list together need.\<close>

definition pages_for_rest :: "fs \<Rightarrow> nat \<Rightarrow> nat" where
  "pages_for_rest s i = need (npages Fnode (entries_of s i + length (free_list s))) (pages_of Fnode s i) 0 0"

lemma fstream_write_full:
  assumes s: "fs_ok s" "file_ok s i" and o: "o' \<le> fsize_of s i" "o' + z < 2147483648"
    and fz: "fsize_of s i < 2147483648" and z: "0 < z" "z \<le> length buf"
    and full: "entries_of s i + length (free_list s) < end_block o' z" "end_block o' z \<le> 8344"
    and cnt: "pages_for_rest s i \<le> card (free_inodes s)"
  shows "\<exists>t. fstream_write (int i) buf (int z) (int o') s = Some (- ENOSPC, t) \<and> ran_out s i o' (take z buf) t
     \<and> free_inodes t \<union> nodes_of Fnode t i = free_inodes s \<union> nodes_of Fnode s i"
proof -
  let ?n = "entries_of s i" and ?F = "fsize_of s i"
  define q e where "q = o' div 512" and "e = (o' + z - 1) div 512 + 1"
  define k nb where "k = ?n + length (free_list s)" and "nb = file_blocks s i @ map word_of_int (free_list s)"
  have ke: "k < e" "e \<le> 8344" using full by (simp_all add: k_def e_def end_block_def)
  have nok: "node_ok Fnode s i" "md_isdir (inode_at s i) = 0" "?F \<le> 512 * ?n" using s(2) by (simp_all add: file_ok_def)
  have nbf: "future_blocks s i k = nb" by (simp add: future_blocks_def nb_def k_def)
  note fu = future_ok[OF s, of k, unfolded nbf]
  have fuk: "k - ?n \<le> length (free_list s)" "drop (k - ?n) (free_list s) = []" "max ?n k = k" by (simp_all add: k_def)
  note fu = fu[OF fuk(1), unfolded fuk(2,3)]
  have tn: "take ?n nb = file_blocks s i" by (simp add: nb_def)
  obtain b A where A: "fnode_listing (of_nat i) s = (?n, s\<lparr>iblockbuf := b, f_arr := A\<rparr>)" "length A = ARR_BYTES"
    "\<forall>j<?n. f_ent A j = file_blocks s i ! j" using file_listing[OF s(1) nok(1)] by blast
  have fl: "length (f_arr s) = ARR_BYTES" "arrays_ok s" using s(1) by (simp_all add: fs_ok_def arrays_ok_def)
  let ?t = "s\<lparr>iblockbuf := b, f_arr := A\<rparr>"
  have "fs_ok ?t" "node_ok Fnode ?t i" "fsize_of ?t i = ?F" using s(1) nok(1) A(2) fl by (simp_all add: fsize_of_def)
  then obtain b' m l where at: "inode_get_attr_upc (of_nat i) ?t = ((m, l, int ?F), ?t\<lparr>iblockbuf := b'\<rparr>)"
    using get_attr_file[of ?t i] nok(2) fz by auto
  let ?u = "?t\<lparr>iblockbuf := b'\<rparr>" and ?s = "s\<lparr>ERRNO := - ENOSPC\<rparr>"
  have uok: "fs_ok ?u" using s(1) A(2) fl by simp
  have q: "q \<le> ?n" using o(1) nok(3) unfolding q_def by linarith
  have w: "writing nb ?n [] q ?u" using uok A(2,3) fu(4,6) q by (simp add: writing_def max_absorb1)
  have dat: "length (take z buf) = z" "take z buf \<noteq> []" using z by auto
  have e: "e = (o' + length (take z buf) - 1) div 512 + 1" by (simp only: e_def dat(1))
  have nk: "?n \<le> k" by (simp add: k_def)
  from write_data_short[OF w fu(2,3,1) nk ke q_def q e dat(2)] obtain B0 B u1 where u1:
    "read_blocks (nat (min (int ?n) (int e) - int q)) (int q) 0 (zeros (nat (int e - int q) * 512)) ?u = Some B0"
    "buf_put (int (o' mod 512)) (take z buf) B0 = Some B"
    "write_blocks (nat (min (int e) 8344 - int q)) (int q) ?n 0 B ?u = Some (int k, u1)" "fs_ok u1" "free_list u1 = []"
    "\<forall>l<k. f_ent (f_arr u1) l = nb ! l" "data_kept (?u\<lparr>ERRNO := - ENOSPC\<rparr>) (unat ` set nb) u1"
    "data_of u1 nb = take (512 * k) (mput o' (take z buf) (data_of ?u (take ?n nb) @ zeros (512 * (e - ?n))))" by blast
  have kept: "data_kept ?s (unat ` set nb) u1" using u1(7) by (simp add: data_kept_def)
  have k8: "length nb \<le> 8344" "length nb = k" using fu(1) ke by simp_all
  have oz: "512 * k < o' + z"
  proof -
    have "k \<le> (o' + z - 1) div 512" using ke(1) by (simp add: e_def)
    then have "512 * k \<le> o' + z - 1" by (simp add: less_eq_div_iff_mult_less_eq mult.commute)
    then show ?thesis using z(1) by linarith
  qed
  have F: "max ?F (o' + z) \<le> 8344 * 512"
  proof -
    have "o' + z - 1 < 512 * e" by (simp add: e_def)
    then show ?thesis using ke nok(3) nk by simp
  qed
  have sok: "fs_ok ?s" "node_ok Fnode ?s i" "md_isdir (inode_at ?s i) = 0" "arrays_ok ?s" "entries_of ?s i \<le> length nb"
    "need (npages Fnode (length nb)) (pages_of Fnode ?s i) 0 0 \<le> card (free_inodes ?s)"
    using s(1) nok(1,2) fl nk k8(2) cnt by (simp_all add: arrays_ok_def pages_for_rest_def k_def)
  have fe: "\<forall>l<length nb. f_ent (f_arr u1) l = nb ! l" using u1(6) k8(2) by simp
  from write_meta[OF sok(1-4) u1(4) kept fe u1(5) fu(3) k8(1) sok(5) F sok(6)] obtain t s' where s':
    "inode_set_attr_upc (of_nat i) None (Some (int (max ?F (o' + z)))) u1 = t"
    "fnode_listing_set (of_nat i) (int (length nb)) t = Some s'" "written ?s i nb (data_of u1 nb) (max ?F (o' + z)) [] s'" by blast
  have er: "errno_pop s' = (- ENOSPC, s'\<lparr>ERRNO := 0\<rparr>)" using s'(3) by (simp add: written_def errno_pop_def)
  let ?r = "s'\<lparr>ERRNO := 0\<rparr>"
  have du: "data_of ?u (take ?n nb) = data_of s (file_blocks s i)" by (simp add: data_of_def tn)
  have rb: "file_blocks ?r i = nb" using s'(3) by (simp add: written_def file_blocks_def)
  then have "entries_of ?r i = k" using length_file_blocks[of ?r i] k8(2) by simp
  moreover have "data_of ?r nb = data_of s' nb" "fsize_of ?r i = fsize_of s' i" by (simp_all add: data_of_def fsize_of_def)
  ultimately have out: "ran_out s i o' (take z buf) ?r"
    using s'(3) u1(8) du rb oz dat(1) k8(2) unfolding ran_out_def written_def Let_def nb_def[symmetric]
    by (simp add: end_block_def e_def)
  have fr: "free_inodes ?r \<union> nodes_of Fnode ?r i = free_inodes s \<union> nodes_of Fnode s i" using s'(3) by (simp add: written_def)
  have ints: "int_ok (int o' + int z) = Some (int o' + int z)" "int_ok (int o' + int z - 1) = Some (int o' + int z - 1)"
    using o(2) z(1) by (simp_all add: int_ok_def c_int_id)
  have pz: "int o' + int z - 1 = int (o' + z - 1)" using z(1) by simp
  have sd: "int a sdiv 512 = int (a div 512)" "int a smod 512 = int (a mod 512)" for a
    using int_sdiv[of a 512] by simp_all
  have dv: "int o' sdiv 512 = int q" "(int o' + int z - 1) sdiv 512 + 1 = int e" "int o' smod 512 = int (o' mod 512)"
    unfolding pz sd q_def e_def by simp_all
  have sz: "(if int k < int ?n then int ?n else int k) = int (length nb)"
    "(if int o' + int z < int ?F then int ?F else int o' + int z) = int (max ?F (o' + z))" using k8(2) nk by auto
  have neg: "- ENOSPC < 0" by (simp add: ENOSPC_def)
  have "fstream_write (int i) buf (int z) (int o') s = Some (- ENOSPC, ?r)"
    unfolding fstream_write_def
    by (simp only: ints dv sz A(1) at u1(1-3) s'(1,2) er z(2) of_int_of_nat_eq Let_def prod.case option.simps bind.bind_lunit
        nat_int of_nat_0_le_iff simp_thms if_True if_False neg of_nat_numeral)
  then show ?thesis using out fr by blast
qed

section \<open>sfs_write\<close>

text \<open>The numbers for the log line: an inode, which is not given back, and a block, of which there is none.\<close>

lemma log_line_pops:
  assumes s: "fs_ok s" "free_list s = []" "ERRNO s = 0"
  shows "\<exists>x s1 e s2 b s3 e' t. free_inode_pop s = (x, s1) \<and> errno_pop s1 = (e, s2) \<and> free_block_pop s2 = (b, s3) \<and> errno_pop s3 = (e', t)
     \<and> fs_ok t \<and> free_list t = [] \<and> ERRNO t = 0 \<and> free_inodes t = free_inodes s - {Min (free_inodes s)}
     \<and> (\<forall>b. b \<noteq> 0 \<and> b \<noteq> 1024 \<longrightarrow> file_blk t b = file_blk s b) \<and> mget 128 384 (file_blk t 0) = mget 128 384 (file_blk s 0)"
proof -
  have "\<exists>x s1 c. free_inode_pop s = (x, s1) \<and> snd (errno_pop s1) = s\<lparr>file_blk := (file_blk s)(1024 := c)\<rparr>
     \<and> fs_ok (s\<lparr>file_blk := (file_blk s)(1024 := c)\<rparr>) \<and> free_list (s\<lparr>file_blk := (file_blk s)(1024 := c)\<rparr>) = []
     \<and> free_inodes (s\<lparr>file_blk := (file_blk s)(1024 := c)\<rparr>) = free_inodes s - {Min (free_inodes s)}"
  proof (cases "free_inodes s = {}")
    case True
    have e: "s\<lparr>ERRNO := 0\<rparr> = s" using s(3) by (cases s) simp
    have "free_inode_pop s = (0, s\<lparr>ERRNO := - ENOSPC\<rparr>)" using free_inode_pop_none[OF fs_ok_disk[OF s(1)] True] by (simp add: errno_push_def)
    then show ?thesis using s True e
      by (intro exI[of _ 0] exI[of _ "s\<lparr>ERRNO := - ENOSPC\<rparr>"] exI[of _ "file_blk s 1024"]) (simp add: errno_pop_def)
  next
    case False
    from free_inode_pop_ok[OF s(1) False] obtain c where c:
      "free_inode_pop s = (of_nat (Min (free_inodes s)), s\<lparr>file_blk := (file_blk s)(1024 := c)\<rparr>)"
      "fs_ok (s\<lparr>file_blk := (file_blk s)(1024 := c)\<rparr>)" "free_list (s\<lparr>file_blk := (file_blk s)(1024 := c)\<rparr>) = free_list s"
      "free_inodes (s\<lparr>file_blk := (file_blk s)(1024 := c)\<rparr>) = free_inodes s - {Min (free_inodes s)}" by auto
    have e: "snd (errno_pop (s\<lparr>file_blk := (file_blk s)(1024 := c)\<rparr>)) = s\<lparr>file_blk := (file_blk s)(1024 := c)\<rparr>"
      using s(3) by (cases s) (simp add: errno_pop_def)
    show ?thesis
      by (rule exI[of _ "of_nat (Min (free_inodes s))"], rule exI[of _ "s\<lparr>file_blk := (file_blk s)(1024 := c)\<rparr>"], rule exI[of _ c],
          intro conjI c(1,2,4) e trans[OF c(3) s(2)])
  qed
  then obtain x s1 c where c: "free_inode_pop s = (x, s1)" "snd (errno_pop s1) = s\<lparr>file_blk := (file_blk s)(1024 := c)\<rparr>"
    "fs_ok (s\<lparr>file_blk := (file_blk s)(1024 := c)\<rparr>)" "free_list (s\<lparr>file_blk := (file_blk s)(1024 := c)\<rparr>) = []"
    "free_inodes (s\<lparr>file_blk := (file_blk s)(1024 := c)\<rparr>) = free_inodes s - {Min (free_inodes s)}" by blast
  let ?u = "s\<lparr>file_blk := (file_blk s)(1024 := c)\<rparr>"
  have "fb_inv ?u" using c(3) by (simp add: fs_ok_def)
  from pop_Nil_aux[OF this c(4)] obtain s3 where s3: "free_block_pop ?u = (-1, s3)" "fb_inv s3" "free_list s3 = []" "ERRNO s3 = - ENOSPC"
    "file_blk s3 = file_blk ?u" "fb_keep ?u s3" by blast
  have ar: "d_arr s3 = d_arr ?u" "f_arr s3 = f_arr ?u" using more_arrays[of s3 ?u] s3(6) by (simp_all add: fb_keep_def)
  have i: "disk_ok s3" "free_inodes s3 = free_inodes ?u" using fb_inv_ready[OF s3(2)] s3(5) by (simp_all add: fb_ready_def free_inodes_def)
  then have "fs_ok s3" using c(3) s3(2,3) ar by (simp add: fs_ok_def ib_inv_def)
  then have "fs_ok (s3\<lparr>ERRNO := 0\<rparr>)" by simp
  then show ?thesis using c(1,2,5) s3(1,3,5) i
    by (intro exI[of _ x] exI[of _ s1] exI[of _ "fst (errno_pop s1)"] exI[of _ ?u] exI[of _ "-1"] exI[of _ s3] exI[of _ "- ENOSPC"]
        exI[of _ "s3\<lparr>ERRNO := 0\<rparr>"]) (simp add: prod_eq_iff errno_pop_def s3(4))
qed

text \<open>They do not touch the file.\<close>

lemma ran_out_bitmap:
  assumes r: "ran_out s i o' dat t" and s: "fs_ok s" and u: "fs_ok u" "free_list u = []" "ERRNO u = 0" "free_inodes u \<subseteq> free_inodes t"
    and b: "\<forall>b. b \<noteq> 0 \<and> b \<noteq> 1024 \<longrightarrow> file_blk u b = file_blk t b" "mget 128 384 (file_blk u 0) = mget 128 384 (file_blk t 0)"
    and nb: "\<forall>b\<in>set (file_blocks s i @ map word_of_int (free_list s)). data_block b"
  shows "ran_out s i o' dat u" "nodes_of Fnode u i = nodes_of Fnode t i"
proof -
  have ti: "node_ok Fnode t i" "0 < i" "i < 4096" using r by (simp_all add: ran_out_def Let_def node_ok_def)
  have same: "inode_at u m = inode_at t m" if "0 < m" "m < 4096" for m
  proof -
    have "m div 4 \<noteq> 1024" using that by auto
    show ?thesis
    proof (cases "m div 4 = 0")
      case True
      then have "m mod 4 = m" "m < 4" by auto
      then have "mget (128 * (m mod 4)) 128 c = mget (128 * m - 128) 128 (mget 128 384 c)" for c :: "byte list"
        using that(1) mget_mget[of "128 * m - 128" 128 384 128 c] by simp
      then show ?thesis using b(2) True by (simp add: inode_at_def)
    next
      case False
      then show ?thesis using b(1) \<open>m div 4 \<noteq> 1024\<close> by (simp add: inode_at_def)
    qed
  qed
  have F: "({i} \<union> nodes_of Fnode t i) \<inter> ({0} \<union> free_inodes t) = {}" using ti(1) by (auto simp: node_ok_def)
  have m: "\<forall>m<4096. m \<notin> {0} \<union> free_inodes t \<longrightarrow> inode_at u m = inode_at t m" using same by simp
  have f: "free_inodes u \<subseteq> {0} \<union> free_inodes t" using u(4) by blast
  have n: "node_ok Fnode u i" "inode_at u i = inode_at t i" "nodes_of Fnode u i = nodes_of Fnode t i"
    "node_bytes u (inode_at t i) (pages_of Fnode t i) = node_bytes t (inode_at t i) (pages_of Fnode t i)"
    using same_node[OF m ti(1) F f] by blast+
  show "nodes_of Fnode u i = nodes_of Fnode t i" by (rule n(3))
  have e: "entries_of u i = entries_of t i" "pages_of Fnode u i = pages_of Fnode t i" "fsize_of u i = fsize_of t i"
    using n(2) by (simp_all add: entries_of_def pages_of_def fsize_of_def)
  have fb: "file_blocks u i = file_blocks t i" using n e by (simp add: file_blocks_def)
  have "file_blk u (unat v) = file_blk t (unat v)" if "data_block v" for v :: blknum_t
  proof -
    have "unat v \<noteq> 0" "unat v \<noteq> 1024" using that by (simp_all add: data_block_def)
    then show ?thesis using b(1) by blast
  qed
  then have "data_of u bs = data_of t bs" if "\<forall>b\<in>set bs. data_block b" for bs
    using that by (simp add: data_of_def cong: map_cong)
  then have d: "data_of u (file_blocks s i @ map word_of_int (free_list s)) = data_of t (file_blocks s i @ map word_of_int (free_list s))"
    using nb by blast
  have "inode_at u m = inode_at s m" if "m < 4096" "m \<notin> {0, i} \<union> free_inodes s \<union> nodes_of Fnode s i" for m
    using same[of m] that r by (simp add: ran_out_def Let_def)
  then show "ran_out s i o' dat u" using r u(1-3) n(1) e fb d b(1) by (simp add: ran_out_def Let_def)
qed

lemma sfs_write_full:
  assumes s: "fs_ok s" "ERRNO s = 0" "\<forall>d\<in>set cs. component d" "component c" "length (path_text cs c) < PATH_MAX"
    and w: "path_walk s 2 cs (int p)" "node_ok Dnode s p" "lookup_in s p c = int i" "file_ok s i"
    and o: "o' \<le> fsize_of s i" "o' + z < 2147483648" "fsize_of s i < 2147483648" "0 < z" "z \<le> length buf"
    and full: "entries_of s i + length (free_list s) < end_block o' z" "end_block o' z \<le> 8344"
      "pages_for_rest s i \<le> card (free_inodes s)"
  shows "\<exists>t F. sfs_write (path_text cs c @ 0 # r) buf (int z) (int o') s = Some (- ENOSPC, t) \<and> ran_out s i o' (take z buf) t
     \<and> F \<union> nodes_of Fnode t i = free_inodes s \<union> nodes_of Fnode s i \<and> free_inodes t = F - {Min F}"
proof -
  obtain u where u: "path_to_inum (path_text cs c @ 0 # r) s = Some ((int i, int p), u)" "same_disk s u"
    using path_resolves[OF s(1,3-5) w(1,2)] w(3) by metis
  note d = same_disk_frame[OF u(2)] file_same_disk[OF u(2)]
  have ok: "fs_ok u" "file_ok u i" "o' \<le> fsize_of u i" "fsize_of u i < 2147483648"
    "entries_of u i + length (free_list u) < end_block o' z" "pages_for_rest u i \<le> card (free_inodes u)"
    using d s(1) w(4) o full by (simp_all add: pages_for_rest_def)
  from fstream_write_full[OF ok(1-3) o(2) ok(4) o(4,5) ok(5) full(2) ok(6)] obtain t where
    t: "fstream_write (int i) buf (int z) (int o') u = Some (- ENOSPC, t)" "ran_out u i o' (take z buf) t"
      "free_inodes t \<union> nodes_of Fnode t i = free_inodes s \<union> nodes_of Fnode s i" using d by auto
  have dd: "data_of u bs = data_of s bs" for bs by (simp add: data_of_def d)
  have ro: "ran_out s i o' (take z buf) t" using t(2) by (simp add: ran_out_def Let_def d dd)
  then have tt: "fs_ok t" "free_list t = []" "ERRNO t = 0" by (simp_all add: ran_out_def Let_def)
  obtain x s1 e s2 b s3 e' v where v:
    "free_inode_pop t = (x, s1)" "errno_pop s1 = (e, s2)" "free_block_pop s2 = (b, s3)" "errno_pop s3 = (e', v)"
    "fs_ok v" "free_list v = []" "ERRNO v = 0" "free_inodes v = free_inodes t - {Min (free_inodes t)}"
    "\<forall>b. b \<noteq> 0 \<and> b \<noteq> 1024 \<longrightarrow> file_blk v b = file_blk t b" "mget 128 384 (file_blk v 0) = mget 128 384 (file_blk t 0)"
    using log_line_pops[OF tt] by (elim exE conjE)
  have nb: "\<forall>b\<in>set (file_blocks s i @ map word_of_int (free_list s)). data_block b"
    using w(4) free_list_words(1)[OF s(1)] by (auto simp: file_ok_def)
  have sub: "free_inodes v \<subseteq> free_inodes t" using v(8) by blast
  note k = ran_out_bitmap[OF ro s(1) v(5-7) sub v(9,10) nb]
  have "- ENOSPC < 0" by (simp add: ENOSPC_def)
  then have "sfs_write (path_text cs c @ 0 # r) buf (int z) (int o') s = Some (- ENOSPC, v)"
    using u(1) t(1) v(1-4) o(1-3) by (simp add: sfs_write_def c_int_id)
  then show ?thesis using k v(8) t(3) by (intro exI[of _ v] exI[of _ "free_inodes t"]) simp
qed

section \<open>A device with one block left\<close>

text \<open>Blocks popped and never used, as the log line of a failed write pops them.\<close>

definition drain :: "nat \<Rightarrow> fs \<Rightarrow> fs" where
  "drain n s = fold (\<lambda>i s. snd (free_block_pop s)) [0..<n] s"

lemma data_pop_ok:
  assumes s: "fs_ok s" "free_list s = b # bs"
  shows "fs_ok (snd (free_block_pop s)) \<and> free_list (snd (free_block_pop s)) = bs \<and> data_kept s {} (snd (free_block_pop s))"
proof -
  have fb: "fb_inv s" using s(1) by (simp add: fs_ok_def)
  from pop_Cons_aux[OF fb s(2)] obtain t where t: "free_block_pop s = (b, t)" "fb_inv t" "free_list t = bs" "ERRNO t = ERRNO s" "fb_keep s t"
    by blast
  have ar: "d_arr t = d_arr s" "f_arr t = f_arr s" using more_arrays[of t s] t(5) by (simp_all add: fb_keep_def)
  have k: "data_kept s {} t" using t(4,5) ar by (simp add: data_kept_def fb_keep_def)
  have "disk_ok t" using fb_inv_ready[OF t(2)] by (simp add: fb_ready_def)
  then have "fs_ok t" using s t(2,3) ar data_kept_free[OF k] by (simp add: fs_ok_def ib_inv_def)
  then show ?thesis using t(1,3) k by simp
qed

lemma drain_ok: "fs_ok s \<Longrightarrow> n \<le> length (free_list s) \<Longrightarrow>
   fs_ok (drain n s) \<and> free_list (drain n s) = drop n (free_list s) \<and> data_kept s {} (drain n s)"
proof (induction n)
  case 0
  then show ?case by (simp add: drain_def data_kept_def)
next
  case (Suc n)
  let ?t = "drain n s"
  have d: "drain (Suc n) s = snd (free_block_pop ?t)" by (simp add: drain_def)
  have t: "fs_ok ?t" "free_list ?t = drop n (free_list s)" "data_kept s {} ?t" using Suc by simp_all
  have "free_list ?t = (free_list s ! n) # drop (Suc n) (free_list s)" using Suc.prems(2) t(2) by (simp add: Cons_nth_drop_Suc)
  from data_pop_ok[OF t(1) this] show ?case unfolding d using data_kept_trans[OF t(3), of "{}"] by auto
qed

lemma drain_file:
  assumes s: "fs_ok s" "ERRNO s = 0" "file_ok s i" "node_ok Dnode s p" and n: "n \<le> length (free_list s)"
  shows "ERRNO (drain n s) = 0" "file_ok (drain n s) i" "node_ok Dnode (drain n s) p" "lookup_in (drain n s) p c = lookup_in s p c"
    "entries_of (drain n s) i = entries_of s i" "fsize_of (drain n s) i = fsize_of s i"
proof -
  let ?u = "drain n s"
  note u = drain_ok[OF s(1) n]
  have k: "data_kept s {} ?u" "\<forall>b\<in>{}. 1024 < (b :: nat)" using u by simp_all
  note f = data_kept_node[OF k, of Fnode i] and d = data_kept_node[OF k s(4)]
  show "ERRNO ?u = 0" using k s(2) by (simp add: data_kept_def)
  show "node_ok Dnode ?u p" by (rule d)
  show e: "entries_of ?u i = entries_of s i" "fsize_of ?u i = fsize_of s i"
    using f(2) s(3) by (simp_all add: entries_of_def fsize_of_def file_ok_def)
  then have "file_blocks ?u i = file_blocks s i" using f(2,4) s(3) by (simp add: file_blocks_def pages_of_def file_ok_def)
  then show "file_ok ?u i" using f(1,2) s(3) u e by (auto simp: file_ok_def dest: in_set_dropD)
  have "dir_entries ?u p = dir_entries s p" using d(2,4) by (simp add: dir_entries_def entries_of_def pages_of_def)
  then show "lookup_in ?u p c = lookup_in s p c" by (simp add: lookup_in_def)
qed

section \<open>Property\<close>

text \<open>
  C19. A write the device has no blocks for: sfs_write answers -ENOSPC, but it is not undone. All the free blocks are in the file and hold
  the part of the data that fits; the size is nevertheless the one the write would have reached, beyond the blocks of the file; and
  the least free inode is lost to the log line. Every other inode and data block is as before.
\<close>

theorem sfs_write_no_space:
  assumes "fs_ok s" "ERRNO s = 0" "\<forall>d\<in>set cs. component d" "component c" "length (path_text cs c) < PATH_MAX"
    and "path_walk s 2 cs (int p)" "node_ok Dnode s p" "lookup_in s p c = int i" "file_ok s i"
    and "o' \<le> fsize_of s i" "o' + z < 2147483648" "fsize_of s i < 2147483648" "0 < z" "z \<le> length buf"
    and "entries_of s i + length (free_list s) < end_block o' z" "end_block o' z \<le> 8344" "pages_for_rest s i \<le> card (free_inodes s)"
  shows "\<exists>t F. sfs_write (path_text cs c @ 0 # r) buf (int z) (int o') s = Some (- ENOSPC, t) \<and> ran_out s i o' (take z buf) t
     \<and> F \<union> nodes_of Fnode t i = free_inodes s \<union> nodes_of Fnode s i \<and> free_inodes t = F - {Min F}"
  by (rule sfs_write_full[OF assms])

theorem sfs_write_no_space_witness:
  "\<exists>s t. sfs_create a_text mounted = Some (0, s) \<and> sfs_write a_text (replicate 600 7) 600 0 (drain 31742 s) = Some (-28, t)
     \<and> fsize_of t 3 = 600 \<and> file_blocks t 3 = [32767] \<and> data_of t [32767] = replicate 512 7"
proof -
  obtain s where s: "sfs_create a_text mounted = Some (0, s)" "fs_ok s" "ERRNO s = 0" "node_ok Dnode s 2" "file_ok s 3"
    "lookup_in s 2 [97] = int 3" and e: "entries_of s 3 = 0" "free_list s = blocks_from 1025" and z: "fsize_of s 3 = 0"
    using a_file by blast
  let ?u = "drain 31742 s"
  have n: "31742 \<le> length (free_list s)" by (simp add: e length_blocks_from)
  note g = drain_ok[OF s(2) n] and h = drain_file[OF s(2,3,5,4) n]
  have fl: "free_list ?u = blocks_from 32767" using g e drop_blocks_from[of 31742 1025] by simp
  have "pages_for_rest ?u 3 \<le> card (free_inodes ?u)"
    using fl h(5) e by (simp add: pages_for_rest_def pages_of_def need_def ndouble_def npages_def length_blocks_from)
  moreover have "entries_of ?u 3 + length (free_list ?u) < end_block 0 600" using fl h(5) e by (simp add: end_block_def length_blocks_from)
  moreover have "path_walk ?u 2 [] (int 2)" by (simp add: walk_here)
  ultimately obtain t where t: "sfs_write (path_text [] [97] @ 0 # zeros 19) (replicate 600 7) (int 600) (int 0) ?u = Some (- ENOSPC, t)"
    "ran_out ?u 3 0 (take 600 (replicate 600 7)) t"
    using sfs_write_no_space[of ?u "[]" "[97]" 2 3 0 600 "replicate 600 7" "zeros 19"] g h a_path(1-3) s(6) z by (auto simp: end_block_def)
  have "length (blocks_from 32768) = 0" by simp
  then have "blocks_from 32768 = []" by (simp only: length_0_conv)
  then have b: "blocks_from 32767 = [32767]" using blocks_from_Cons[of 32767] by simp
  have fb: "file_blocks ?u 3 = []" using h(5) e(1) by (simp add: file_blocks_def)
  have "file_blocks t 3 = [32767]" "fsize_of t 3 = 600" using t(2) fl b fb h(6) z by (simp_all add: ran_out_def Let_def)
  moreover have "data_of t [32767] = replicate 512 7"
    using t(2) fl b fb h(5) e(1) by (simp add: ran_out_def Let_def end_block_def mput_def data_of_def)
  ultimately show ?thesis using s(1) t(1) by (auto simp: a_text_def ENOSPC_def)
qed

end
