(* ===== verification/FS_NoInode.thy ===== *)
theory FS_NoInode
  imports FS_Requests
begin

text \<open>
  Creating a node when no inode is free. \<open>free_inode_pop\<close> answers 0, the handlers go on with it and overwrite the
  superblock, so the invariant \<open>fs_ok\<close> is lost half way: the lemmas on directories here rest on \<open>disk_ok\<close> alone
  and are about directories that need no page.
\<close>

section \<open>A small directory on any disk\<close>

text \<open>Inode \<open>i\<close> is all that differs between two states.\<close>

definition only_node :: "fs \<Rightarrow> nat \<Rightarrow> fs \<Rightarrow> bool" where
  "only_node s i u \<longleftrightarrow> disk_ok u \<and> arrays_ok u \<and> (\<forall>m<4096. m \<noteq> i \<longrightarrow> inode_at u m = inode_at s m)
     \<and> (\<forall>b\<ge>1024. file_blk u b = file_blk s b) \<and> ERRNO u = ERRNO s"

lemma only_node_trans: "only_node s i t \<Longrightarrow> only_node t i u \<Longrightarrow> only_node s i u"
  by (simp add: only_node_def)

definition small_dir :: "fs \<Rightarrow> nat \<Rightarrow> bool" where
  "small_dir s i \<longleftrightarrow> disk_ok s \<and> arrays_ok s \<and> i < 4096 \<and> md_ino (inode_at s i) = of_nat i \<and> entries_of s i \<le> 6"

lemma only_node_dump:
  assumes "disk_ok s" "arrays_ok s" "i < 4096" "length nd = INODE_SIZE"
  shows "only_node s i (inode_dump (int i) nd s)" "inode_at (inode_dump (int i) nd s) i = nd"
proof -
  have m: "i < MAX_INODES" "i div 4 < 1024" using assms(3) by simp_all
  have "file_blk (inode_dump (int i) nd s) b = file_blk s b" if "1024 \<le> b" for b
    using file_blk_dump[OF assms(1) m(1) assms(4), of b] m(2) that by simp
  then show "only_node s i (inode_dump (int i) nd s)" "inode_at (inode_dump (int i) nd s) i = nd"
    using inode_at_dump[OF assms(1) m(1) assms(4)] disk_ok_dump[OF assms(1) m(1) assms(4)] assms(2)
    by (simp_all add: only_node_def arrays_ok_def)
qed

lemma arrays_frame [simp]: "arrays_ok (s\<lparr>iblockbuf := b\<rparr>) = arrays_ok s" "length a = ARR_BYTES \<Longrightarrow> arrays_ok s \<Longrightarrow> arrays_ok (s\<lparr>d_arr := a\<rparr>)"
  by (simp_all add: arrays_ok_def)

lemma npages_few: "n \<le> 6 \<Longrightarrow> npages Dnode n = 0"
  by (simp add: npages_def)

lemma few_entries: "entries_of s i \<le> 6 \<Longrightarrow> dir_entries s i = map (d_ent (mget 16 96 (inode_at s i))) [0..<entries_of s i]"
  by (simp add: dir_entries_def pages_of_def npages_few node_bytes_def)

text \<open>Storing a listing that fits into the inode touches no page.\<close>

lemma few_set:
  assumes s: "small_dir s i" and n: "n \<le> 6"
  shows "\<exists>u. dnode_listing_set (of_nat i) (int n) s = Some u \<and> only_node s i u \<and> d_arr u = d_arr s
     \<and> inode_at u i = set_head (d_arr s) n (inode_at s i)"
proof -
  have d: "disk_ok s" "arrays_ok s" "i < 4096" "unat (of_nat i :: ushort) = i" "length (d_arr s) = ARR_BYTES"
    using s by (simp_all add: small_dir_def arrays_ok_def unat_of_nat_ushort)
  let ?nd = "set_head (d_arr s) n (inode_at s i)" and ?s = "s\<lparr>iblockbuf := file_blk s (i div 4)\<rparr>"
  have l: "length (inode_at s i) = INODE_SIZE" using d(1) by simp
  note h = set_head_simps[OF l d(5), of n]
  have m: "uint (md_ino ?nd) = int i" using s h(4) uint_of_nat_ushort[of i] d(3) by (simp add: small_dir_def)
  have old: "uint (md_size (inode_at s i)) \<le> 6" using s unfolding small_dir_def entries_of_def uint_nat by linarith
  have "dnode_listing_set (of_nat i) (int n) s = Some (inode_dump (int i) ?nd ?s)"
    using n old inode_load_ushort[OF d(1), of "of_nat i"] d(4) m
    by (simp add: dnode_listing_set_def node_listing_set_def Let_def set_head_def upt_conv_Cons lset_single_def lset_double_def)
  then show ?thesis using only_node_dump[of ?s i ?nd] d h(1) by (auto simp: only_node_def)
qed

text \<open>Writing the link count back.\<close>

lemma few_nlink:
  assumes s: "disk_ok s" "arrays_ok s" "i < 4096"
  shows "only_node s i (inode_dump (int i) (set_nlink v (inode_at s i)) (s\<lparr>iblockbuf := b\<rparr>))
     \<and> inode_at (inode_dump (int i) (set_nlink v (inode_at s i)) (s\<lparr>iblockbuf := b\<rparr>)) i = set_nlink v (inode_at s i)"
proof -
  have "length (set_nlink v (inode_at s i)) = INODE_SIZE" using s(1) by (simp add: layout_defs)
  from only_node_dump[OF _ _ s(3) this, of "s\<lparr>iblockbuf := b\<rparr>"] s show ?thesis by (simp add: only_node_def)
qed

lemma nlink_simps:
  "length nd = INODE_SIZE \<Longrightarrow> md_ino (set_nlink v nd) = md_ino nd \<and> md_size (set_nlink v nd) = md_size nd
     \<and> md_nlink (set_nlink v nd) = v \<and> mget 16 96 (set_nlink v nd) = mget 16 96 nd"
  by (simp add: layout_defs mem_simps)

text \<open>A directory whose listing is stored and whose link count is set.\<close>

definition stored :: "fs \<Rightarrow> nat \<Rightarrow> byte list \<Rightarrow> nat \<Rightarrow> ushort \<Rightarrow> fs \<Rightarrow> bool" where
  "stored s i a n v u \<longleftrightarrow> only_node s i u \<and> d_arr u = a \<and> small_dir u i
     \<and> dir_entries u i = map (d_ent a) [0..<n] \<and> md_nlink (inode_at u i) = v"

lemma few_store:
  assumes s: "small_dir s i" and n: "n \<le> 6"
  shows "\<exists>w. dnode_listing_set (of_nat i) (int n) s = Some w \<and> disk_ok w \<and> md_nlink (inode_at w i) = md_nlink (inode_at s i)
     \<and> (\<forall>v b. stored s i (d_arr s) n v (inode_dump (int i) (set_nlink v (inode_at w i)) (w\<lparr>iblockbuf := b\<rparr>)))"
proof -
  from few_set[OF s n] obtain w where w: "dnode_listing_set (of_nat i) (int n) s = Some w" "only_node s i w" "d_arr w = d_arr s"
    "inode_at w i = set_head (d_arr s) n (inode_at s i)" by blast
  have d: "disk_ok w" "arrays_ok w" "i < 4096" using w(2) s by (simp_all add: only_node_def small_dir_def)
  have l: "length (inode_at s i) = INODE_SIZE" "length (d_arr s) = ARR_BYTES" "length (inode_at w i) = INODE_SIZE"
    using s d(1) by (simp_all add: small_dir_def arrays_ok_def)
  note h = set_head_simps[OF l(1,2), of n, folded w(4)]
  have "stored s i (d_arr s) n v (inode_dump (int i) (set_nlink v (inode_at w i)) (w\<lparr>iblockbuf := b\<rparr>))" for v b
  proof -
    let ?u = "inode_dump (int i) (set_nlink v (inode_at w i)) (w\<lparr>iblockbuf := b\<rparr>)"
    note k = nlink_simps[OF l(3), of v] and f = few_nlink[OF d, of v b]
    have u: "inode_at ?u i = set_nlink v (inode_at w i)" using f by simp
    have e: "entries_of ?u i = n" using k h(3) n by (simp add: entries_of_def u unat_of_nat_ushort)
    have "d_ent (mget 16 96 (inode_at ?u i)) j = d_ent (d_arr s) j" if "j < n" for j
      using that n k h(2) by (simp add: u d_ent_mget)
    then have "dir_entries ?u i = map (d_ent (d_arr s)) [0..<n]" using few_entries[of ?u i] e n by simp
    moreover have "small_dir ?u i" using f k h(4) e n s by (simp add: small_dir_def only_node_def)
    moreover have "only_node s i ?u" using w(2) f only_node_trans by blast
    ultimately show ?thesis using w(3) k by (simp add: stored_def u)
  qed
  then show ?thesis using w(1) h(6) d(1) by blast
qed

lemma few_listing:
  assumes "small_dir s i"
  shows "\<exists>b A. dnode_listing (of_nat i) s = (entries_of s i, s\<lparr>iblockbuf := b, d_arr := A\<rparr>)
     \<and> length A = ARR_BYTES \<and> map (d_ent A) [0..<entries_of s i] = dir_entries s i"
  using assms by (intro dir_listing_any) (simp_all add: small_dir_def pages_of_def npages_few)

lemma few_frame:
  assumes "small_dir s i" "length A = ARR_BYTES"
  shows "small_dir (s\<lparr>iblockbuf := b, d_arr := A\<rparr>) i" "stored (s\<lparr>iblockbuf := b, d_arr := A\<rparr>) i a n v u \<Longrightarrow> stored s i a n v u"
  using assms by (simp_all add: small_dir_def stored_def only_node_def)

lemma few_append:
  assumes s: "small_dir s i" "entries_of s i \<le> 5" and e: "length (de_name e) = 14"
  shows "\<exists>u. dnode_append (int i) e s = Some u \<and> only_node s i u \<and> small_dir u i \<and> dir_entries u i = dir_entries s i @ [e]
     \<and> md_nlink (inode_at u i) = md_nlink (inode_at s i) + 1"
proof -
  let ?n = "entries_of s i"
  obtain b A where A: "dnode_listing (of_nat i) s = (?n, s\<lparr>iblockbuf := b, d_arr := A\<rparr>)" "length A = ARR_BYTES"
    "map (d_ent A) [0..<?n] = dir_entries s i" using few_listing[OF s(1)] by blast
  obtain A' where A': "set_d_ent ?n e A = Some A'" using A(2) s(2) by (simp add: set_d_ent_def)
  note a = d_ent_set[OF A' e]
  let ?t = "s\<lparr>iblockbuf := b, d_arr := A'\<rparr>"
  have t: "small_dir ?t i" "Suc ?n \<le> 6" using few_frame(1)[OF s(1)] a(1) A(2) s(2) by simp_all
  from few_store[OF t] obtain w where w: "dnode_listing_set (of_nat i) (int (Suc ?n)) ?t = Some w" "disk_ok w"
    "md_nlink (inode_at w i) = md_nlink (inode_at s i)"
    "\<forall>v b. stored ?t i A' (Suc ?n) v (inode_dump (int i) (set_nlink v (inode_at w i)) (w\<lparr>iblockbuf := b\<rparr>))" by auto
  define u where "u = inode_dump (int i) (set_nlink (md_nlink (inode_at w i) + 1) (inode_at w i)) (w\<lparr>iblockbuf := file_blk w (i div 4)\<rparr>)"
  have "i < MAX_INODES" using s(1) by (simp add: small_dir_def)
  then have "dnode_append (int i) e s = Some u"
    using A(1) A' w(1) inode_load_eq[OF w(2)] by (simp add: dnode_append_def Let_def u_def add.commute)
  moreover have "stored s i A' (Suc ?n) (md_nlink (inode_at w i) + 1) u"
    unfolding u_def by (rule few_frame(2)[OF s(1) _ w(4)[rule_format]]) (simp add: a(1) A(2))
  moreover have "map (d_ent A') [0..<?n] = map (d_ent A) [0..<?n]" using a(2) A(2) s(2) by simp
  then have "map (d_ent A') [0..<Suc ?n] = dir_entries s i @ [e]" using a(3) A(3) by simp
  ultimately show ?thesis using w(3) by (auto simp: stored_def)
qed

text \<open>Removing the last entry, when no other has its name.\<close>

lemma few_remove_last:
  assumes s: "small_dir s i" "dir_entries s i = es @ [e]" and f: "readable 13 fname" "same_name e fname" "\<forall>x\<in>set es. \<not> same_name x fname"
  shows "\<exists>u. dnode_remove (int i) fname s = Some u \<and> only_node s i u \<and> dir_entries u i = es
     \<and> md_nlink (inode_at u i) = md_nlink (inode_at s i) - 1"
proof -
  let ?n = "length es"
  have n: "entries_of s i = Suc ?n" "?n \<le> 5" using s length_dir_entries[of s i] by (simp_all add: small_dir_def)
  obtain b A where A: "dnode_listing (of_nat i) s = (Suc ?n, s\<lparr>iblockbuf := b, d_arr := A\<rparr>)" "length A = ARR_BYTES"
    "map (d_ent A) [0..<Suc ?n] = es @ [e]" using few_listing[OF s(1)] n s(2) by auto
  let ?t = "s\<lparr>iblockbuf := b, d_arr := A\<rparr>"
  have es: "map (d_ent A) [0..<?n] = es" "d_ent A ?n = e" using A(3) by simp_all
  have cmp: "strncmp0 (mget (16 * j) 16 A) fname 13 = Some (j = ?n)" if "j \<le> ?n" for j
  proof -
    have "d_ent A j \<in> set es" if "j < ?n" using that by (subst es(1)[symmetric]) simp
    then show ?thesis using strncmp_entry[of j A fname] f es(2) A(2) n(2) that by (cases "j = ?n") auto
  qed
  have "\<exists>x. loop [0..<?n] (remove_step (int i) fname (Suc ?n)) ?t = Some x \<and> x = ?t"
    by (rule loop_rule[where P = "\<lambda>j x. x = ?t"]) (use cmp A(2) n(2) in \<open>simp_all add: remove_step_def\<close>)
  moreover have same: "mput (16 * ?n) (mget (16 * ?n) 16 A) A = A" using A(2) n(2) by (simp add: mput_mget_id)
  from few_store[OF few_frame(1)[OF s(1) A(2), of b], of ?n] n(2) obtain w where w: "dnode_listing_set (of_nat i) (int ?n) ?t = Some w" "disk_ok w"
    "md_nlink (inode_at w i) = md_nlink (inode_at s i)"
    "\<forall>v b. stored ?t i A ?n v (inode_dump (int i) (set_nlink v (inode_at w i)) (w\<lparr>iblockbuf := b\<rparr>))" by auto
  define u where "u = inode_dump (int i) (set_nlink (md_nlink (inode_at w i) - 1) (inode_at w i)) (w\<lparr>iblockbuf := file_blk w (i div 4)\<rparr>)"
  have "i < MAX_INODES" using s(1) by (simp add: small_dir_def)
  then have "remove_step (int i) fname (Suc ?n) ?n ?t = Some u"
    using cmp[of ?n] A(2) n(2) same w(1) inode_load_eq[OF w(2)] by (simp add: remove_step_def Let_def u_def)
  ultimately have "dnode_remove (int i) fname s = Some u" using A(1) by (simp add: dnode_remove_def loop_append)
  moreover have "stored s i A ?n (md_nlink (inode_at w i) - 1) u"
    unfolding u_def by (rule few_frame(2)[OF s(1) A(2) w(4)[rule_format]])
  ultimately show ?thesis using w(3) es(1) by (auto simp: stored_def)
qed

section \<open>A superblock overwritten by an inode\<close>

text \<open>Two 16-bit fields read as one 32-bit field.\<close>

lemma halves_bit:
  "bit (ucast (b0 :: byte) OR push_bit 8 (ucast (b1 :: byte)) OR push_bit 16 (ucast (b2 :: byte)) OR push_bit 24 (ucast (b3 :: byte)) :: blknum_t) n
   = bit (ucast (ucast b0 OR push_bit 8 (ucast b1) :: ushort) OR push_bit 16 (ucast (ucast b2 OR push_bit 8 (ucast b3) :: ushort)) :: blknum_t) n"
proof -
  have lt: "bit (b :: byte) i \<Longrightarrow> i < 8" for b i using bit_imp_le_length[of b i] by simp
  show ?thesis by (auto simp: bit_simps dest: lt)
qed

lemma get32_halves:
  "4 \<le> length m \<Longrightarrow> get32 0 m = ucast (get16 0 m) OR push_bit 16 (ucast (get16 2 m))"
proof -
  assume "4 \<le> length m"
  define b where "b = (\<lambda>i. m ! i)"
  have m: "mget 0 4 m ! i = b i" if "i < 4" for i using \<open>4 \<le> length m\<close> that by (simp add: nth_mget b_def)
  have h: "mget 0 2 m ! i = b i" "mget 2 2 m ! i = b (2 + i)" if "i < 2" for i
    using \<open>4 \<le> length m\<close> that by (simp_all add: nth_mget b_def)
  have "rd32 (mget 0 4 m) = ucast (rd16 (mget 0 2 m)) OR push_bit 16 (ucast (rd16 (mget 2 2 m)))"
  proof (rule bit_word_eqI)
    fix n :: nat
    have "rd32 (mget 0 4 m) = ucast (b 0) OR push_bit 8 (ucast (b 1)) OR push_bit 16 (ucast (b 2)) OR push_bit 24 (ucast (b 3))"
      by (simp add: rd32_def m)
    moreover have "rd16 (mget 0 2 m) = ucast (b 0) OR push_bit 8 (ucast (b 1))" "rd16 (mget 2 2 m) = ucast (b 2) OR push_bit 8 (ucast (b 3))"
      using h(1)[of 0] h(1)[of 1] h(2)[of 0] h(2)[of 1] by (simp_all add: rd16_def)
    ultimately show "bit (rd32 (mget 0 4 m)) n = bit (ucast (rd16 (mget 0 2 m)) OR push_bit 16 (ucast (rd16 (mget 2 2 m))) :: blknum_t) n"
      by (simp only:) (rule halves_bit)
  qed
  then show ?thesis by (simp add: get32_def get16_def)
qed

lemma ushort_word: "p < 65536 \<Longrightarrow> ucast (of_nat p :: ushort) = (of_nat p :: blknum_t)"
  by (rule word_uint_eqI) (simp add: unsigned_ucast_eq unsigned_of_nat take_bit_nat_eq_self)

lemma shifted_word: "p < 32768 \<Longrightarrow> unat (push_bit 16 (ucast (of_nat p :: ushort)) :: blknum_t) = 65536 * p"
  using ushort_word[of p] by (simp add: push_bit_eq_mult unat_word_ariths unsigned_of_nat take_bit_nat_eq_self)

lemma node_as_superblock:
  assumes "length nd = INODE_SIZE" "md_ino nd = 0" "md_pno nd = of_nat p" "p < 32768"
  shows "sb_head nd = 65536 * int p"
proof -
  have "get16 0 nd = 0" "get16 2 nd = of_nat p" using assms(2,3) by (simp_all add: layout_defs)
  then have g: "get32 0 nd = push_bit 16 (ucast (of_nat p :: ushort))" using get32_halves[of nd] assms(1) by simp
  have "unat (push_bit 16 (ucast (of_nat p :: ushort)) :: blknum_t) < 2147483648"
    unfolding shifted_word[OF assms(4)] using assms(4) by simp
  from sint_blknum[OF this] have "sint (push_bit 16 (ucast (of_nat p :: ushort)) :: blknum_t) = 65536 * int p"
    by (simp only: shifted_word[OF assms(4)] of_nat_mult of_nat_numeral)
  then show ?thesis by (simp add: sb_head_def get_int_def g)
qed

text \<open>What is left: the new node in place of the superblock, and everything else as it was.\<close>

definition superblock_lost :: "fs \<Rightarrow> nat \<Rightarrow> inode_t \<Rightarrow> fs \<Rightarrow> bool" where
  "superblock_lost s p nd u \<longleftrightarrow> mget 0 INODE_SIZE (file_blk u 0) = nd \<and> sb_head (file_blk u 0) = 65536 * int p
     \<and> dir_entries u p = dir_entries s p \<and> md_nlink (inode_at u p) = md_nlink (inode_at s p)
     \<and> (\<forall>m<4096. m \<noteq> 0 \<and> m \<noteq> p \<longrightarrow> inode_at u m = inode_at s m) \<and> (\<forall>b\<ge>1024. file_blk u b = file_blk s b) \<and> ERRNO u = 0"

lemma same_name_new: "14 \<le> length f \<Longrightarrow> same_name (new_entry f x) f"
  by (simp add: same_name_def new_entry_def take_cstr take_update_cancel min_def)

lemma errno_arrays [simp]: "arrays_ok (s\<lparr>ERRNO := e\<rparr>) = arrays_ok s"
  by (simp add: arrays_ok_def)

lemma create_overwrites:
  assumes s: "fs_ok s" "free_inodes s = {}" and p: "node_ok Dnode s p" "entries_of s p \<le> 5"
    and nd: "length nd = INODE_SIZE" "md_ino nd = 0" "md_pno nd = of_nat p"
    and f: "readable 13 f" "14 \<le> length f" "\<forall>e\<in>set (dir_entries s p). \<not> same_name e f"
  shows "\<exists>s1 s2 s3. free_inode_pop s = (0, s1) \<and> dnode_append (int p) (new_entry f 0) (inode_dump 0 nd s1) = Some s2
     \<and> ERRNO s2 = - ENOSPC \<and> dnode_remove (int p) f (s2\<lparr>ERRNO := 0\<rparr>) = Some s3 \<and> superblock_lost s p nd s3"
proof -
  have d: "disk_ok s" "arrays_ok s" using s(1) fs_ok_disk by (auto simp: fs_ok_def arrays_ok_def)
  have pr: "p \<noteq> 0" "p < 4096" "p < 32768" "md_ino (inode_at s p) = of_nat p" using p(1) by (auto simp: node_ok_def)
  let ?s1 = "s\<lparr>ERRNO := - ENOSPC\<rparr>"
  define u0 where "u0 = inode_dump (int 0) nd ?s1"
  have u0: "only_node ?s1 0 u0" "inode_at u0 0 = nd"
    using only_node_dump[of ?s1 0 nd] d nd(1) by (simp_all add: u0_def)
  then have up: "inode_at u0 p = inode_at s p" using pr by (simp add: only_node_def)
  have e0: "dir_entries u0 p = dir_entries s p" "entries_of u0 p = entries_of s p"
    using few_entries[of u0 p] few_entries[of s p] p(2) by (simp_all add: entries_of_def up)
  have "small_dir u0 p" "entries_of u0 p \<le> 5" using u0(1) pr p(2) by (simp_all add: small_dir_def only_node_def up e0(2))
  moreover have "length (de_name (new_entry f 0)) = 14" using f(2) by (simp add: new_entry_def)
  ultimately obtain s2 where s2: "dnode_append (int p) (new_entry f 0) u0 = Some s2" "only_node u0 p s2" "small_dir s2 p"
    "dir_entries s2 p = dir_entries s p @ [new_entry f 0]" "md_nlink (inode_at s2 p) = md_nlink (inode_at s p) + 1"
    using few_append[of u0 p "new_entry f 0"] e0(1) up by auto
  let ?t = "s2\<lparr>ERRNO := 0\<rparr>"
  have t: "small_dir ?t p" "dir_entries ?t p = dir_entries s p @ [new_entry f 0]"
    using s2(3,4) few_entries[of s2 p] few_entries[of ?t p] by (simp_all add: small_dir_def entries_of_def)
  from few_remove_last[OF t f(1) same_name_new[OF f(2)] f(3)] s2(5) obtain s3 where s3: "dnode_remove (int p) f ?t = Some s3" "only_node ?t p s3"
    "dir_entries s3 p = dir_entries s p" "md_nlink (inode_at s3 p) = md_nlink (inode_at s p)" by auto
  have at: "inode_at s3 m = inode_at u0 m" if "m < 4096" "m \<noteq> p" for m
    using s3(2) s2(2) that by (simp add: only_node_def)
  then have "inode_at s3 0 = nd" using u0(2) pr by simp
  then have sb: "mget 0 INODE_SIZE (file_blk s3 0) = nd" by (simp add: inode_at_def)
  then have "sb_head (file_blk s3 0) = 65536 * int p"
    using node_as_superblock[OF nd pr(3)] sb_head_mget[of "file_blk s3 0"] by simp
  moreover have "\<forall>m<4096. m \<noteq> 0 \<and> m \<noteq> p \<longrightarrow> inode_at s3 m = inode_at s m"
    using u0(1) at by (simp add: only_node_def)
  moreover have "\<forall>b\<ge>1024. file_blk s3 b = file_blk s b" "ERRNO s3 = 0"
    using s3(2) s2(2) u0(1) unfolding only_node_def by simp_all
  ultimately have "superblock_lost s p nd s3"
    using sb s3(3,4) unfolding superblock_lost_def by blast
  moreover have "ERRNO s2 = - ENOSPC" using s2(2) u0(1) by (simp add: only_node_def)
  ultimately show ?thesis using free_inode_pop_none[OF d(1) s(2)] s2(1) s3(1) by (auto simp: u0_def)
qed

section \<open>Properties\<close>

text \<open>
  C34. No inode is free: free_inode_pop answers 0 with ENOSPC pending, and sfs_create and sfs_mkdir go on with it. They answer
  -ENOSPC and take the entry back, but the new node has been stored as inode 0, which is the superblock: the head of the
  list of free blocks is now 65536 times the number of the parent directory, far outside the device. Everything else is as
  before. The parent is a directory with at most five entries, so that it needs no page.
\<close>

theorem no_inode_overwrites_superblock:
  assumes "fs_ok s" "free_inodes s = {}" "\<forall>d\<in>set cs. component d" "component c" "length (path_text cs c) < PATH_MAX"
    and "path_walk s 2 cs (int p)" "node_ok Dnode s p" "entries_of s p \<le> 5" "lookup_in s p c = -1"
    and "\<forall>e\<in>set (dir_entries s p). \<not> same_name e (c @ [0])" "14 \<le> length (c @ 0 # r)" "length c \<le> 13" "length fbuf = 14"
  shows "(\<exists>s'. sfs_create (path_text cs c @ 0 # r) s = Some (-28, s') \<and> superblock_lost s p (file_node 0 (of_nat p)) s')
     \<and> (\<exists>s'. sfs_mkdir (path_text cs c @ 0 # r) fbuf s = Some (-28, s') \<and> superblock_lost s p (dir_node 0 (of_nat p)) s')"
proof -
  from path_to_inum_ok[OF assms(1,3,4) _ _ assms(6,7), of "[]" r] assms(5,9) obtain t where
    t: "path_to_inum (path_text cs c @ 0 # r) s = Some ((-1, int p), t)" "same_disk s t" by auto
  note d = same_disk_frame[OF t(2)]
  have l: "superblock_lost t p nd u = superblock_lost s p nd u" for nd u by (simp add: superblock_lost_def d)
  have dt: "fs_ok t" "free_inodes t = {}" "node_ok Dnode t p" "entries_of t p \<le> 5" using assms(1,2,7,8) d by simp_all
  have c0: "0 \<notin> set c" using assms(4) by (simp add: component_def)
  have nm: "\<forall>e\<in>set (dir_entries t p). \<not> same_name e f" if "cstr f = c" for f
    using assms(10) d that c0 by (simp add: same_name_def)
  have zero: "of_nat 0 = (0 :: ushort)" "(- ENOSPC) = (-28)" "(-28 :: int) < 0" by (simp_all add: ENOSPC_def)
  obtain f where f: "path_basename (path_text cs c @ 0 # r) fbuf = Some f" "length f = 14" "terminated f" "cstr f = c"
    using path_basename_path[OF assms(3,4), of fbuf r] assms(12,13) by auto
  have rd: "readable 13 f" "14 \<le> length f" "readable 13 (c @ 0 # r)" "cstr (c @ 0 # r) = c" using f c0 by (simp_all add: readable_def)
  have push: "free_inode_push 0 x = Some x" for x by (simp add: free_inode_push_def)
  have fp: "md_pno (file_node 0 (of_nat p)) = of_nat p" and dp: "md_pno (dir_node 0 (of_nat p)) = of_nat p"
    by (simp_all add: file_node_def dir_node_def layout_defs mem_simps)
  from create_overwrites[OF dt length_file_node file_node_fields(1) fp rd(3) assms(11) nm[OF rd(4)]] obtain s1 s2 s3 where
    a: "free_inode_pop t = (0, s1)" "dnode_append (int p) (new_entry (c @ 0 # r) 0) (inode_dump 0 (file_node 0 (of_nat p)) s1) = Some s2"
      "ERRNO s2 = - ENOSPC" "dnode_remove (int p) (c @ 0 # r) (s2\<lparr>ERRNO := 0\<rparr>) = Some s3" "superblock_lost t p (file_node 0 (of_nat p)) s3"
    by blast
  have "sfs_create (path_text cs c @ 0 # r) s = Some (-28, s3)"
    using t(1) a(1-4) di_ent_c_new[OF assms(11), of 0] base_ptr_path[OF assms(3,4), of r] push zero
    by (simp add: sfs_create_def fnode_init_eq errno_pop_def)
  moreover from create_overwrites[OF dt length_dir_node dir_node_ino dp rd(1,2) nm[OF f(4)]] obtain u1 u2 u3 where
    b: "free_inode_pop t = (0, u1)" "dnode_append (int p) (new_entry f 0) (inode_dump 0 (dir_node 0 (of_nat p)) u1) = Some u2"
      "ERRNO u2 = - ENOSPC" "dnode_remove (int p) f (u2\<lparr>ERRNO := 0\<rparr>) = Some u3" "superblock_lost t p (dir_node 0 (of_nat p)) u3"
    by blast
  have "sfs_mkdir (path_text cs c @ 0 # r) fbuf s = Some (-28, u3)"
    using t(1) f(1) b(1-4) di_ent_c_new[OF rd(2), of 0] push zero by (simp add: sfs_mkdir_def dnode_init_eq errno_pop_def)
  ultimately show ?thesis using a(5) b(5) l by blast
qed

lemma no_free_inode: "fs_ok (mounted\<lparr>file_blk := (file_blk mounted)(1024 := zeros 512)\<rparr>)"
  "free_inodes (mounted\<lparr>file_blk := (file_blk mounted)(1024 := zeros 512)\<rparr>) = {}"
proof -
  let ?t = "mounted\<lparr>file_blk := (file_blk mounted)(1024 := zeros 512)\<rparr>"
  have "\<not> bm_bit (zeros 512) n" if "n < 1024" for n using that by (simp add: bm_bit_def zeros_def)
  then show f: "free_inodes ?t = {}" by (auto simp: free_inodes_def)
  have "ib_inv ?t" using fs_ok_disk[OF mounted(1)] unfolding ib_inv_def f by (simp add: disk_simps)
  then show "fs_ok ?t" using fs_ok_bitmap[OF mounted(1) refl] by simp
qed

theorem no_inode_overwrites_superblock_witness:
  "\<exists>s s'. fs_ok s \<and> sfs_create (path_text [] [97] @ 0 # zeros 19) s = Some (-28, s') \<and> sb_head (file_blk s' 0) = 131072"
proof -
  let ?t = "mounted\<lparr>file_blk := (file_blk mounted)(1024 := zeros 512)\<rparr>"
  have i: "inode_at ?t 2 = inode_at mounted 2" by simp
  have e: "entries_of ?t 2 = 2" using root_entries(2) i by (simp add: entries_of_def)
  then have de: "dir_entries ?t 2 = dir_entries mounted 2"
    using few_entries[of ?t 2] few_entries[of mounted 2] root_entries(2) i by simp
  have n: "node_ok Dnode ?t 2"
    using e i node_ok_root(1) no_free_inode(2) by (simp add: node_ok_def pages_of_def npages_few nodes_of_def root_entries(2))
  have w: "path_walk ?t 2 [] (int 2)" using walk_here[of ?t 2] by simp
  have l: "lookup_in ?t 2 [97] = -1" using a_path(4) de by (simp add: lookup_in_def dot_def)
  have nm: "\<forall>e\<in>set (dir_entries ?t 2). \<not> same_name e ([97] @ [0])"
    by (simp add: de root_entries(1) same_name_def dot_name_def dotdot_name_def cstr_Cons)
  have "entries_of ?t 2 \<le> 5" "14 \<le> length ([97] @ 0 # zeros 19)" "length (zeros 14) = 14" using e by simp_all
  from no_inode_overwrites_superblock[OF no_free_inode a_path(1-3) w n this(1) l nm this(2) a_path(5) this(3)] no_free_inode(1)
  show ?thesis by (auto simp: superblock_lost_def)
qed

end
