(* ===== verification/FS_UnitTests.thy ===== *)
theory FS_UnitTests
  imports FS_Faults
begin

text \<open>
  The unit tests of the block layer, the free-block list and the inodes (\<open>prelude/main.c\<close>) as programs over the model, and
  that they pass on any device; the assertions all the tests share. A failed assertion leaves a test at once (\<open>None\<close>), like undefined behaviour.
\<close>

section \<open>Assertions\<close>

definition mu_assert_int_eq :: "int \<Rightarrow> int \<Rightarrow> unit option" where
  "mu_assert_int_eq e r = (if e = r then Some () else None)"

lemma mu_assert_same [simp]: "mu_assert_int_eq e e = Some ()"
  by (simp add: mu_assert_int_eq_def)

text \<open>The assertion on the next free block, on the next free inode.\<close>

definition expect_block :: "int \<Rightarrow> fs \<Rightarrow> fs option" where
  "expect_block e s = (let (b, s) = free_block_pop s in do { mu_assert_int_eq e b; Some s })"

definition expect_inode :: "int \<Rightarrow> fs \<Rightarrow> fs option" where
  "expect_inode e s = (let (i, s) = free_inode_pop s in do { mu_assert_int_eq e (uint i); Some s })"

section \<open>The block device\<close>

text \<open>The string \<open>Hello, Block IO!\<close> with its NUL.\<close>

definition STR_bytes :: "byte list" where
  "STR_bytes = [72, 101, 108, 108, 111, 44, 32, 66, 108, 111, 99, 107, 32, 73, 79, 33, 0]"

definition test_block_io :: "fs \<Rightarrow> fs option" where
  "test_block_io s = do {
     buf \<leftarrow> c_strcpy (zeros BLOCK_SIZE) STR_bytes;
     let s = snd (block_write 1 buf s);
     let buf = snd (block_read 1 (zeros BLOCK_SIZE) s);
     eq \<leftarrow> strcmp0 buf STR_bytes;
     mu_assert_int_eq 0 (if eq then 0 else 1);
     Some s }"

lemma test_block_io_passes:
  assumes "host_ok s"
  shows "test_block_io s \<noteq> None"
proof -
  have "terminated STR_bytes" "length (cstr STR_bytes) + 1 \<le> length (zeros BLOCK_SIZE)" by (simp_all add: STR_bytes_def terminated_def cstr_def)
  from c_strcpy_Some[OF this] obtain b where b: "c_strcpy (zeros BLOCK_SIZE) STR_bytes = Some b" "length b = 512" "terminated b" "cstr b = cstr STR_bytes"
    by auto
  let ?s = "s\<lparr>file_len := max (file_len s) 1024, file_blk := (file_blk s)(1 := b)\<rparr>"
  have w: "block_write 1 b s = (512, ?s)" using block_write_host[OF assms, of 1 b] b(2) by simp
  have "snd (block_read 1 (zeros BLOCK_SIZE) ?s) = b"
    using assms b(2) block_off_int[of 1] by (simp add: block_read_def pread_def host_ok_def Let_def)
  then show ?thesis using b \<open>terminated STR_bytes\<close> by (simp add: test_block_io_def w Let_def strcmp0_terminated)
qed

section \<open>The free-block list\<close>

definition test_fb_pop :: "fs \<Rightarrow> fs option" where
  "test_fb_pop s = do {
     s \<leftarrow> expect_block 1 (free_block_init s);
     s \<leftarrow> expect_block 2 s;
     s \<leftarrow> expect_block 3 s;
     expect_block 4 s }"

text \<open>\<open>for (; free_block_pop() > 0; count++);\<close> with fuel.\<close>

fun count_blocks :: "nat \<Rightarrow> int \<Rightarrow> fs \<Rightarrow> (int \<times> fs) option" where
  "count_blocks 0 count s = None"
| "count_blocks (Suc fuel) count s =
     (let (b, s) = free_block_pop s in if 0 < b then count_blocks fuel (count + 1) s else Some (count, s))"

definition test_fb_pop_till_empty :: "nat \<Rightarrow> fs \<Rightarrow> fs option" where
  "test_fb_pop_till_empty fuel s = do {
     (count, s) \<leftarrow> count_blocks fuel 0 (free_block_init s);
     let (e, s) = errno_pop s;
     mu_assert_int_eq (- ENOSPC) e;
     mu_assert_int_eq (int MAX_BLOCK_NUM - 1) count;
     s \<leftarrow> expect_block (-1) s;
     mu_assert_int_eq 0 (free_block_size s);
     Some s }"

definition rand_blk_list :: "int list" where
  "rand_blk_list = [1, 6, 7, 14, 5, 8]"

definition blk_base :: nat where
  "blk_base = 512"

definition test_fb_push :: "fs \<Rightarrow> fs option" where
  "test_fb_push s = do {
     let s = fold (\<lambda>i s. snd (free_block_pop s)) [0..<20 + blk_base] (free_block_init s);
     let s = snd (free_block_push (4 + int blk_base) s);
     s \<leftarrow> expect_block (4 + int blk_base) s;
     let s = fold (\<lambda>i s. snd (free_block_push (rand_blk_list ! (5 - i) + int blk_base) s)) [0..<6] s;
     s \<leftarrow> loop [0..<6] (\<lambda>i. expect_block (rand_blk_list ! i + int blk_base)) s;
     let s = fold (\<lambda>i s. snd (free_block_pop s)) [0..<MAX_BLOCK_NUM] s;
     let s = snd (free_block_push (20 + int blk_base) s);
     mu_assert_int_eq 1 (free_block_size s);
     expect_block (20 + int blk_base) s }"

text \<open>What the tests know of the list.\<close>

definition blocks_are :: "fs \<Rightarrow> int list \<Rightarrow> bool" where
  "blocks_are s bs \<longleftrightarrow> fb_inv s \<and> free_list s = bs"

lemma blocks_are_init: "host_ok s \<Longrightarrow> blocks_are (free_block_init s) (blocks_from 1)"
  using free_block_init_aux[of s] by (simp add: blocks_are_def)

lemma expect_next: "blocks_are s (b # bs) \<Longrightarrow> \<exists>t. expect_block b s = Some t \<and> blocks_are t bs"
  using pop_Cons_aux[of s b bs] by (auto simp: expect_block_def blocks_are_def)

lemma push_next:
  "blocks_are s bs \<Longrightarrow> block_valid b \<Longrightarrow> b \<notin> set bs \<Longrightarrow> blocks_are (snd (free_block_push b s)) (b # bs)"
  using push_aux[of s b] by (auto simp: blocks_are_def)

lemma pops_drop: "blocks_are s bs \<Longrightarrow> blocks_are (fold (\<lambda>i s. snd (free_block_pop s)) xs s) (drop (length xs) bs)"
proof (induction xs arbitrary: s bs)
  case (Cons x xs)
  show ?case
  proof (cases bs)
    case Nil
    then have "blocks_are (snd (free_block_pop s)) []" using pop_Nil_aux[of s] Cons.prems by (auto simp: blocks_are_def)
    then show ?thesis using Cons.IH Nil by fastforce
  next
    case (Cons b cs)
    then have "blocks_are (snd (free_block_pop s)) cs" using pop_Cons_aux[of s b cs] Cons.prems by (auto simp: blocks_are_def)
    then show ?thesis using Cons.IH Cons by fastforce
  qed
qed simp

lemma test_fb_pop_passes:
  assumes "host_ok s"
  shows "test_fb_pop s \<noteq> None"
proof -
  have "blocks_from 1 = 1 # blocks_from 2" using blocks_from_Cons[of 1] by (simp add: numeral_2_eq_2)
  then have b: "blocks_from 1 = 1 # 2 # 3 # 4 # blocks_from 5"
    using blocks_from_Cons[of 2] blocks_from_Cons[of 3] blocks_from_Cons[of 4] by simp
  from blocks_are_init[OF assms] expect_next obtain s1 where s1: "expect_block 1 (free_block_init s) = Some s1" "blocks_are s1 (2 # 3 # 4 # blocks_from 5)"
    unfolding b by blast
  then obtain s2 where s2: "expect_block 2 s1 = Some s2" "blocks_are s2 (3 # 4 # blocks_from 5)" using expect_next by blast
  then obtain s3 where s3: "expect_block 3 s2 = Some s3" "blocks_are s3 (4 # blocks_from 5)" using expect_next by blast
  then obtain s4 where "expect_block 4 s3 = Some s4" using expect_next by blast
  then show ?thesis using s1 s2 s3 by (simp add: test_fb_pop_def)
qed

lemma count_blocks_ok:
  "blocks_are s bs \<Longrightarrow> length bs < fuel \<Longrightarrow>
   \<exists>t. count_blocks fuel c s = Some (c + int (length bs), t) \<and> blocks_are t [] \<and> ERRNO t = - ENOSPC"
proof (induction bs arbitrary: s c fuel)
  case Nil
  then obtain f where "fuel = Suc f" by (cases fuel) auto
  then show ?case using Nil pop_Nil_aux[of s] by (auto simp: blocks_are_def)
next
  case (Cons b bs)
  then obtain f where f: "fuel = Suc f" "length bs < f" by (cases fuel) auto
  have "0 < b" using Cons.prems(1) fb_inv_list[of s] by (simp add: blocks_are_def fb_list_ok_def block_valid_def)
  moreover obtain u where u: "free_block_pop s = (b, u)" "blocks_are u bs"
    using pop_Cons_aux[of s b bs] Cons.prems(1) by (auto simp: blocks_are_def)
  moreover obtain t where "count_blocks f (c + 1) u = Some (c + 1 + int (length bs), t)" "blocks_are t []" "ERRNO t = - ENOSPC"
    using Cons.IH[OF u(2) f(2)] by blast
  ultimately show ?case by (simp add: f(1) add.assoc)
qed

lemma empty_size:
  assumes "blocks_are s []"
  shows "\<exists>t. expect_block (-1) s = Some t \<and> free_block_size t = 0 \<and> blocks_are t []"
proof -
  have f: "fb_inv s" "free_list s = []" using assms by (simp_all add: blocks_are_def)
  obtain t where t: "free_block_pop s = (-1, t)" "fb_inv t" "free_list t = []" using pop_Nil_aux[OF f] by blast
  note r = superblock_read_ok[OF f(1)]
  have "t = errno_push (- ENOSPC) (superblock_read s)"
    using t(1) r(6) f(2) by (simp add: free_block_pop_def Let_def)
  moreover have "sb_size (SuperBlockBuf (superblock_read s)) = 0"
    using r(3,5) f(2) by (simp add: fb_list_ok_def sb_size_mget)
  ultimately have "free_block_size t = 0" by (simp add: free_block_size_def errno_push_def)
  then show ?thesis using t by (simp add: expect_block_def blocks_are_def)
qed

lemma blocks_are_errno: "blocks_are s bs \<Longrightarrow> blocks_are (s\<lparr>ERRNO := e\<rparr>) bs"
  by (auto simp: blocks_are_def fb_inv_def fb_list_ok_def ok_defs)

lemma test_fb_pop_till_empty_passes:
  assumes "host_ok s" "MAX_BLOCK_NUM \<le> fuel"
  shows "test_fb_pop_till_empty fuel s \<noteq> None"
proof -
  have "length (blocks_from 1) < fuel" using assms(2) by simp
  from count_blocks_ok[OF blocks_are_init[OF assms(1)] this, of 0] obtain t where
    t: "count_blocks fuel 0 (free_block_init s) = Some (32767, t)" "blocks_are t []" "ERRNO t = - ENOSPC" by auto
  have "blocks_are (t\<lparr>ERRNO := 0\<rparr>) []" by (rule blocks_are_errno[OF t(2)])
  from empty_size[OF this] obtain u where "expect_block (-1) (t\<lparr>ERRNO := 0\<rparr>) = Some u" "free_block_size u = 0" by blast
  then show ?thesis using t by (simp add: test_fb_pop_till_empty_def errno_pop_def)
qed

lemma push_one_size:
  assumes "blocks_are s []" "block_valid b"
  shows "free_block_size (snd (free_block_push b s)) = 1"
proof -
  have "fst (free_block_push b s) = 1" using push_aux[of s b] assms by (auto simp: blocks_are_def)
  then show ?thesis by (simp add: free_block_push_def Let_def free_block_size_def)
qed

lemma test_fb_push_passes:
  assumes "host_ok s"
  shows "test_fb_push s \<noteq> None"
proof -
  let ?s1 = "fold (\<lambda>i s. snd (free_block_pop s)) [0..<20 + blk_base] (free_block_init s)"
  have "blocks_are ?s1 (drop 532 (blocks_from 1))"
    using pops_drop[OF blocks_are_init[OF assms], of "[0..<20 + blk_base]"] by (simp add: blk_base_def)
  then have s1: "blocks_are ?s1 (blocks_from 533)" by (simp add: drop_blocks_from)
  have v: "block_valid b" if "0 < b" "b < 32768" for b using that by (simp add: block_valid_def)
  have n: "b \<notin> set (blocks_from 533)" if "b < 533" for b using that by (simp add: set_blocks_from)
  have "blocks_are (snd (free_block_push 516 ?s1)) (516 # blocks_from 533)" by (rule push_next[OF s1 v n]) simp_all
  from expect_next[OF this] obtain s2 where s2: "expect_block 516 (snd (free_block_push 516 ?s1)) = Some s2" "blocks_are s2 (blocks_from 533)" by blast
  let ?rs = "map (\<lambda>x. x + 512) rand_blk_list"
  let ?s3 = "fold (\<lambda>i s. snd (free_block_push (rand_blk_list ! (5 - i) + int blk_base) s)) [0..<6] s2"
  have six: "[0..<6] = [0, 1, 2, 3, 4, 5 :: nat]" by (simp add: upt_rec)
  have p1: "blocks_are (snd (free_block_push 520 s2)) (520 # blocks_from 533)" by (rule push_next[OF s2(2) v n]) simp_all
  have p2: "blocks_are (snd (free_block_push 517 (snd (free_block_push 520 s2)))) (517 # 520 # blocks_from 533)"
    by (rule push_next[OF p1 v]) (simp_all add: n)
  note p3 = push_next[OF p2 v, of 526, simplified n list.set, simplified]
  note p4 = push_next[OF p3 v, of 519, simplified n list.set, simplified]
  note p5 = push_next[OF p4 v, of 518, simplified n list.set, simplified]
  note p6 = push_next[OF p5 v, of 513, simplified n list.set, simplified]
  have s3: "blocks_are ?s3 (513 # 518 # 519 # 526 # 517 # 520 # blocks_from 533)"
    using p6 n by (simp add: six rand_blk_list_def blk_base_def)
  from expect_next[OF s3] obtain t1 where t1: "expect_block 513 ?s3 = Some t1" "blocks_are t1 (518 # 519 # 526 # 517 # 520 # blocks_from 533)" by blast
  from expect_next[OF t1(2)] obtain t2 where t2: "expect_block 518 t1 = Some t2" "blocks_are t2 (519 # 526 # 517 # 520 # blocks_from 533)" by blast
  from expect_next[OF t2(2)] obtain t3 where t3: "expect_block 519 t2 = Some t3" "blocks_are t3 (526 # 517 # 520 # blocks_from 533)" by blast
  from expect_next[OF t3(2)] obtain t4 where t4: "expect_block 526 t3 = Some t4" "blocks_are t4 (517 # 520 # blocks_from 533)" by blast
  from expect_next[OF t4(2)] obtain t5 where t5: "expect_block 517 t4 = Some t5" "blocks_are t5 (520 # blocks_from 533)" by blast
  from expect_next[OF t5(2)] obtain t6 where t6: "expect_block 520 t5 = Some t6" "blocks_are t6 (blocks_from 533)" by blast
  have lp: "loop [0..<6] (\<lambda>i. expect_block (rand_blk_list ! i + int blk_base)) ?s3 = Some t6"
    using t1 t2 t3 t4 t5 t6 by (simp add: six rand_blk_list_def blk_base_def)
  let ?s4 = "fold (\<lambda>i s. snd (free_block_pop s)) [0..<MAX_BLOCK_NUM] t6"
  have "blocks_are ?s4 (drop (length [0..<MAX_BLOCK_NUM]) (blocks_from 533))" by (rule pops_drop[OF t6(2)])
  moreover have "drop (length [0..<MAX_BLOCK_NUM]) (blocks_from 533) = []" by simp
  ultimately have s4: "blocks_are ?s4 []" by simp
  have sz: "free_block_size (snd (free_block_push 532 ?s4)) = 1" by (rule push_one_size[OF s4 v]) simp_all
  have "blocks_are (snd (free_block_push 532 ?s4)) [532]" by (rule push_next[OF s4 v]) simp_all
  from expect_next[OF this] obtain s5 where s5: "expect_block 532 (snd (free_block_push 532 ?s4)) = Some s5" by blast
  have k: "4 + int blk_base = 516" "20 + int blk_base = 532" by (simp_all add: blk_base_def)
  have "test_fb_push s = Some s5"
    unfolding test_fb_push_def Let_def k by (simp only: s2(1) bind.bind_lunit lp sz mu_assert_same s5)
  then show ?thesis by simp
qed

section \<open>Inodes\<close>

definition test_inode_init :: "fs \<Rightarrow> fs option" where
  "test_inode_init s =
     (let s = inode_init (free_block_init s);
          (node, s) = inode_load 2 uninit s
      in do {
        mu_assert_int_eq 2 (uint (md_size node));
        mu_assert_int_eq 1 (uint (md_isdir node));
        mu_assert_int_eq 2 (uint (md_nlink node));
        Some s })"

definition test_inode_stat :: "fs \<Rightarrow> fs option" where
  "test_inode_stat s =
     (let s = inode_init (free_block_init s);
          ((st_mode, st_nlink, st_size), s) = inode_get_attr_upc 2 s
      in do {
        mu_assert_int_eq 2 st_nlink;
        mu_assert_int_eq 2 st_size;
        Some s })"

text \<open>\<open>while (free_inode_pop()) i++;\<close> with fuel.\<close>

fun count_inodes :: "nat \<Rightarrow> int \<Rightarrow> fs \<Rightarrow> (int \<times> fs) option" where
  "count_inodes 0 i s = None"
| "count_inodes (Suc fuel) i s =
     (let (n, s) = free_inode_pop s in if n \<noteq> 0 then count_inodes fuel (i + 1) s else Some (i, s))"

definition test_inode_push_pop_create :: "nat \<Rightarrow> fs \<Rightarrow> fs option" where
  "test_inode_push_pop_create fuel s = do {
     s \<leftarrow> expect_inode 3 (inode_init (free_block_init s));
     s \<leftarrow> expect_inode 4 s;
     s \<leftarrow> free_inode_push 3 s;
     s \<leftarrow> loop [3, 5, 6, 7, 8, 9] (\<lambda>i. expect_inode (int i)) s;
     s \<leftarrow> free_inode_push 5 s;
     s \<leftarrow> free_inode_push 8 s;
     s \<leftarrow> expect_inode 5 s;
     s \<leftarrow> expect_inode 8 s;
     (i, s) \<leftarrow> count_inodes fuel 0 (inode_init (free_block_init s));
     mu_assert_int_eq 1021 i;
     let s = dnode_init 4 2 (fnode_init 3 2 s);
     let (node, s) = inode_load 3 uninit s;
     mu_assert_int_eq 0 (uint (md_size node));
     mu_assert_int_eq 0 (uint (md_isdir node));
     mu_assert_int_eq 1 (uint (md_nlink node));
     let (node, s) = inode_load 4 uninit s;
     mu_assert_int_eq 2 (uint (md_size node));
     mu_assert_int_eq 1 (uint (md_isdir node));
     mu_assert_int_eq 2 (uint (md_nlink node));
     Some s }"

declare upt_rec_numeral [simp del]

definition inodes_are :: "fs \<Rightarrow> nat list \<Rightarrow> bool" where
  "inodes_are s xs \<longleftrightarrow> fs_ok s \<and> sorted_wrt (<) xs \<and> free_inodes s = set xs"

lemma inodes_are_init: "host_ok s \<Longrightarrow> arrays_ok s \<Longrightarrow> inodes_are (inode_init (free_block_init s)) [3..<1024]"
  using mount_aux[of s] by (simp add: inodes_are_def sorted_wrt_upt)

lemma next_inode:
  assumes "inodes_are s (x # xs)"
  shows "\<exists>t. free_inode_pop s = (of_nat x, t) \<and> inodes_are t xs \<and> x < 1024 \<and> 2 \<le> x"
proof -
  have s: "fs_ok s" "sorted_wrt (<) (x # xs)" "free_inodes s = set (x # xs)" using assms by (simp_all add: inodes_are_def)
  have m: "Min (free_inodes s) = x" unfolding s(3) using s(2) by (intro Min_eqI) (auto intro: less_imp_le)
  have "x \<notin> set xs" using s(2) by auto
  moreover have "free_inodes s \<noteq> {}" "x \<in> free_inodes s" using s(3) by simp_all
  moreover have "set (x # xs) - {x} = set xs" using \<open>x \<notin> set xs\<close> by auto
  ultimately show ?thesis using free_inode_pop_ok[OF s(1), unfolded m] s free_inodes_range[OF s(1), of x] unfolding inodes_are_def by auto
qed

lemma expect_next_inode: "inodes_are s (x # xs) \<Longrightarrow> \<exists>t. expect_inode (int x) s = Some t \<and> inodes_are t xs"
  using next_inode[of s x xs] uint_of_nat_ushort[of x] by (auto simp: expect_inode_def)

lemma push_inode:
  assumes "inodes_are s xs" "2 \<le> w" "w < 1024" "sorted_wrt (<) ys" "set ys = insert w (set xs)"
  shows "\<exists>t. free_inode_push (of_nat w) s = Some t \<and> inodes_are t ys"
proof -
  have w: "unat (of_nat w :: ushort) = w" using assms(3) by (intro unat_of_nat_ushort) simp
  have "fs_ok s" using assms(1) by (simp add: inodes_are_def)
  from free_inode_push_ok[OF this, of "of_nat w", unfolded w, OF assms(2,3)] show ?thesis using assms by (auto simp: inodes_are_def)
qed

lemma count_inodes_ok:
  "inodes_are s xs \<Longrightarrow> length xs < fuel \<Longrightarrow> \<exists>t. count_inodes fuel i s = Some (i + int (length xs), t) \<and> inodes_are t []"
proof (induction xs arbitrary: s i fuel)
  case Nil
  then obtain f where f: "fuel = Suc f" by (cases fuel) auto
  have "fs_ok s" "free_inodes s = {}" using Nil.prems by (simp_all add: inodes_are_def)
  then have "disk_ok s" "free_inodes s = {}" by (simp_all add: fs_ok_disk)
  from free_inode_pop_none[OF this] show ?case using Nil.prems by (auto simp: f inodes_are_def)
next
  case (Cons x xs)
  then obtain f where f: "fuel = Suc f" "length xs < f" by (cases fuel) auto
  obtain u where u: "free_inode_pop s = (of_nat x, u)" "inodes_are u xs" "x < 1024" "2 \<le> x" using next_inode[OF Cons.prems(1)] by blast
  have "unat (of_nat x :: ushort) = x" using u(3) by (intro unat_of_nat_ushort) simp
  then have "(of_nat x :: ushort) \<noteq> 0" using u(4) by (metis unat_0 not_numeral_le_zero)
  moreover obtain t where "count_inodes f (i + 1) u = Some (i + 1 + int (length xs), t)" "inodes_are t []"
    using Cons.IH[OF u(2) f(2)] by blast
  ultimately show ?case using u(1) by (simp add: f(1) add.assoc)
qed

lemma dir_node_meta: "md_nlink (dir_node x p) = 2" "md_isdir (dir_node x p) = 1"
proof -
  show "md_nlink (dir_node x p) = 2" by (simp add: dir_node_def layout_defs di_ent_bytes_def mem_simps)
  show "md_isdir (dir_node x p) = 1" by (simp add: dir_node_def layout_defs di_ent_bytes_def nth_mput put16_def put32_def)
qed

lemma test_inode_init_passes:
  assumes "host_ok s" "arrays_ok s"
  shows "test_inode_init s \<noteq> None" "test_inode_stat s \<noteq> None"
proof -
  note m = mount_aux[OF assms]
  have d: "disk_ok (inode_init (free_block_init s))" using m fs_ok_disk by blast
  have l: "inode_load 2 b (inode_init (free_block_init s)) = (dir_node 2 2, (inode_init (free_block_init s))
    \<lparr>iblockbuf := file_blk (inode_init (free_block_init s)) 0\<rparr>)" for b
    using inode_load_eq[OF d, of 2 b] m by simp
  show "test_inode_init s \<noteq> None" by (simp add: test_inode_init_def l dir_node_meta dir_node_size)
  show "test_inode_stat s \<noteq> None" by (simp add: test_inode_stat_def inode_get_attr_upc_def l dir_node_meta dir_node_size)
qed

lemma arrays_ok_fs: "fs_ok s \<Longrightarrow> host_ok s \<and> arrays_ok s"
  using fs_ok_disk[of s] by (simp add: fs_ok_def arrays_ok_def disk_ok_def)

lemma upt_head: "x < 1024 \<Longrightarrow> [x..<1024] = x # [Suc x..<1024]"
  by (rule upt_conv_Cons)

lemma test_inode_push_pop_create_passes:
  assumes s: "host_ok s" "arrays_ok s" and fuel: "1022 \<le> fuel"
  shows "test_inode_push_pop_create fuel s \<noteq> None"
proof -
  have up: "[3..<1024] = 3 # 4 # [5..<1024]" "[5..<1024] = 5 # 6 # 7 # 8 # 9 # [10..<1024]"
    using upt_head[of 3] upt_head[of 4] upt_head[of 5] upt_head[of 6] upt_head[of 7] upt_head[of 8] upt_head[of 9]
    by (simp_all)
  note srt = sorted_wrt_upt[of 5 1024] sorted_wrt_upt[of 10 1024]
  from expect_next_inode[OF inodes_are_init[OF s, unfolded up(1)]] obtain s1 where
    s1: "expect_inode 3 (inode_init (free_block_init s)) = Some s1" "inodes_are s1 (4 # [5..<1024])" by auto
  from expect_next_inode[OF s1(2)] obtain s2 where s2: "expect_inode 4 s1 = Some s2" "inodes_are s2 [5..<1024]" by auto
  have o3: "sorted_wrt (<) (3 # [5..<1024])" "set (3 # [5..<1024]) = insert 3 (set [5..<1024])" using srt(1) by (simp_all)
  from push_inode[OF s2(2) _ _ o3] obtain s3 where s3: "free_inode_push 3 s2 = Some s3" "inodes_are s3 (3 # [5..<1024])" by auto
  from expect_next_inode[OF s3(2)[unfolded up(2)]] obtain t0 where t0: "expect_inode 3 s3 = Some t0" "inodes_are t0 (5 # 6 # 7 # 8 # 9 # [10..<1024])" by auto
  from expect_next_inode[OF t0(2)] obtain t1 where t1: "expect_inode 5 t0 = Some t1" "inodes_are t1 (6 # 7 # 8 # 9 # [10..<1024])" by auto
  from expect_next_inode[OF t1(2)] obtain t2 where t2: "expect_inode 6 t1 = Some t2" "inodes_are t2 (7 # 8 # 9 # [10..<1024])" by auto
  from expect_next_inode[OF t2(2)] obtain t3 where t3: "expect_inode 7 t2 = Some t3" "inodes_are t3 (8 # 9 # [10..<1024])" by auto
  from expect_next_inode[OF t3(2)] obtain t4 where t4: "expect_inode 8 t3 = Some t4" "inodes_are t4 (9 # [10..<1024])" by auto
  from expect_next_inode[OF t4(2)] obtain t5 where t5: "expect_inode 9 t4 = Some t5" "inodes_are t5 [10..<1024]" by auto
  have lp: "loop [3, 5, 6, 7, 8, 9] (\<lambda>i. expect_inode (int i)) s3 = Some t5" using t0 t1 t2 t3 t4 t5 by simp
  have o5: "sorted_wrt (<) (5 # [10..<1024])" "set (5 # [10..<1024]) = insert 5 (set [10..<1024])" using srt(2) by (simp_all)
  from push_inode[OF t5(2) _ _ o5] obtain u1 where u1: "free_inode_push 5 t5 = Some u1" "inodes_are u1 (5 # [10..<1024])" by auto
  have o8: "sorted_wrt (<) (5 # 8 # [10..<1024])" "set (5 # 8 # [10..<1024]) = insert 8 (set (5 # [10..<1024]))"
    using srt(2) by (simp_all add: insert_commute)
  from push_inode[OF u1(2) _ _ o8] obtain u2 where u2: "free_inode_push 8 u1 = Some u2" "inodes_are u2 (5 # 8 # [10..<1024])" by auto
  from expect_next_inode[OF u2(2)] obtain u3 where u3: "expect_inode 5 u2 = Some u3" "inodes_are u3 (8 # [10..<1024])" by auto
  from expect_next_inode[OF u3(2)] obtain u4 where u4: "expect_inode 8 u3 = Some u4" "inodes_are u4 [10..<1024]" by auto
  have h: "host_ok u4" "arrays_ok u4" using arrays_ok_fs[of u4] u4(2) by (simp_all add: inodes_are_def)
  have "length [3..<1024] < fuel" using fuel by simp
  from count_inodes_ok[OF inodes_are_init[OF h] this, of 0] obtain v where
    v: "count_inodes fuel 0 (inode_init (free_block_init u4)) = Some (1021, v)" "fs_ok v" by (auto simp: inodes_are_def)
  let ?a = "inode_dump 3 (file_node 3 2) v"
  let ?b = "inode_dump 4 (dir_node 4 2) ?a"
  have a: "disk_ok ?a" using fs_ok_dump[OF v(2), of 3 "file_node 3 2"] fs_ok_disk by auto
  have at: "inode_at ?a n = (if n = 3 then file_node 3 2 else inode_at v n)" for n
    using inode_at_dump[OF fs_ok_disk[OF v(2)], of 3 "file_node 3 2" n] by simp
  have bt: "inode_at ?b n = (if n = 4 then dir_node 4 2 else inode_at ?a n)" for n
    using inode_at_dump[OF a, of 4 "dir_node 4 2" n] by simp
  have bd: "disk_ok ?b" using fs_ok_dump[of ?a 4 "dir_node 4 2"] fs_ok_dump[OF v(2), of 3 "file_node 3 2"] fs_ok_disk by auto
  have l3: "inode_load 3 uninit ?b = (file_node 3 2, ?b\<lparr>iblockbuf := file_blk ?b 0\<rparr>)"
    using inode_load_eq[OF bd, of 3 uninit] bt[of 3] at[of 3] by simp
  have "disk_ok (?b\<lparr>iblockbuf := file_blk ?b 0\<rparr>)" using bd by simp
  from inode_load_eq[OF this, of 4 uninit] have l4: "inode_load 4 uninit (?b\<lparr>iblockbuf := file_blk ?b 0\<rparr>)
    = (dir_node 4 2, ?b\<lparr>iblockbuf := file_blk ?b 1\<rparr>)" using bt[of 4] by simp
  have "test_inode_push_pop_create fuel s = Some (?b\<lparr>iblockbuf := file_blk ?b 1\<rparr>)"
    unfolding test_inode_push_pop_create_def
    by (simp add: s1(1) s2(1) s3(1) lp u1(1) u2(1) u3(1) u4(1) v(1) fnode_init_eq dnode_init_eq l3 l4 file_node_fields file_node_isdir
        dir_node_meta dir_node_size del: loop.simps)
  then show ?thesis by simp
qed

section \<open>Properties\<close>

text \<open>
  C28. On any device the tests of the block layer and of the free-block list return with every assertion passed;
  the loop that pops until nothing is left ends within \<open>MAX_BLOCK_NUM\<close> rounds.
\<close>

theorem unit_tests_blocks:
  assumes "host_ok s" "MAX_BLOCK_NUM \<le> fuel"
  shows "(\<exists>s'. test_block_io s = Some s') \<and> (\<exists>s'. test_fb_pop s = Some s')
     \<and> (\<exists>s'. test_fb_pop_till_empty fuel s = Some s') \<and> (\<exists>s'. test_fb_push s = Some s')"
  using test_block_io_passes[OF assms(1)] test_fb_pop_passes[OF assms(1)] test_fb_pop_till_empty_passes[OF assms]
    test_fb_push_passes[OF assms(1)] by auto

theorem unit_tests_blocks_witness:
  "\<exists>s'. test_fb_pop_till_empty 32768 blank_fs = Some s'"
  using unit_tests_blocks[of blank_fs 32768] blank_fs_ok by simp

text \<open>
  C29. On any device the tests of the inode layer return with every assertion passed: the root directory as
  \<open>inode_init\<close> leaves it, the order in which \<open>free_inode_pop\<close> hands out inodes, the 1021 inodes it hands out
  before it answers 0, and the fields of new nodes.
\<close>

theorem unit_tests_inodes:
  assumes "host_ok s" "arrays_ok s" "1022 \<le> fuel"
  shows "(\<exists>s'. test_inode_init s = Some s') \<and> (\<exists>s'. test_inode_stat s = Some s')
     \<and> (\<exists>s'. test_inode_push_pop_create fuel s = Some s')"
  using test_inode_init_passes[OF assms(1,2)] test_inode_push_pop_create_passes[OF assms] by auto

theorem unit_tests_inodes_witness:
  "\<exists>s'. test_inode_push_pop_create 1022 blank_fs = Some s'"
  using unit_tests_inodes[of blank_fs 1022] blank_fs_ok by simp

end
