(* ===== verification/FS_PathTest.thy ===== *)
theory FS_PathTest
  imports FS_UnitTests
begin

text \<open>
  The unit test of path resolution (\<open>test_path_2_inum\<close> in \<open>prelude/main.c\<close>) as a program over the model. It makes entries
  of the string literals \<open>"a"\<close> and \<open>"b"\<close>, of which \<open>di_ent_c\<close> reads 14 bytes: what lies behind them in memory is an
  argument of the model, and the test is defined just when it can be read.
\<close>

definition expect_elem :: "int \<Rightarrow> byte list \<Rightarrow> ushort \<Rightarrow> fs \<Rightarrow> fs option" where
  "expect_elem e path inum s = do {
     (i, s) \<leftarrow> path_to_inum_elem path inum s;
     mu_assert_int_eq e i;
     Some s }"

definition test_path_2_inum :: "byte list \<Rightarrow> byte list \<Rightarrow> fs \<Rightarrow> fs option" where
  "test_path_2_inum behind_a behind_b s = do {
     let s = inode_init (free_block_init s);
     s \<leftarrow> expect_elem (-1) (97 # 0 # behind_a) 2 s;
     ((i, _), s) \<leftarrow> path_to_inum [47, 0] s;
     mu_assert_int_eq 2 i;
     ((i, parent_inum), s) \<leftarrow> path_to_inum [47, 97, 0] s;
     mu_assert_int_eq (-1) i;
     mu_assert_int_eq 2 parent_inum;
     let (sizef, s) = dnode_listing 2 s;
     e \<leftarrow> di_ent_c (97 # 0 # behind_a) 3;
     d \<leftarrow> set_d_ent 1 e (d_arr s);
     e \<leftarrow> di_ent_c (98 # 0 # behind_b) 4;
     d \<leftarrow> set_d_ent 2 e d;
     s \<leftarrow> dnode_listing_set 2 3 (s\<lparr>d_arr := d\<rparr>);
     s \<leftarrow> expect_elem 3 (97 # 0 # behind_a) 2 s;
     ((i, _), s) \<leftarrow> path_to_inum [47, 98, 0] s;
     mu_assert_int_eq 4 i;
     Some s }"

lemma expect_elem_ok:
  assumes "fs_ok s" "node_ok Dnode s 2" "c \<noteq> 0" "c \<noteq> 46"
  shows "\<exists>t. expect_elem (dir_lookup (dir_entries s 2) [c]) (c # 0 # r) 2 s = Some t \<and> same_disk s t"
proof -
  have p: "terminated (c # 0 # r)" "cstr (c # 0 # r) = [c]" using assms(3) by (simp_all add: terminated_def cstr_Cons)
  from elem_ok[OF assms(1,2) p(1)] obtain t where "path_to_inum_elem (c # 0 # r) 2 s = Some (lookup_in s 2 [c], t)" "same_disk s t"
    unfolding p(2) by auto
  then show ?thesis using assms(4) by (simp add: expect_elem_def lookup_in_def dot_def)
qed

lemma path_one:
  assumes s: "fs_ok s" "node_ok Dnode s 2" and c: "c \<noteq> 0" "c \<noteq> 46" "c \<noteq> slash"
  shows "\<exists>t. path_to_inum [47, c, 0] s = Some ((dir_lookup (dir_entries s 2) [c], 2), t) \<and> same_disk s t"
proof -
  have w: "path_walk s 2 [] (int 2)" by (simp add: walk_here)
  have p: "component [c]" "path_text [] [c] = [47, c]" using c by (simp_all add: component_def path_text_def dirs_text_def slash_def)
  from path_to_inum_ok[OF s(1) _ p(1) _ _ w s(2), of "[]" "[]"] show ?thesis using c(2) p(2) by (simp add: lookup_in_def dot_def)
qed

lemma name_match_char:
  "c \<noteq> 0 \<Longrightarrow> d \<noteq> 0 \<Longrightarrow> name_match [c] (new_entry (d # 0 # r) x) \<longleftrightarrow> c = d"
proof -
  assume "c \<noteq> 0" "d \<noteq> 0"
  then have "terminated (d # 0 # r)" "cstr (d # 0 # r) = [d]" by (simp_all add: terminated_def cstr_Cons)
  with cstr_new_entry[of "d # 0 # r" x] show ?thesis by (simp add: name_match_def)
qed

lemma name_match_dot: "c \<noteq> 46 \<Longrightarrow> \<not> name_match [c] \<lparr>de_name = dot_name, de_inum = i\<rparr>"
  "c \<noteq> 46 \<Longrightarrow> \<not> name_match [c] \<lparr>de_name = dotdot_name, de_inum = i\<rparr>"
  by (simp_all add: name_match_def dot_name_def dotdot_name_def cstr_Cons zeros_def)

lemma test_path_passes:
  assumes s: "host_ok s" "arrays_ok s" and r: "12 \<le> length ra" "12 \<le> length rb"
  shows "test_path_2_inum ra rb s \<noteq> None"
proof -
  define m where "m = inode_init (free_block_init s)"
  have m: "fs_ok m" "free_inodes m = {3..<1024}" "inode_at m 2 = dir_node 2 2" using mount_aux[OF s] by (simp_all add: m_def)
  have e: "entries_of m 2 = 2" "pages_of Dnode m 2 = 0" by (simp_all add: entries_of_def pages_of_def m(3) dir_node_size)
  have n: "node_ok Dnode m 2" using m e(2) by (simp add: node_ok_def nodes_of_def dir_node_ino)
  note de = dir_node_entries[OF m(3)]
  have no: "dir_lookup (dir_entries m 2) [97] = -1" by (simp add: de dir_lookup_Cons name_match_dot) (simp add: dir_lookup_def)
  from expect_elem_ok[OF m(1) n, of 97 ra] obtain a where a: "expect_elem (-1) (97 # 0 # ra) 2 m = Some a" "same_disk m a" by (auto simp: no)
  note da = same_disk_frame[OF a(2)]
  from path_one[of a 97] obtain b where b: "path_to_inum [47, 97, 0] a = Some ((-1, 2), b)" "same_disk a b"
    using da(1)[OF m(1)] n by (auto simp: da(2,3) no slash_def)
  note ok = same_disk_trans[OF a(2) b(2)]
  note db = same_disk_frame[OF ok]
  from dir_listing[of b 2] db(1)[OF m(1)] n obtain q A where A: "dnode_listing 2 b = (2, b\<lparr>iblockbuf := q, d_arr := A\<rparr>)" "length A = ARR_BYTES"
    "map (d_ent A) [0..<2] = dir_entries m 2" by (auto simp: db(2-4) e(1))
  obtain A1 where A1: "set_d_ent 1 (new_entry (97 # 0 # ra) 3) A = Some A1" using A(2) by (simp add: set_d_ent_def)
  have l: "length (de_name (new_entry (c # 0 # x) y)) = 14" if "12 \<le> length x" for c x y using that by (simp add: new_entry_def)
  note p1 = d_ent_set[OF A1 l[OF r(1)]]
  obtain A2 where A2: "set_d_ent 2 (new_entry (98 # 0 # rb) 4) A1 = Some A2" using A(2) p1(1) by (simp add: set_d_ent_def)
  note p2 = d_ent_set[OF A2 l[OF r(2)]]
  let ?u = "b\<lparr>iblockbuf := q, d_arr := A2\<rparr>"
  have len: "length A2 = ARR_BYTES" using p1(1) p2(1) A(2) by simp
  have u: "fs_ok ?u" "node_ok Dnode ?u 2" "pages_of Dnode ?u 2 = 0" "free_inodes ?u = {3..<1024}"
    using db(1)[OF m(1)] n len e(2) m(2) by (simp_all add: fs_ok_def[of b] db(2,5,7))
  have c: "clamp_size Dnode 3 = 3" "npages Dnode 3 = 0" by (simp_all add: clamp_size_def npages_def)
  from listing_set_ok[OF u(1,2), of 3] obtain t where t: "dnode_listing_set 2 3 ?u = Some t" "resized Dnode ?u 2 3 t"
    by (auto simp: c u(3) need_def ndouble_def)
  have tn: "fs_ok t" "node_ok Dnode t 2" using t(2) by (simp_all add: resized_def)
  have "[0..<3] = [0, 1, 2 :: nat]" by (simp add: upt_rec)
  then have "dir_entries t 2 = [d_ent A2 0, d_ent A2 1, d_ent A2 2]" using resized_entries[OF t(2)] by simp
  moreover have "d_ent A2 0 = d_ent A 0" "d_ent A2 1 = new_entry (97 # 0 # ra) 3" "d_ent A2 2 = new_entry (98 # 0 # rb) 4"
    using p1(2)[of 0] p1(3) p2(2)[of 0] p2(2)[of 1] p2(3) A(2) p1(1) by simp_all
  moreover have "d_ent A 0 = \<lparr>de_name = dot_name, de_inum = 2\<rparr>" using A(3) de by (simp add: upt_rec)
  ultimately have dt: "dir_entries t 2 = [\<lparr>de_name = dot_name, de_inum = 2\<rparr>, new_entry (97 # 0 # ra) 3, new_entry (98 # 0 # rb) 4]" by simp
  have in3: "uint (de_inum (new_entry c 3)) = 3" "uint (de_inum (new_entry c 4)) = 4" for c by (simp_all add: new_entry_def)
  have lk: "dir_lookup (dir_entries t 2) [97] = 3" "dir_lookup (dir_entries t 2) [98] = 4"
    by (simp_all add: dt dir_lookup_Cons name_match_dot name_match_char in3)
  from expect_elem_ok[OF tn, of 97 ra] obtain v where v: "expect_elem 3 (97 # 0 # ra) 2 t = Some v" "same_disk t v" by (auto simp: lk)
  note dv = same_disk_frame[OF v(2)]
  from path_one[of v 98] obtain w where w: "path_to_inum [47, 98, 0] v = Some ((4, 2), w)"
    using dv(1)[OF tn(1)] tn(2) by (auto simp: dv(2,3) lk slash_def)
  have root: "path_to_inum [47, 0] a = Some ((2, 2), a)" using path_root[of "[]" a] by (simp add: slash_def)
  have dc: "di_ent_c (97 # 0 # ra) 3 = Some (new_entry (97 # 0 # ra) 3)" "di_ent_c (98 # 0 # rb) 4 = Some (new_entry (98 # 0 # rb) 4)"
    using di_ent_c_new[of "97 # 0 # ra" 3] di_ent_c_new[of "98 # 0 # rb" 4] r by simp_all
  show ?thesis using a(1) b(1) A1 A2 t(1) v(1) w
    by (simp add: test_path_2_inum_def m_def[symmetric] root A(1) dc)
qed

lemma test_path_undefined: "length ra < 12 \<or> length rb < 12 \<Longrightarrow> test_path_2_inum ra rb s = None"
  by (auto simp: test_path_2_inum_def di_ent_c_def Let_def split: prod.splits Option.bind_splits)

section \<open>Property\<close>

text \<open>
  C31. On any device the test of path resolution is defined just when 12 more bytes can be read behind each of the two
  literals, which the C standard does not promise; then all its assertions hold.
\<close>

theorem unit_test_paths:
  assumes "host_ok s" "arrays_ok s"
  shows "(\<exists>s'. test_path_2_inum behind_a behind_b s = Some s') \<longleftrightarrow> 12 \<le> length behind_a \<and> 12 \<le> length behind_b"
proof (cases "12 \<le> length behind_a \<and> 12 \<le> length behind_b")
  case True
  then show ?thesis using test_path_passes[OF assms, of behind_a behind_b] by simp
next
  case False
  then have "length behind_a < 12 \<or> length behind_b < 12" by linarith
  from test_path_undefined[OF this] False show ?thesis by simp
qed

theorem unit_test_paths_witness:
  "(\<exists>s'. test_path_2_inum (zeros 12) (zeros 12) blank_fs = Some s') \<and> test_path_2_inum [] [] blank_fs = None"
  using unit_test_paths[OF blank_fs_ok(1,2), of "zeros 12" "zeros 12"] unit_test_paths[OF blank_fs_ok(1,2), of "[]" "[]"] by auto

end
