(* ===== verification/FS_PageOrder.thy ===== *)
theory FS_PageOrder
  imports FS_Contract
begin

text \<open>
  Which inodes a growing listing takes: the least free ones, in the order in which the loops of the two \<open>_listing_set\<close>
  functions come to the new pages. Together with the contract this fixes the numbers of all new pages.
\<close>

section \<open>The order of the loops\<close>

definition group_keys :: "nat \<Rightarrow> nat \<Rightarrow> (nat + nat) list" where
  "group_keys n g = Inr g # map Inl [4 + 64 * g..<min (4 + 64 * Suc g) n]"

definition visit :: "nat \<Rightarrow> (nat + nat) list" where
  "visit n = map Inl [0..<min 4 n] @ concat (map (group_keys n) [0..<ndouble n])"

text \<open>The keys a listing of \<open>n0\<close> pages gets when it grows to \<open>n1\<close>.\<close>

definition new_keys :: "nat \<Rightarrow> nat \<Rightarrow> (nat + nat) list" where
  "new_keys n0 n1 = filter (\<lambda>x. case x of Inl p \<Rightarrow> n0 \<le> p | Inr g \<Rightarrow> ndouble n0 \<le> g) (visit n1)"

lemma in_group: "x \<in> set (group_keys n g) \<Longrightarrow> 4 + 65 * g \<le> key_rank x \<and> key_rank x < 4 + 65 * Suc g"
proof -
  assume x: "x \<in> set (group_keys n g)"
  show ?thesis
  proof (cases x)
    case (Inl p)
    then have p: "4 + 64 * g \<le> p" "p < 4 + 64 * Suc g" using x by (auto simp: group_keys_def)
    then have "(p - 4) div 64 = g" by (intro div_nat_eqI) auto
    then show ?thesis using p Inl by simp
  next
    case (Inr h)
    then show ?thesis using x by (auto simp: group_keys_def)
  qed
qed

lemma sorted_group: "sorted_wrt (\<lambda>x y. key_rank x < key_rank y) (group_keys n g)"
proof -
  let ?ps = "[4 + 64 * g..<min (4 + 64 * Suc g) n]"
  have r: "key_rank (Inl p) = p + g + 1" if "p \<in> set ?ps" for p
  proof -
    have "4 + 64 * g \<le> p" "p < 4 + 64 * Suc g" using that by auto
    then have "(p - 4) div 64 = g" "4 \<le> p" by (auto intro!: div_nat_eqI)
    then show ?thesis by simp
  qed
  have "sorted_wrt (\<lambda>p q. key_rank (Inl p) < key_rank (Inl q)) ?ps"
    using sorted_wrt_mono_rel[of ?ps "(<)" "\<lambda>p q. key_rank (Inl p) < key_rank (Inl q)"] r by (auto simp del: key_rank.simps)
  moreover have "key_rank (Inr g) < key_rank (Inl p)" if "p \<in> set ?ps" for p
    using r[OF that] that by (auto simp del: key_rank.simps(1))
  ultimately show ?thesis by (simp add: group_keys_def sorted_wrt_map del: key_rank.simps)
qed

lemma sorted_groups: "sorted_wrt (\<lambda>x y. key_rank x < key_rank y) (concat (map (group_keys n) [0..<m]))"
proof (induction m)
  case (Suc m)
  have "key_rank x < key_rank y" if "x \<in> set (group_keys n g)" "g < m" "y \<in> set (group_keys n m)" for x y g
  proof -
    have "65 * Suc g \<le> 65 * m" using that(2) by simp
    then show ?thesis using in_group[OF that(1)] in_group[OF that(3)] by linarith
  qed
  then show ?case using Suc sorted_group[of n m] by (auto simp: sorted_wrt_append)
qed simp

lemma sorted_visit: "sorted_wrt (\<lambda>x y. key_rank x < key_rank y) (visit n)"
proof -
  have "sorted_wrt (\<lambda>p q. key_rank (Inl p) < key_rank (Inl q)) [0..<min 4 n]"
    using sorted_wrt_mono_rel[of "[0..<min 4 n]" "(<)" "\<lambda>p q. key_rank (Inl p) < key_rank (Inl q)"] by auto
  moreover have "key_rank (Inl p) < key_rank y" if "p < 4" "y \<in> set (group_keys n g)" for p y g
    using in_group[OF that(2)] that(1) by simp
  ultimately show ?thesis using sorted_groups[of n "ndouble n"]
    by (auto simp: visit_def sorted_wrt_append sorted_wrt_map simp del: key_rank.simps)
qed

lemma set_visit: "set (visit n) = node_keys n"
proof (intro equalityI subsetI)
  fix x assume "x \<in> set (visit n)"
  then consider p where "x = Inl p" "p < n" | g where "g < ndouble n" "x \<in> set (group_keys n g)"
    unfolding visit_def set_append Un_iff by fastforce
  then show "x \<in> node_keys n"
  proof cases
    case 2
    then show ?thesis by (cases x) (auto simp: group_keys_def)
  qed simp
next
  fix x assume x: "x \<in> node_keys n"
  show "x \<in> set (visit n)"
  proof (cases x)
    case (Inr g)
    then show ?thesis using x by (auto simp: visit_def group_keys_def)
  next
    case (Inl p)
    then have p: "p < n" using x by simp
    show ?thesis
    proof (cases "p < 4")
      case False
      then obtain g j where "p = 4 + 64 * g + j" "j < 64" "g < ndouble n" using page_group[of p n] p by auto
      then have "Inl p \<in> set (group_keys n g)" "g \<in> set [0..<ndouble n]" using p by (auto simp: group_keys_def)
      then show ?thesis using Inl by (auto simp: visit_def)
    qed (use p Inl in \<open>simp add: visit_def\<close>)
  qed
qed

lemma set_new_keys: "set (new_keys n0 n1) = node_keys n1 - node_keys n0"
proof -
  have "x \<in> set (new_keys n0 n1) \<longleftrightarrow> x \<in> node_keys n1 - node_keys n0" for x
    by (cases x) (auto simp: new_keys_def set_visit)
  then show ?thesis by blast
qed

lemma sorted_new_keys: "sorted_wrt (\<lambda>x y. key_rank x < key_rank y) (new_keys n0 n1)"
  unfolding new_keys_def by (rule sorted_wrt_filter[OF sorted_visit])

section \<open>The inodes taken\<close>

lemma finite_node_keys: "finite (node_keys n)"
  by (simp flip: set_visit)

text \<open>By counting, the new pages are all that left the bitmap.\<close>

lemma new_pages_taken:
  assumes i: "node_ok k s i" and r: "resized k s i n t" and le: "pages_of k s i \<le> npages k n"
  shows "node_num t (inode_at t i) ` (node_keys (npages k n) - node_keys (pages_of k s i)) = free_inodes s - free_inodes t"
proof -
  let ?w = "node_num t (inode_at t i)" and ?np = "npages k n" and ?npo = "pages_of k s i"
  let ?N = "node_keys ?np - node_keys ?npo"
  have t: "node_ok k t i" "entries_of t i = n" "free_inodes t \<union> nodes_of k t i = free_inodes s \<union> nodes_of k s i"
    "in_order s ?w ?N t"
    using r le by (auto simp: resized_def leaks_def)
  have p: "pages_of k t i = ?np" using t(2) by (simp add: pages_of_def)
  have nt: "nodes_of k t i = ?w ` node_keys ?np" "inj_on ?w (node_keys ?np)" using t(1) by (simp_all add: nodes_of_def node_ok_def p)
  have ns: "card (nodes_of k s i) = card (node_keys ?npo)" using i by (simp add: nodes_of_def node_ok_def card_image)
  have d: "free_inodes t \<inter> nodes_of k t i = {}" "free_inodes s \<inter> nodes_of k s i = {}" using t(1) i by (auto simp: node_ok_def)
  have fin: "finite (nodes_of k t i)" "finite (nodes_of k s i)" by (simp_all add: nodes_of_def finite_node_keys)
  have sub: "node_keys ?npo \<subseteq> node_keys ?np"
  proof
    fix x assume "x \<in> node_keys ?npo"
    moreover have "ndouble ?npo \<le> ndouble ?np" using ndouble_le[of ?npo "ndouble ?np"] ndouble_le[of ?np "ndouble ?np"] le by linarith
    ultimately show "x \<in> node_keys ?np" using le by (cases x) auto
  qed
  have fs: "free_inodes t \<subseteq> free_inodes s" using t(4) by (simp add: in_order_def)
  have "card (free_inodes t) + card (node_keys ?np) = card (free_inodes s) + card (node_keys ?npo)"
    using card_Un_disjoint[OF finite_free_inodes fin(1) d(1)] card_Un_disjoint[OF finite_free_inodes fin(2) d(2)] t(3) ns
      card_image[OF nt(2)] nt(1) by simp
  moreover have "card ?N = card (node_keys ?np) - card (node_keys ?npo)" "card (node_keys ?npo) \<le> card (node_keys ?np)"
    by (rule card_Diff_subset[OF finite_node_keys sub], rule card_mono[OF finite_node_keys sub])
  moreover have "card (free_inodes s - free_inodes t) = card (free_inodes s) - card (free_inodes t)"
    by (rule card_Diff_subset[OF finite_free_inodes fs])
  moreover have "card (?w ` ?N) = card ?N" using inj_on_subset[OF nt(2) Diff_subset] by (rule card_image)
  ultimately have c: "card (free_inodes s - free_inodes t) = card (?w ` ?N)" by simp
  have "?w ` ?N \<subseteq> free_inodes s - free_inodes t"
    using t(4) d(1) nt(1) unfolding in_order_def by blast
  then show ?thesis by (rule card_subset_eq[OF finite_Diff[OF finite_free_inodes] _ c[symmetric]])
qed

lemma new_pages_list:
  assumes i: "node_ok k s i" and r: "resized k s i n t" and le: "pages_of k s i \<le> npages k n"
  defines "ks \<equiv> new_keys (pages_of k s i) (npages k n)"
  shows "sorted_list_of_set (free_inodes s) = map (node_num t (inode_at t i)) ks @ sorted_list_of_set (free_inodes t)"
proof -
  let ?w = "node_num t (inode_at t i)" and ?N = "node_keys (npages k n) - node_keys (pages_of k s i)"
  have o: "in_order s ?w ?N t" using r le by (simp add: resized_def)
  note tk = new_pages_taken[OF i r le]
  have ks: "set ks = ?N" by (simp add: ks_def set_new_keys)
  have "sorted_wrt (\<lambda>x y. ?w x < ?w y) ks"
    by (rule sorted_wrt_mono_rel[OF _ sorted_new_keys[of "pages_of k s i" "npages k n", folded ks_def]])
       (use o ks in \<open>simp add: in_order_def\<close>)
  then have "sorted_wrt (<) (map ?w ks)" by (simp add: sorted_wrt_map)
  moreover have "sorted_wrt (<) (sorted_list_of_set (free_inodes t))" by simp
  moreover have "x < y" if "x \<in> set (map ?w ks)" "y \<in> free_inodes t" for x y
    using that o tk ks by (auto simp: in_order_def)
  ultimately have "sorted_wrt (<) (map ?w ks @ sorted_list_of_set (free_inodes t))"
    by (simp add: sorted_wrt_append finite_free_inodes del: set_map)
  moreover have "set (map ?w ks @ sorted_list_of_set (free_inodes t)) = free_inodes s"
    using tk ks o by (auto simp: finite_free_inodes in_order_def)
  ultimately have "sorted_list_of_set (free_inodes s) = map ?w ks @ sorted_list_of_set (free_inodes t)"
    by (metis sorted_list_of_set.idem_if_sorted_distinct strict_sorted_iff)
  then show ?thesis .
qed

section \<open>Property\<close>

text \<open>
  C8. Growing a listing, of a directory or of a file, with enough inodes free: the numbers of the new pages, in the order of
  the loops (the single pages, then every double page and its pages), are the least free inodes in ascending order, and
  exactly the rest of the free inodes stays free.
\<close>

theorem listing_grows_in_order:
  assumes "fs_ok s" "node_ok k s i" "0 \<le> z" "pages_of k s i \<le> npages k (clamp_size k z)"
    and "need (npages k (clamp_size k z)) (pages_of k s i) 0 0 \<le> card (free_inodes s)"
  shows "\<exists>t. (case k of Dnode \<Rightarrow> dnode_listing_set | Fnode \<Rightarrow> fnode_listing_set) (of_nat i) z s = Some t
     \<and> sorted_list_of_set (free_inodes s)
       = map (node_num t (inode_at t i)) (new_keys (pages_of k s i) (npages k (clamp_size k z))) @ sorted_list_of_set (free_inodes t)"
  using listing_set_ok[OF assms(1,2,3,5)] new_pages_list[OF assms(2) _ assms(4)] by blast

theorem listing_grows_in_order_witness:
  "\<exists>t. dnode_listing_set 2 39 mounted = Some t
     \<and> map (\<lambda>p. unat (page_num t (inode_at t 2) p)) [0, 1, 2, 3, 4] = [3, 4, 5, 6, 8]
     \<and> unat (ex_pnum_at (inode_at t 2) 0) = 7 \<and> free_inodes t = {9..<1024}"
proof -
  have c: "clamp_size Dnode 39 = 39" "npages Dnode 39 = 5" by (simp_all add: clamp_size_def npages_def)
  have "need 5 0 0 0 \<le> card (free_inodes mounted)" by (simp add: mounted(3) need_def ndouble_def)
  then obtain t where t: "dnode_listing_set (of_nat 2) 39 mounted = Some t"
    "sorted_list_of_set (free_inodes mounted) = map (node_num t (inode_at t 2)) (new_keys 0 5) @ sorted_list_of_set (free_inodes t)"
    using listing_grows_in_order[OF mounted(1) node_ok_root(1), of 39] unfolding node_ok_root(2) c by auto
  have k: "new_keys 0 5 = [Inl 0, Inl 1, Inl 2, Inl 3, Inr 0, Inl 4]"
    by (simp add: new_keys_def visit_def group_keys_def ndouble_def upt_rec)
  have u: "[3..<1024] = [3, 4, 5, 6, 7, 8] @ [9..<1024]"
    by (simp add: upt_conv_Cons del: upt_rec_numeral)
  have "[3..<1024] = map (node_num t (inode_at t 2)) (new_keys 0 5) @ sorted_list_of_set (free_inodes t)"
    using t(2) by (simp add: mounted(3) del: upt_rec_numeral)
  then have e: "map (node_num t (inode_at t 2)) (new_keys 0 5) = [3, 4, 5, 6, 7, 8]" "sorted_list_of_set (free_inodes t) = [9..<1024]"
    unfolding u k by (simp_all del: upt_rec_numeral)
  have "free_inodes t = set [9..<1024]" using e(2) by (metis finite_free_inodes set_sorted_list_of_set)
  then show ?thesis using t(1) e(1) by (simp add: k del: upt_rec_numeral)
qed

end
