(* ===== verification/FS_ListTests.thy ===== *)
theory FS_ListTests
  imports FS_UnitTests FS_PageOrder
begin

text \<open>
  The unit tests of the listings (\<open>prelude/main.c\<close>) as programs over the model, and that they pass on any device and for
  any bytes in the buffers: adding entries within the inode, growing into the pages and the double pages, with the
  inode numbers the tests expect, and growing and shrinking ten times.
\<close>

section \<open>The tests\<close>

text \<open>
  The tests of the two listing functions have the same text; here they are one over the kind of the node. \<open>blk\<close> in the
  source points to the static array.
\<close>

fun list_of :: "nkind \<Rightarrow> ushort \<Rightarrow> fs \<Rightarrow> nat \<times> fs" where
  "list_of Dnode = dnode_listing" | "list_of Fnode = fnode_listing"

fun list_set :: "nkind \<Rightarrow> ushort \<Rightarrow> int \<Rightarrow> fs \<Rightarrow> fs option" where
  "list_set Dnode = dnode_listing_set" | "list_set Fnode = fnode_listing_set"

fun node_init :: "nkind \<Rightarrow> ushort \<Rightarrow> ushort \<Rightarrow> fs \<Rightarrow> fs" where
  "node_init Dnode = dnode_init" | "node_init Fnode = fnode_init"

text \<open>\<open>memcpy(blk, d, n)\<close> and \<open>memset(blk, 0, n)\<close>.\<close>

fun put_arr :: "nkind \<Rightarrow> byte list \<Rightarrow> fs \<Rightarrow> fs" where
  "put_arr Dnode d s = s\<lparr>d_arr := mput 0 d (d_arr s)\<rparr>" | "put_arr Fnode d s = s\<lparr>f_arr := mput 0 d (f_arr s)\<rparr>"

definition fill :: "nkind \<Rightarrow> nat \<Rightarrow> byte list \<Rightarrow> fs \<Rightarrow> fs option" where
  "fill k n rndbuf s = list_set k 3 (int n) (put_arr k (mget 0 (esz k * n) rndbuf) s)"

definition read_back :: "nkind \<Rightarrow> nat \<Rightarrow> byte list \<Rightarrow> fs \<Rightarrow> fs option" where
  "read_back k n rndbuf s =
     (let s = put_arr k (zeros (esz k * n)) s;
          (sizef, s) = list_of k 3 s
      in do {
        mu_assert_int_eq (int n) (int sizef);
        mu_assert_int_eq 0 (if mget 0 (esz k * n) (list_arr k s) = mget 0 (esz k * n) rndbuf then 0 else 1);
        Some s })"

definition test_list_adhoc :: "nkind \<Rightarrow> nat \<Rightarrow> nat \<Rightarrow> byte list \<Rightarrow> fs \<Rightarrow> fs option" where
  "test_list_adhoc k size0 target_sizef rndbuf s = do {
     s \<leftarrow> expect_inode 3 (inode_init (free_block_init s));
     let s = node_init k 3 2 s;
     let (sizef, s) = list_of k 3 s;
     mu_assert_int_eq (int size0) (int sizef);
     s \<leftarrow> fill k target_sizef rndbuf s;
     s \<leftarrow> expect_inode 4 s;
     s \<leftarrow> free_inode_push 4 s;
     read_back k target_sizef rndbuf s }"

definition test_dnode_list_adhoc :: "byte list \<Rightarrow> fs \<Rightarrow> fs option" where
  "test_dnode_list_adhoc = test_list_adhoc Dnode 2 6"

definition test_fnode_list_adhoc :: "byte list \<Rightarrow> fs \<Rightarrow> fs option" where
  "test_fnode_list_adhoc = test_list_adhoc Fnode 0 24"

text \<open>\<open>rnds i\<close> is the buffer as iteration \<open>i\<close> fills it.\<close>

definition test_list_scale :: "nkind \<Rightarrow> nat \<Rightarrow> nat \<Rightarrow> (nat \<Rightarrow> byte list) \<Rightarrow> fs \<Rightarrow> fs option" where
  "test_list_scale k big small rnds s = do {
     s \<leftarrow> expect_inode 3 (inode_init (free_block_init s));
     loop [0..<10] (\<lambda>i s. do {
       s \<leftarrow> fill k big (rnds i) (snd (list_of k 3 s));
       s \<leftarrow> read_back k big (rnds i) s;
       s \<leftarrow> fill k small (rnds i) (snd (list_of k 3 s));
       read_back k small (rnds i) s }) (node_init k 3 2 s) }"

definition test_dnode_list_scale_and_srink :: "(nat \<Rightarrow> byte list) \<Rightarrow> fs \<Rightarrow> fs option" where
  "test_dnode_list_scale_and_srink = test_list_scale Dnode 1000 10"

definition test_fnode_list_scale_and_srink :: "(nat \<Rightarrow> byte list) \<Rightarrow> fs \<Rightarrow> fs option" where
  "test_fnode_list_scale_and_srink = test_list_scale Fnode 5000 50"

text \<open>Growing into the single pages: the next free inode, the page numbers in the inode and the first page are looked at.\<close>

definition test_list_lv1exp :: "nkind \<Rightarrow> nat \<Rightarrow> nat \<Rightarrow> byte list \<Rightarrow> fs \<Rightarrow> fs option" where
  "test_list_lv1exp k size1 size2 rndbuf s = do {
     s \<leftarrow> expect_inode 3 (inode_init (free_block_init s));
     let s = node_init k 3 2 s;
     let (sizef, s) = list_of k 3 s;
     s \<leftarrow> fill k size1 rndbuf s;
     s \<leftarrow> expect_inode 5 s;
     s \<leftarrow> free_inode_push 5 s;
     let (node, s) = inode_load 3 uninit s;
     mu_assert_int_eq 4 (uint (pnum_at node 0));
     let (node, s) = inode_load 4 node s;
     mu_assert_int_eq 0 (if mget 0 (esz k) node = mget (esz k * ndirect k) (esz k) rndbuf then 0 else 1);
     s \<leftarrow> read_back k size1 rndbuf s;
     s \<leftarrow> fill k size2 rndbuf s;
     s \<leftarrow> expect_inode 8 s;
     s \<leftarrow> free_inode_push 8 s;
     let (node, s) = inode_load 3 node s;
     mu_assert_int_eq 4 (uint (pnum_at node 0));
     mu_assert_int_eq 5 (uint (pnum_at node 1));
     mu_assert_int_eq 6 (uint (pnum_at node 2));
     mu_assert_int_eq 7 (uint (pnum_at node 3));
     read_back k size2 rndbuf s }"

definition test_dnode_list_lv1exp :: "byte list \<Rightarrow> fs \<Rightarrow> fs option" where
  "test_dnode_list_lv1exp = test_list_lv1exp Dnode 7 38"

definition test_fnode_list_lv1exp :: "byte list \<Rightarrow> fs \<Rightarrow> fs option" where
  "test_fnode_list_lv1exp = test_list_lv1exp Fnode 25 151"

text \<open>Growing into the double pages; the test of files also looks at the pending error.\<close>

definition expect_no_error :: "nkind \<Rightarrow> fs \<Rightarrow> fs option" where
  "expect_no_error k s =
     (case k of
        Dnode \<Rightarrow> Some s
      | Fnode \<Rightarrow> let (e, s) = errno_pop s in do { mu_assert_int_eq 0 e; Some s })"

definition test_list_lv2exp :: "nkind \<Rightarrow> nat \<Rightarrow> nat \<Rightarrow> byte list \<Rightarrow> fs \<Rightarrow> fs option" where
  "test_list_lv2exp k size1 size2 rndbuf s = do {
     s \<leftarrow> expect_inode 3 (inode_init (free_block_init s));
     let s = node_init k 3 2 s;
     let (sizef, s) = list_of k 3 s;
     s \<leftarrow> fill k size1 rndbuf s;
     s \<leftarrow> expect_inode 10 s;
     s \<leftarrow> free_inode_push 10 s;
     s \<leftarrow> read_back k size1 rndbuf s;
     s \<leftarrow> fill k size2 rndbuf s;
     s \<leftarrow> read_back k size2 rndbuf s;
     s \<leftarrow> fill k (nat DENTRY_MAX_SIZE - 1) rndbuf s;
     s \<leftarrow> expect_no_error k s;
     read_back k (nat DENTRY_MAX_SIZE - 1) rndbuf s }"

definition test_dnode_list_lv2exp :: "byte list \<Rightarrow> fs \<Rightarrow> fs option" where
  "test_dnode_list_lv2exp = test_list_lv2exp Dnode 39 47"

definition test_fnode_list_lv2exp :: "byte list \<Rightarrow> fs \<Rightarrow> fs option" where
  "test_fnode_list_lv2exp = test_list_lv2exp Fnode 153 185"

section \<open>A device with one node\<close>

text \<open>The node at inode 3 and the free inodes are all there is.\<close>

definition alone :: "nkind \<Rightarrow> nat \<Rightarrow> fs \<Rightarrow> bool" where
  "alone k n s \<longleftrightarrow> fs_ok s \<and> node_ok k s 3 \<and> entries_of s 3 = n \<and> free_inodes s \<union> nodes_of k s 3 = {4..<1024}"

text \<open>The node holds the first bytes of \<open>rnd\<close>.\<close>

definition holds :: "nkind \<Rightarrow> nat \<Rightarrow> byte list \<Rightarrow> fs \<Rightarrow> bool" where
  "holds k n rnd s \<longleftrightarrow> alone k n s
     \<and> mget 0 (esz k * n) (node_bytes s (inode_at s 3) (npages k n)) = mget 0 (esz k * n) rnd"

lemma alone_pages: "alone k n s \<Longrightarrow> pages_of k s 3 = npages k n"
  by (simp add: alone_def pages_of_def)

lemma alone_disk:
  assumes "fs_ok t" "file_blk t = file_blk s" "alone k n s"
  shows "alone k n t" "free_inodes t = free_inodes s" "holds k n rnd s \<Longrightarrow> holds k n rnd t"
proof -
  note n = node_num_cong_disk[OF assms(2)] and b = node_bytes_cong_disk[OF assms(2)]
  have i: "inode_at t = inode_at s" by (rule ext) (simp add: inode_at_def assms(2))
  show f: "free_inodes t = free_inodes s" by (simp add: free_inodes_def assms(2))
  have e: "entries_of t 3 = entries_of s 3" by (simp add: entries_of_def i)
  then have p: "pages_of k t 3 = pages_of k s 3" by (simp add: pages_of_def)
  then have "nodes_of k t 3 = nodes_of k s 3" by (simp add: nodes_of_def n i)
  then show "alone k n t" using assms(1,3) e p f by (simp add: alone_def node_ok_def n i)
  then show "holds k n rnd s \<Longrightarrow> holds k n rnd t" by (simp add: holds_def b i)
qed

lemma list_set_case: "list_set k = (case k of Dnode \<Rightarrow> dnode_listing_set | Fnode \<Rightarrow> fnode_listing_set)"
  by (cases k) simp_all

lemma put_arr_frame [simp]: "file_blk (put_arr k d s) = file_blk s" "ERRNO (put_arr k d s) = ERRNO s"
  by (cases k; simp)+

lemma fs_ok_put: "fs_ok s \<Longrightarrow> length d \<le> ARR_BYTES \<Longrightarrow> fs_ok (put_arr k d s)"
  by (cases k) (auto simp: fs_ok_def[of s])

lemma list_arr_put: "fs_ok s \<Longrightarrow> length d \<le> ARR_BYTES \<Longrightarrow> mget 0 (length d) (list_arr k (put_arr k d s)) = d"
  by (cases k) (simp_all add: fs_ok_def mem_simps)

lemma list_arr_length: "fs_ok s \<Longrightarrow> length (list_arr k s) = ARR_BYTES"
  by (cases k) (simp_all add: fs_ok_def)

lemma list_of_alone:
  assumes "alone k n s"
  shows "\<exists>t. list_of k 3 s = (n, t) \<and> fs_ok t \<and> file_blk t = file_blk s \<and> ERRNO t = ERRNO s
     \<and> list_arr k t = mput 0 (node_bytes s (inode_at s 3) (npages k n)) (list_arr k s)"
proof -
  have s: "disk_ok s" "arrays_ok s" "fs_ok s" using assms fs_ok_disk by (auto simp: alone_def fs_ok_def arrays_ok_def)
  have n: "unat (md_size (inode_at s 3)) = n" "npages k n \<le> MAX_PAGES" using assms by (auto simp: alone_def node_ok_def pages_of_def entries_of_def)
  have l: "length (node_bytes s (inode_at s 3) (npages k n)) \<le> ARR_BYTES" using s(1) n(2) by simp
  show ?thesis
  proof (cases k)
    case Dnode
    obtain b where "dnode_listing 3 s = (n, s\<lparr>iblockbuf := b, d_arr := mput 0 (node_bytes s (inode_at s 3) (npages k n)) (d_arr s)\<rparr>)"
      using dnode_listing_eq[OF s(1,2), of 3] n by (auto simp: Dnode)
    then show ?thesis using s(3) l Dnode by (auto simp: fs_ok_def[of s])
  next
    case Fnode
    obtain b where "fnode_listing 3 s = (n, s\<lparr>iblockbuf := b, f_arr := mput 0 (node_bytes s (inode_at s 3) (npages k n)) (f_arr s)\<rparr>)"
      using fnode_listing_eq[OF s(1,2), of 3] n by (auto simp: Fnode)
    then show ?thesis using s(3) l Fnode by (auto simp: fs_ok_def[of s])
  qed
qed

lemma listing_fits: "esz k * n \<le> 96 + 128 * npages k n"
proof -
  have "esz k * n \<le> esz k * ptr_at k (npages k n)" using npages_le[of k n "npages k n"] by simp
  then show ?thesis by (simp add: esz_ptr)
qed

text \<open>Reading back what the node holds.\<close>

lemma read_back_ok:
  assumes s: "holds k n rnd s" and n: "n \<le> max_entries k"
  shows "\<exists>t. read_back k n rnd s = Some t \<and> holds k n rnd t \<and> free_inodes t = free_inodes s \<and> ERRNO t = ERRNO s"
proof -
  have a: "alone k n s" "fs_ok s" using s by (simp_all add: holds_def alone_def)
  have b: "length (zeros (esz k * n)) \<le> ARR_BYTES" using n by (cases k) simp_all
  let ?u = "put_arr k (zeros (esz k * n)) s"
  have u: "fs_ok ?u" "file_blk ?u = file_blk s" "ERRNO ?u = ERRNO s" using fs_ok_put[OF a(2) b] by simp_all
  from list_of_alone[OF alone_disk(1)[OF u(1,2) a(1)]] obtain t where t: "list_of k 3 ?u = (n, t)" "fs_ok t" "file_blk t = file_blk ?u"
    "ERRNO t = ERRNO ?u" "list_arr k t = mput 0 (node_bytes ?u (inode_at ?u 3) (npages k n)) (list_arr k ?u)" by blast
  have td: "file_blk t = file_blk s" using t(3) u(2) by simp
  have h: "holds k n rnd ?u" by (rule alone_disk(3)[OF u(1,2) a(1) s])
  have "length (node_bytes ?u (inode_at ?u 3) (npages k n)) = 96 + 128 * npages k n" using fs_ok_disk[OF u(1)] by simp
  moreover have "96 + 128 * npages k n \<le> ARR_BYTES" using npages_max[OF n] by simp
  ultimately have "mget 0 (esz k * n) (list_arr k t) = mget 0 (esz k * n) (node_bytes ?u (inode_at ?u 3) (npages k n))"
    using listing_fits[of k n] list_arr_length[OF u(1), of k] by (simp add: t(5) mem_simps)
  then have "mget 0 (esz k * n) (list_arr k t) = mget 0 (esz k * n) rnd" using h by (simp add: holds_def)
  then have "read_back k n rnd s = Some t" by (simp add: read_back_def t(1) Let_def del: put_arr.simps)
  then show ?thesis using alone_disk[OF t(2) td a(1)] s t(4) u(3) by simp
qed

text \<open>Filling the node.\<close>

lemma enough_inodes:
  assumes "alone k m s" "npages k m \<le> MAX_PAGES" "np \<le> MAX_PAGES"
  shows "need np (pages_of k s 3) 0 0 \<le> card (free_inodes s)"
proof -
  have p: "pages_of k s 3 = npages k m" using assms(1) by (rule alone_pages)
  have "free_inodes s \<union> nodes_of k s 3 = {4..<1024}" using assms(1) by (simp add: alone_def)
  then have "card {4..<1024::nat} \<le> card (free_inodes s) + card (nodes_of k s 3)" by (metis card_Un_le)
  moreover have "card (nodes_of k s 3) \<le> pages_of k s 3 + ndouble (pages_of k s 3)" unfolding nodes_of_def by (rule card_nodes)
  moreover have "ndouble (npages k m) \<le> 4" "ndouble np \<le> 4" using assms(2,3) by (simp_all add: ndouble_le)
  ultimately show ?thesis using assms(2,3) by (simp add: need_def p)
qed

lemma fill_ok:
  assumes s: "alone k m s" and n: "m \<le> max_entries k" "n \<le> max_entries k" and r: "esz k * n \<le> length rnd"
    and l: "\<not> leaks (npages k n) (npages k m)"
  shows "\<exists>t. fill k n rnd s = Some t \<and> holds k n rnd t \<and> ERRNO t = ERRNO s
     \<and> (npages k m \<le> npages k n \<longrightarrow> sorted_list_of_set (free_inodes s)
         = map (node_num t (inode_at t 3)) (new_keys (npages k m) (npages k n)) @ sorted_list_of_set (free_inodes t))"
proof -
  let ?d = "mget 0 (esz k * n) rnd" let ?u = "put_arr k ?d s"
  have b: "length ?d = esz k * n" "length ?d \<le> ARR_BYTES" using n(2) r by (cases k; simp)+
  have f: "fs_ok s" using s by (simp add: alone_def)
  have u: "fs_ok ?u" "file_blk ?u = file_blk s" "ERRNO ?u = ERRNO s" using fs_ok_put[OF f b(2)] by simp_all
  have a: "alone k m ?u" "free_inodes ?u = free_inodes s" by (rule alone_disk[OF u(1,2) s])+
  note p = alone_pages[OF a(1)]
  have nk: "node_ok k ?u 3" "free_inodes ?u \<union> nodes_of k ?u 3 = {4..<1024}" using a(1) by (simp_all add: alone_def)
  have c: "clamp_size k (int n) = n" "\<not> int (max_entries k) < int n" using n(2) by (simp_all add: clamp_size_def)
  have "need (npages k n) (pages_of k ?u 3) 0 0 \<le> card (free_inodes ?u)"
    by (rule enough_inodes[OF a(1)]) (use npages_max[OF n(1)] npages_max[OF n(2)] in simp_all)
  then obtain t where t: "list_set k (of_nat 3) (int n) ?u = Some t" "resized k ?u 3 n t"
    "unchanged (?u\<lparr>ERRNO := (if int (max_entries k) < int n then - EFBIG else ERRNO ?u)\<rparr>) ({3} \<union> free_inodes ?u \<union> nodes_of k ?u 3) t"
    using listing_set_ok[OF u(1) nk(1) of_nat_0_le_iff[of n], unfolded c(1), folded list_set_case] by blast
  have e: "ERRNO t = ERRNO s" using t(3) u(3) c(2) by (simp add: unchanged_def kept_def)
  have run: "fill k n rnd s = Some t" using t(1) by (simp add: fill_def)
  have lt: "\<not> leaks (npages k n) (pages_of k ?u 3)" using l by (simp add: p)
  have "free_inodes t \<union> nodes_of k t 3 = {4..<1024}" using t(2) lt nk(2) by (simp only: resized_def simp_thms)
  then have "alone k n t" using t(2) by (simp add: resized_def alone_def)
  moreover have "mget 0 (esz k * n) (node_bytes t (inode_at t 3) (npages k n)) = ?d"
  proof -
    have "node_bytes t (inode_at t 3) (npages k n) = mget 0 (96 + 128 * npages k n) (list_arr k ?u)" using t(2) by (simp add: resized_def)
    then show ?thesis using list_arr_put[OF f b(2), of k, unfolded b(1)] listing_fits[of k n] by (simp add: mget_mget)
  qed
  ultimately have "holds k n rnd t" by (simp add: holds_def)
  with run e new_pages_list[OF nk(1) t(2)] show ?thesis by (simp only: p a(2)) blast
qed

text \<open>The numbers of the new pages when the free inodes are the last ones.\<close>

lemma grow_ok:
  assumes s: "alone k m s" "free_inodes s = {a..<1024}" and n: "m \<le> n" "n \<le> max_entries k" and r: "esz k * n \<le> length rnd"
    and ks: "ks = new_keys (npages k m) (npages k n)"
  shows "\<exists>t. fill k n rnd s = Some t \<and> holds k n rnd t \<and> ERRNO t = ERRNO s
     \<and> map (node_num t (inode_at t 3)) ks = [a..<a + length ks] \<and> free_inodes t = {a + length ks..<1024}"
proof -
  have le: "npages k m \<le> npages k n" using n(1) by (rule npages_mono)
  then have "\<not> leaks (npages k n) (npages k m)" by (simp add: leaks_def)
  from fill_ok[OF s(1) order_trans[OF n] n(2) r this] le obtain t where t: "fill k n rnd s = Some t" "holds k n rnd t" "ERRNO t = ERRNO s"
    "sorted_list_of_set (free_inodes s) = map (node_num t (inode_at t 3)) ks @ sorted_list_of_set (free_inodes t)" unfolding ks by blast
  have l: "[a..<1024] = map (node_num t (inode_at t 3)) ks @ sorted_list_of_set (free_inodes t)"
    using t(4) by (simp add: s(2) del: upt_rec_numeral)
  then have "map (node_num t (inode_at t 3)) ks = take (length ks) [a..<1024]"
    "sorted_list_of_set (free_inodes t) = drop (length ks) [a..<1024]" by (simp_all del: upt_rec_numeral take_upt drop_upt)
  moreover have "length [a..<1024] = length ks + length (sorted_list_of_set (free_inodes t))"
    using arg_cong[OF l, of length] by (simp only: length_append length_map)
  then have "a + length ks \<le> 1024 \<or> ks = []" by (cases ks) auto
  ultimately have "map (node_num t (inode_at t 3)) ks = [a..<a + length ks]" "sorted_list_of_set (free_inodes t) = [a + length ks..<1024]"
    by (auto simp: drop_upt)
  moreover from this(2) have "free_inodes t = {a + length ks..<1024}"
    by (metis finite_free_inodes set_sorted_list_of_set set_upt)
  ultimately show ?thesis using t(1-3) by blast
qed

text \<open>Looking at the next free inode.\<close>

lemma peek_ok:
  assumes s: "holds k n rnd s" "free_inodes s = {a..<1024}" and a: "2 \<le> a" "a < 1024"
  shows "\<exists>t u. expect_inode (int a) s = Some t \<and> free_inode_push (of_nat a) t = Some u \<and> holds k n rnd u
     \<and> free_inodes u = {a..<1024} \<and> ERRNO u = ERRNO s \<and> (\<forall>m<4096. inode_at u m = inode_at s m)"
proof -
  have al: "alone k n s" "fs_ok s" "node_ok k s 3" using s(1) by (simp_all add: holds_def alone_def)
  have m: "Min (free_inodes s) = a" "free_inodes s \<noteq> {}" unfolding s(2) using a(2) by (auto intro: Min_eqI)
  from free_inode_pop_ok[OF al(2) m(2)] obtain p where p: "free_inode_pop s = (of_nat a, s\<lparr>file_blk := (file_blk s)(1024 := p)\<rparr>)"
    "fs_ok (s\<lparr>file_blk := (file_blk s)(1024 := p)\<rparr>)"
    "free_inodes (s\<lparr>file_blk := (file_blk s)(1024 := p)\<rparr>) = {a..<1024} - {a}" by (metis m(1) s(2))
  have w: "unat (of_nat a :: ushort) = a" "uint (of_nat a :: ushort) = int a" using a(2) unat_of_nat_ushort uint_of_nat_ushort by simp_all
  from free_inode_push_ok[OF p(2), of "of_nat a"] a p(3) obtain q where
    q: "free_inode_push (of_nat a) (s\<lparr>file_blk := (file_blk s)(1024 := p)\<rparr>) = Some (s\<lparr>file_blk := (file_blk s)(1024 := q)\<rparr>)"
      "fs_ok (s\<lparr>file_blk := (file_blk s)(1024 := q)\<rparr>)"
      "free_inodes (s\<lparr>file_blk := (file_blk s)(1024 := q)\<rparr>) = insert a ({a..<1024} - {a})" by (auto simp: w)
  let ?u = "s\<lparr>file_blk := (file_blk s)(1024 := q)\<rparr>"
  have f: "free_inodes ?u = {a..<1024}" using q(3) a(2) by auto
  have "m div 4 \<noteq> 1024" if "m < 4096" for m :: nat using that by linarith
  then have at: "\<forall>m<4096. inode_at ?u m = inode_at s m" by (simp add: inode_at_def)
  then have at': "\<forall>m<4096. m \<notin> free_inodes s \<longrightarrow> inode_at ?u m = inode_at s m" by blast
  have "({3} \<union> nodes_of k s 3) \<inter> free_inodes s = {}" using al(3) by (auto simp: node_ok_def)
  from same_node[OF at' al(3) this] have nd: "node_ok k ?u 3" "inode_at ?u 3 = inode_at s 3" "nodes_of k ?u 3 = nodes_of k s 3"
    "node_bytes ?u (inode_at s 3) (pages_of k s 3) = node_bytes s (inode_at s 3) (pages_of k s 3)" by (simp_all add: f s(2))
  then have "alone k n ?u" using al(1) q(2) f s(2) by (simp add: alone_def entries_of_def)
  then have "holds k n rnd ?u" using s(1) nd(2,4) by (simp add: holds_def alone_pages[OF al(1)])
  moreover have "expect_inode (int a) s = Some (s\<lparr>file_blk := (file_blk s)(1024 := p)\<rparr>)" using p(1) w(2) by (simp add: expect_inode_def)
  ultimately show ?thesis using q(1) f at by auto
qed

section \<open>How every test begins\<close>

fun new_node_bytes :: "nkind \<Rightarrow> byte list" where
  "new_node_bytes Dnode = dir_node 3 2" | "new_node_bytes Fnode = file_node 3 2"

fun new_size :: "nkind \<Rightarrow> nat" where "new_size Dnode = 2" | "new_size Fnode = 0"

lemma new_size_pages [simp]: "npages k (new_size k) = 0"
  by (cases k) simp_all

lemma alone_new:
  assumes "host_ok s" "arrays_ok s"
  shows "\<exists>t. expect_inode 3 (inode_init (free_block_init s)) = Some t \<and> alone k (new_size k) (node_init k 3 2 t)
     \<and> free_inodes (node_init k 3 2 t) = {4..<1024} \<and> ERRNO (node_init k 3 2 t) = ERRNO s"
proof -
  let ?s = "inode_init (free_block_init s)"
  have f: "fs_ok ?s" "free_inodes ?s = {3..<1024}" "ERRNO ?s = ERRNO s" using mount_aux[OF assms] by simp_all
  have m: "3 = Min (free_inodes ?s)" unfolding f(2) by (rule Min_eqI[symmetric]) auto
  have nd: "length (new_node_bytes k) = INODE_SIZE" "md_ino (new_node_bytes k) = of_nat 3" "npages k (unat (md_size (new_node_bytes k))) = 0"
    "unat (md_size (new_node_bytes k)) = new_size k"
    by (cases k; simp add: dir_node_ino dir_node_size file_node_fields)+
  have "free_inodes ?s \<noteq> {}" using f(2) by simp
  from new_node[OF f(1) this m nd(1-3)] obtain t where t: "free_inode_pop ?s = (3, t)"
    "fs_ok (inode_dump 3 (new_node_bytes k) t)" "free_inodes (inode_dump 3 (new_node_bytes k) t) = {3..<1024} - {3}"
    "node_ok k (inode_dump 3 (new_node_bytes k) t) 3" "nodes_of k (inode_dump 3 (new_node_bytes k) t) 3 = {}"
    "inode_at (inode_dump 3 (new_node_bytes k) t) 3 = new_node_bytes k" "kept ?s {3} (inode_dump 3 (new_node_bytes k) t)"
    unfolding f(2) by auto
  have i: "node_init k 3 2 t = inode_dump 3 (new_node_bytes k) t" by (cases k) (simp_all add: dnode_init_eq fnode_init_eq)
  have fr: "{3..<1024} - {3} = {4..<1024::nat}" by auto
  have "alone k (new_size k) (node_init k 3 2 t)" "free_inodes (node_init k 3 2 t) = {4..<1024}"
    using t(2-6) nd(4) by (simp_all only: i alone_def entries_of_def fr) simp_all
  moreover have "ERRNO (node_init k 3 2 t) = ERRNO s" using t(7) f(3) by (simp add: i kept_def)
  ultimately show ?thesis using t(1) by (simp add: expect_inode_def)
qed

text \<open>The start of the tests: a new node, listed once.\<close>

lemma test_start:
  assumes "host_ok s" "arrays_ok s"
  shows "\<exists>t u. expect_inode 3 (inode_init (free_block_init s)) = Some t \<and> list_of k 3 (node_init k 3 2 t) = (new_size k, u)
     \<and> alone k (new_size k) u \<and> free_inodes u = {4..<1024} \<and> ERRNO u = ERRNO s"
proof -
  from alone_new[OF assms, of k] obtain t where t: "expect_inode 3 (inode_init (free_block_init s)) = Some t"
    "alone k (new_size k) (node_init k 3 2 t)" "free_inodes (node_init k 3 2 t) = {4..<1024}" "ERRNO (node_init k 3 2 t) = ERRNO s" by blast
  from list_of_alone[OF t(2)] obtain u where u: "list_of k 3 (node_init k 3 2 t) = (new_size k, u)" "fs_ok u"
    "file_blk u = file_blk (node_init k 3 2 t)" "ERRNO u = ERRNO (node_init k 3 2 t)" by blast
  show ?thesis using t(1,3,4) u(1,4) alone_disk(1,2)[OF u(2,3) t(2)] by simp
qed

lemma new_size_le: "n \<le> max_entries k \<Longrightarrow> new_size k \<le> max_entries k"
  by (cases k) simp_all

section \<open>The tests pass\<close>

lemma adhoc_passes:
  assumes s: "host_ok s" "arrays_ok s" and n: "new_size k \<le> n" "n \<le> max_entries k" "npages k n = 0" and r: "esz k * n \<le> length rnd"
  shows "test_list_adhoc k (new_size k) n rnd s \<noteq> None"
proof -
  from test_start[OF s, of k] obtain t u where t: "expect_inode 3 (inode_init (free_block_init s)) = Some t"
    "list_of k 3 (node_init k 3 2 t) = (new_size k, u)" "alone k (new_size k) u" "free_inodes u = {4..<1024}" by blast
  have "new_keys 0 0 = []" by (simp add: new_keys_def visit_def ndouble_def)
  with grow_ok[OF t(3,4) n(1,2) r refl] n(3) obtain v where v: "fill k n rnd u = Some v" "holds k n rnd v" "free_inodes v = {4..<1024}" by auto
  from peek_ok[OF v(2,3)] obtain w x where w: "expect_inode (int 4) v = Some w" "free_inode_push (of_nat 4) w = Some x" "holds k n rnd x" by auto
  from read_back_ok[OF w(3) n(2)] obtain y where "read_back k n rnd x = Some y" by blast
  then show ?thesis using t(1,2) v(1) w(1,2) by (simp add: test_list_adhoc_def)
qed

lemma scale_step:
  assumes s: "alone k m s" and n: "m \<le> max_entries k" "n \<le> max_entries k" and r: "esz k * n \<le> length rnd"
    and l: "\<not> leaks (npages k n) (npages k m)"
  shows "\<exists>t u. fill k n rnd (snd (list_of k 3 s)) = Some t \<and> read_back k n rnd t = Some u \<and> alone k n u"
proof -
  from list_of_alone[OF s] obtain v where v: "list_of k 3 s = (m, v)" "fs_ok v" "file_blk v = file_blk s" by blast
  from fill_ok[OF alone_disk(1)[OF v(2,3) s] n r l] obtain t where t: "fill k n rnd v = Some t" "holds k n rnd t" by blast
  from read_back_ok[OF t(2) n(2)] obtain u where "read_back k n rnd t = Some u" "holds k n rnd u" by blast
  then show ?thesis using t(1) v(1) by (auto simp: holds_def)
qed

lemma scale_passes:
  assumes s: "host_ok s" "arrays_ok s" and b: "big \<le> max_entries k" "\<And>i. esz k * big \<le> length (rnds i)"
    and c: "small \<le> big" "npages k small \<le> 4"
  shows "test_list_scale k big small rnds s \<noteq> None"
proof -
  let ?P = "\<lambda>i s. \<exists>m. alone k m s \<and> npages k m \<le> 4 \<and> m \<le> max_entries k"
  let ?body = "\<lambda>i s. do {
       s \<leftarrow> fill k big (rnds i) (snd (list_of k 3 s));
       s \<leftarrow> read_back k big (rnds i) s;
       s \<leftarrow> fill k small (rnds i) (snd (list_of k 3 s));
       read_back k small (rnds i) s }"
  have sm: "small \<le> max_entries k" "esz k * small \<le> length (rnds i)" for i
    using b(1) b(2)[of i] c(1) mult_le_mono2[OF c(1), of "esz k"] by linarith+
  have step: "\<exists>s'. ?body i s = Some s' \<and> ?P (Suc i) s'" if P: "?P i s" for i s
  proof -
    from P obtain m where m: "alone k m s" "npages k m \<le> 4" "m \<le> max_entries k" by blast
    then have "\<not> leaks (npages k big) (npages k m)" by (auto simp: leaks_def)
    from scale_step[OF m(1,3) b(1,2) this] obtain t u where
      t: "fill k big (rnds i) (snd (list_of k 3 s)) = Some t" "read_back k big (rnds i) t = Some u" "alone k big u" by blast
    have "\<not> leaks (npages k small) (npages k big)" using c(2) by (auto simp: leaks_def)
    from scale_step[OF t(3) b(1) sm this] obtain v w where
      "fill k small (rnds i) (snd (list_of k 3 u)) = Some v" "read_back k small (rnds i) v = Some w" "alone k small w" by blast
    with t c(2) sm(1) show ?thesis by auto
  qed
  from alone_new[OF s, of k] obtain t where
    t: "expect_inode 3 (inode_init (free_block_init s)) = Some t" "alone k (new_size k) (node_init k 3 2 t)" by blast
  have "?P 0 (node_init k 3 2 t)" using t(2) new_size_le[OF b(1)] by (intro exI[of _ "new_size k"]) simp
  from loop_rule[of 0 10 ?P ?body, OF step _ this] obtain u where "loop [0..<10] ?body (node_init k 3 2 t) = Some u" by blast
  then show ?thesis by (simp add: test_list_scale_def t(1) del: loop.simps)
qed

text \<open>The inodes with the single pages, and the inode of the first one.\<close>

lemma new_keys_lv1: "new_keys 0 (Suc 0) = [Inl 0]" "new_keys (Suc 0) 4 = [Inl 1, Inl 2, Inl 3]"
  by (simp_all add: new_keys_def visit_def ndouble_def upt_rec)

lemma new_keys_lv2: "length (new_keys 0 5) = 6"
  by (simp add: new_keys_def visit_def group_keys_def ndouble_def upt_rec)

lemma first_page:
  assumes h: "holds k n rnd s" and n: "ndirect k < n" and w: "unat (pnum_at (inode_at s 3) 0) = w"
  shows "mget 0 (esz k) (inode_at s w) = mget (esz k * ndirect k) (esz k) rnd"
proof -
  let ?B = "node_bytes s (inode_at s 3) (npages k n)"
  have s: "disk_ok s" "length (inode_at s 3) = INODE_SIZE" using h fs_ok_disk[of s] by (simp_all add: holds_def alone_def)
  have p: "0 < npages k n" using n npages_le[of k n 0] by (simp add: ptr_at_def)
  have "mget 96 128 ?B = inode_at s w" using node_bytes_page[OF s p] w by (simp add: node_page_def page_num_def)
  then have "mget 0 (esz k) (inode_at s w) = mget 96 (esz k) ?B"
    using mget_mget[of 0 "esz k" 128 96 ?B] by (cases k) simp_all
  also have "\<dots> = mget 96 (esz k) (mget 0 (esz k * n) ?B)"
    using mget_mget[of 96 "esz k" "esz k * n" 0 ?B] n by (cases k) simp_all
  also have "\<dots> = mget 96 (esz k) (mget 0 (esz k * n) rnd)" using h by (simp add: holds_def)
  also have "\<dots> = mget (esz k * ndirect k) (esz k) rnd"
    using mget_mget[of 96 "esz k" "esz k * n" 0 rnd] n by (cases k) simp_all
  finally show ?thesis .
qed

lemma holds_alone: "holds k n rnd s \<Longrightarrow> alone k n s"
  by (simp add: holds_def)

lemma uint_unat_eq: "unat w = n \<Longrightarrow> uint w = int n"
  by auto

lemma load_ok:
  assumes s: "holds k n rnd s" and i: "i < 1024"
  shows "\<exists>t. inode_load (int i) b s = (inode_at s i, t) \<and> holds k n rnd t \<and> free_inodes t = free_inodes s
     \<and> (\<forall>m. inode_at t m = inode_at s m)"
proof -
  have f: "fs_ok s" using s by (simp add: holds_def alone_def)
  let ?t = "s\<lparr>iblockbuf := file_blk s (i div 4)\<rparr>"
  have t: "fs_ok ?t" "file_blk ?t = file_blk s" using f by simp_all
  have "inode_load (int i) b s = (inode_at s i, ?t)" using inode_load_eq[OF fs_ok_disk[OF f], of i b] i by simp
  then show ?thesis using alone_disk(3)[OF t holds_alone[OF s] s] by auto
qed

lemma lv1_passes:
  assumes s: "host_ok s" "arrays_ok s" and n: "n1 \<le> n2" "n2 \<le> max_entries k" "npages k n1 = 1" "npages k n2 = 4" and r: "esz k * n2 \<le> length rnd"
    and n1: "ndirect k < n1" "new_size k \<le> n1"
  shows "test_list_lv1exp k n1 n2 rnd s \<noteq> None"
proof -
  have m: "n1 \<le> max_entries k" "esz k * n1 \<le> length rnd"
    using n(1,2) r mult_le_mono2[OF n(1), of "esz k"] by linarith+
  from test_start[OF s, of k] obtain a b where a: "expect_inode 3 (inode_init (free_block_init s)) = Some a"
    "list_of k 3 (node_init k 3 2 a) = (new_size k, b)" "alone k (new_size k) b" "free_inodes b = {4..<1024}" by blast
  from grow_ok[OF a(3,4) n1(2) m refl] obtain c where c: "fill k n1 rnd b = Some c" "holds k n1 rnd c"
    "node_num c (inode_at c 3) (Inl 0) = 4" "free_inodes c = {5..<1024}" by (auto simp: n(3) new_keys_lv1)
  from peek_ok[OF c(2,4)] obtain d e where e: "expect_inode (int 5) c = Some d" "free_inode_push (of_nat 5) d = Some e"
    "holds k n1 rnd e" "free_inodes e = {5..<1024}" "\<forall>m<4096. inode_at e m = inode_at c m" by auto
  have p0: "unat (pnum_at (inode_at e 3) 0) = 4" using c(3) e(5) by (simp add: page_num_def)
  from load_ok[OF e(3), of 3 uninit] obtain f where f: "inode_load 3 uninit e = (inode_at e 3, f)" "holds k n1 rnd f"
    "free_inodes f = {5..<1024}" "\<forall>m. inode_at f m = inode_at e m" using e(4) by auto
  have p1: "unat (pnum_at (inode_at f 3) 0) = 4" using p0 f(4) by simp
  note pg = first_page[OF f(2) n1(1) p1]
  from load_ok[OF f(2), of 4 "inode_at e 3"] obtain g where g: "inode_load 4 (inode_at e 3) f = (inode_at f 4, g)" "holds k n1 rnd g"
    "free_inodes g = {5..<1024}" using f(3) by auto
  from read_back_ok[OF g(2) m(1)] obtain h where h: "read_back k n1 rnd g = Some h" "holds k n1 rnd h" "free_inodes h = {5..<1024}"
    using g(3) by auto
  from grow_ok[OF holds_alone[OF h(2)] h(3) n(1,2) r refl] obtain i where i: "fill k n2 rnd h = Some i" "holds k n2 rnd i"
    "map (node_num i (inode_at i 3)) [Inl 1, Inl 2, Inl 3] = [5..<8]" "free_inodes i = {8..<1024}" by (auto simp: n(3,4) new_keys_lv1 del: upt_rec_numeral)
  have "[5..<8] = [5, 6, 7 :: nat]" by (simp add: upt_rec)
  with i(3) have nn: "node_num i (inode_at i 3) (Inl 1) = 5" "node_num i (inode_at i 3) (Inl 2) = 6" "node_num i (inode_at i 3) (Inl 3) = 7"
    by (simp_all del: node_num_simps)
  have "{8..<1024} \<union> nodes_of k i 3 = {4..<1024}" using i(2,4) by (simp add: holds_def alone_def)
  moreover have "4 \<in> {4..<1024::nat}" "4 \<notin> {8..<1024::nat}" by simp_all
  ultimately have "4 \<in> nodes_of k i 3" by blast
  then obtain x where x: "x \<in> node_keys 4" "node_num i (inode_at i 3) x = 4" using alone_pages[OF holds_alone[OF i(2)]] n(4) by (auto simp: nodes_of_def)
  have "x = Inl 0"
  proof (cases x)
    case (Inl p)
    moreover have "p \<noteq> 1" "p \<noteq> 2" "p \<noteq> 3" using x(2) nn Inl by (metis numeral_eq_iff semiring_norm(87-89))+
    ultimately show ?thesis using x(1) by auto
  qed (use x(1) in \<open>simp add: ndouble_def\<close>)
  with x(2) nn have pn: "unat (pnum_at (inode_at i 3) 0) = 4" "unat (pnum_at (inode_at i 3) 1) = 5" "unat (pnum_at (inode_at i 3) 2) = 6"
    "unat (pnum_at (inode_at i 3) 3) = 7" by (simp_all add: page_num_def)
  from peek_ok[OF i(2,4)] obtain j l where j: "expect_inode (int 8) i = Some j" "free_inode_push (of_nat 8) j = Some l"
    "holds k n2 rnd l" "\<forall>m<4096. inode_at l m = inode_at i m" by auto
  from load_ok[OF j(3), of 3 "inode_at f 4"] obtain w where w: "inode_load 3 (inode_at f 4) l = (inode_at l 3, w)" "holds k n2 rnd w" by auto
  from read_back_ok[OF w(2) n(2)] obtain q where q: "read_back k n2 rnd w = Some q" by blast
  have l3: "inode_at l 3 = inode_at i 3" using j(4) by simp
  have u: "uint (pnum_at (inode_at e 3) 0) = 4" "uint (pnum_at (inode_at i 3) 0) = 4" "uint (pnum_at (inode_at i 3) 1) = 5"
    "uint (pnum_at (inode_at i 3) 2) = 6" "uint (pnum_at (inode_at i 3) 3) = 7"
    using uint_unat_eq[OF p0] uint_unat_eq[OF pn(1)] uint_unat_eq[OF pn(2)] uint_unat_eq[OF pn(3)] uint_unat_eq[OF pn(4)] by simp_all
  show ?thesis
    using a(1,2) c(1) e(1,2) f(1) g(1) h(1) i(1) j(1,2) w(1) q pg by (simp add: test_list_lv1exp_def l3 u[unfolded One_nat_def])
qed

lemma grow_read:
  assumes s: "alone k m s" and n: "m \<le> n" "n \<le> max_entries k" and r: "esz k * n \<le> length rnd"
  shows "\<exists>t. fill k n rnd s = Some t \<and> holds k n rnd t \<and> ERRNO t = ERRNO s"
proof -
  have "\<not> leaks (npages k n) (npages k m)" using npages_mono[OF n(1), of k] by (simp add: leaks_def)
  from fill_ok[OF s order_trans[OF n] n(2) r this] show ?thesis by blast
qed

lemma no_error_ok: "holds k n rnd s \<Longrightarrow> (k = Fnode \<Longrightarrow> ERRNO s = 0) \<Longrightarrow> \<exists>t. expect_no_error k s = Some t \<and> holds k n rnd t"
proof -
  assume s: "holds k n rnd s" "k = Fnode \<Longrightarrow> ERRNO s = 0"
  show ?thesis
  proof (cases k)
    case Fnode
    then have "errno_pop s = (0, s)" using s(2) by (simp add: errno_pop_def)
    then show ?thesis using s(1) Fnode by (simp add: expect_no_error_def)
  qed (use s(1) in \<open>simp add: expect_no_error_def\<close>)
qed

lemma lv2_passes:
  assumes s: "host_ok s" "arrays_ok s" "k = Fnode \<Longrightarrow> ERRNO s = 0" and n: "n1 \<le> n2" "n2 \<le> 2085" "npages k n1 = 5" and r: "esz k * 2085 \<le> length rnd"
    and n1: "new_size k \<le> n1"
  shows "test_list_lv2exp k n1 n2 rnd s \<noteq> None"
proof -
  have m: "2085 \<le> max_entries k" by (cases k) simp_all
  then have l: "n1 \<le> max_entries k" "n2 \<le> max_entries k" using n(1,2) by linarith+
  have b: "esz k * n1 \<le> length rnd" "esz k * n2 \<le> length rnd"
    using r mult_le_mono2[OF n(2), of "esz k"] mult_le_mono2[OF n(1), of "esz k"] by linarith+
  from test_start[OF s(1,2), of k] obtain a c where a: "expect_inode 3 (inode_init (free_block_init s)) = Some a"
    "list_of k 3 (node_init k 3 2 a) = (new_size k, c)" "alone k (new_size k) c" "free_inodes c = {4..<1024}" "ERRNO c = ERRNO s" by blast
  from grow_ok[OF a(3,4) n1 l(1) b(1) refl] obtain d where d: "fill k n1 rnd c = Some d" "holds k n1 rnd d" "ERRNO d = ERRNO s"
    "free_inodes d = {10..<1024}" using a(5) by (auto simp: n(3) new_keys_lv2)
  from peek_ok[OF d(2,4)] obtain e f where e: "expect_inode (int 10) d = Some e" "free_inode_push (of_nat 10) e = Some f"
    "holds k n1 rnd f" "ERRNO f = ERRNO s" using d(3) by auto
  from read_back_ok[OF e(3) l(1)] obtain g where g: "read_back k n1 rnd f = Some g" "holds k n1 rnd g" "ERRNO g = ERRNO s" using e(4) by auto
  from grow_read[OF holds_alone[OF g(2)] n(1) l(2) b(2)] obtain h where h: "fill k n2 rnd g = Some h" "holds k n2 rnd h" "ERRNO h = ERRNO s" using g(3) by auto
  from read_back_ok[OF h(2) l(2)] obtain i where i: "read_back k n2 rnd h = Some i" "holds k n2 rnd i" "ERRNO i = ERRNO s" using h(3) by auto
  from grow_read[OF holds_alone[OF i(2)] n(2) m r] obtain j where j: "fill k 2085 rnd i = Some j" "holds k 2085 rnd j" "ERRNO j = ERRNO s" using i(3) by auto
  from no_error_ok[OF j(2)] j(3) s(3) obtain w where w: "expect_no_error k j = Some w" "holds k 2085 rnd w" by auto
  from read_back_ok[OF w(2) m] obtain q where "read_back k 2085 rnd w = Some q" by blast
  then show ?thesis using a(1,2) d(1) e(1,2) g(1) h(1) i(1) j(1) w(1) by (simp add: test_list_lv2exp_def)
qed

section \<open>Properties\<close>

text \<open>
  C30. On any device, and whatever bytes the buffers hold, the tests of the listings pass: those that fill a listing within
  the inode; those that grow it into the single and the double pages, where the new pages have the inode numbers the
  tests expect, up to 2085 entries; and those that grow it to over a hundred pages and shrink it again ten times. All
  read back the bytes they wrote. One test also asserts that no error is pending, which needs that none was before.
\<close>

theorem unit_tests_listings:
  assumes "host_ok s" "arrays_ok s" "4096 \<le> length rndbuf" "\<And>i. 65536 \<le> length (rnds i)"
  shows "(\<exists>s'. test_dnode_list_adhoc rndbuf s = Some s') \<and> (\<exists>s'. test_fnode_list_adhoc rndbuf s = Some s')
     \<and> (\<exists>s'. test_dnode_list_lv1exp rndbuf s = Some s') \<and> (\<exists>s'. test_fnode_list_lv1exp rndbuf s = Some s')
     \<and> (\<exists>s'. test_dnode_list_lv2exp (rnds 0) s = Some s') \<and> (ERRNO s = 0 \<longrightarrow> (\<exists>s'. test_fnode_list_lv2exp (rnds 0) s = Some s'))
     \<and> (\<exists>s'. test_dnode_list_scale_and_srink rnds s = Some s') \<and> (\<exists>s'. test_fnode_list_scale_and_srink rnds s = Some s')"
proof -
  have big: "16000 \<le> length (rnds i)" "20000 \<le> length (rnds i)" "16 * 2085 \<le> length (rnds i)" for i using assms(4)[of i] by simp_all
  have "test_list_adhoc Dnode 2 6 rndbuf s \<noteq> None" using adhoc_passes[OF assms(1,2), of Dnode 6 rndbuf] assms(3) by (simp add: npages_def)
  moreover have "test_list_adhoc Fnode 0 24 rndbuf s \<noteq> None"
    using adhoc_passes[OF assms(1,2), of Fnode 24 rndbuf] assms(3) by (simp add: npages_def)
  moreover have "test_list_lv1exp Dnode 7 38 rndbuf s \<noteq> None" "test_list_lv1exp Fnode 25 151 rndbuf s \<noteq> None"
    by (rule lv1_passes[OF assms(1,2)]; use assms(3) in \<open>simp add: npages_def\<close>)+
  moreover have "test_list_lv2exp Dnode 39 47 (rnds 0) s \<noteq> None"
    by (rule lv2_passes[OF assms(1,2)]) (use big(3)[of 0] in \<open>simp_all add: npages_def\<close>)
  moreover have "test_list_lv2exp Fnode 153 185 (rnds 0) s \<noteq> None" if "ERRNO s = 0"
    by (rule lv2_passes[OF assms(1,2)]) (use big(3)[of 0] that in \<open>simp_all add: npages_def\<close>)
  moreover have "test_list_scale Dnode 1000 10 rnds s \<noteq> None" "test_list_scale Fnode 5000 50 rnds s \<noteq> None"
    by (rule scale_passes[OF assms(1,2)]; use big in \<open>simp add: npages_def\<close>)+
  ultimately show ?thesis
    by (simp add: test_dnode_list_adhoc_def test_fnode_list_adhoc_def test_dnode_list_scale_and_srink_def
        test_fnode_list_scale_and_srink_def test_dnode_list_lv1exp_def test_fnode_list_lv1exp_def test_dnode_list_lv2exp_def
        test_fnode_list_lv2exp_def)
qed

theorem unit_tests_listings_witness:
  "\<exists>s'. test_fnode_list_lv2exp (replicate 65536 7) (blank_fs\<lparr>ERRNO := 0\<rparr>) = Some s'"
proof -
  have "host_ok (blank_fs\<lparr>ERRNO := 0\<rparr>)" "arrays_ok (blank_fs\<lparr>ERRNO := 0\<rparr>)"
    using blank_fs_ok(1,2) by (simp_all add: host_ok_def arrays_ok_def)
  then show ?thesis using unit_tests_listings[of "blank_fs\<lparr>ERRNO := 0\<rparr>" "replicate 4096 7" "\<lambda>i. replicate 65536 7"] by simp
qed

end
