(* ===== verification/FS_Log.thy ===== *)
theory FS_Log
  imports FS_Prelude
begin

text \<open>
  The log (\<open>log.c\<close>): every call appends text to the log file, printed by \<open>vfprintf\<close>. The log is never read back by
  the program, so the file system's model leaves the calls out; here are the reports on the structures FUSE passes,
  with the conversions of \<open>printf\<close> they use, and what a reader of the log finds in them.
\<close>

section \<open>Printing\<close>

datatype log_arg = LInt int | LStr string

definition NL :: char where "NL = CHR 0x0A"

fun digit_char :: "nat \<Rightarrow> char" where
  "digit_char d = (if d < 10 then char_of (48 + d) else char_of (87 + d))"

function num_text :: "nat \<Rightarrow> nat \<Rightarrow> string" where
  "num_text b n = (if b < 2 \<or> n < b then [digit_char n] else num_text b (n div b) @ [digit_char (n mod b)])"
  by pat_completeness auto
termination by (relation "measure snd") auto

declare num_text.simps [simp del]

text \<open>
  A conversion: zero padding, field width, bits of the argument, letter. A variadic argument is read at the width of the
  conversion, 32 bits, or 64 with an \<open>l\<close> (the LP64 convention): a pointer printed by \<open>%08x\<close> loses its upper half.
\<close>

definition arg_word :: "nat \<Rightarrow> int \<Rightarrow> int" where
  "arg_word n v = v mod 2 ^ n"

definition arg_signed :: "nat \<Rightarrow> int \<Rightarrow> int" where
  "arg_signed n v = (v + 2 ^ (n - 1)) mod 2 ^ n - 2 ^ (n - 1)"

definition pad :: "bool \<Rightarrow> nat \<Rightarrow> string \<Rightarrow> string" where
  "pad z w s = replicate (w - length s) (if z then CHR ''0'' else CHR '' '') @ s"

fun conversion :: "bool \<Rightarrow> nat \<Rightarrow> nat \<Rightarrow> char \<Rightarrow> log_arg \<Rightarrow> string option" where
  "conversion z w n k (LStr s) = (if k = CHR ''s'' then Some (pad False w s) else None)"
| "conversion z w n k (LInt v) =
     (if k = CHR ''x'' then Some (pad z w (num_text 16 (nat (arg_word n v))))
      else if k = CHR ''o'' then Some (pad z w (num_text 8 (nat (arg_word n v))))
      else if k = CHR ''d'' \<and> w = 0
      then let i = arg_signed n v in Some (if i < 0 then CHR ''-'' # num_text 10 (nat (- i)) else num_text 10 (nat i))
      else None)"

definition is_digit :: "char \<Rightarrow> bool" where
  "is_digit c \<longleftrightarrow> 48 \<le> (of_char c :: nat) \<and> (of_char c :: nat) \<le> 57"

definition digit_val :: "char \<Rightarrow> nat" where
  "digit_val c = (if (of_char c :: nat) < 97 then of_char c - 48 else of_char c - 87)"

definition read_digits :: "nat \<Rightarrow> string \<Rightarrow> nat" where
  "read_digits b s = foldl (\<lambda>n c. b * n + digit_val c) 0 s"

text \<open>The formats of the log: text, and conversions with optional width and \<open>l\<close>; anything else is undefined.\<close>

function printf :: "string \<Rightarrow> log_arg list \<Rightarrow> string option" where
  "printf [] args = Some []"
| "printf (c # f) args =
     (if c = CHR ''%''
      then let ds = takeWhile is_digit f; f1 = dropWhile is_digit f;
               ls = takeWhile (\<lambda>c. c = CHR ''l'') f1; f2 = dropWhile (\<lambda>c. c = CHR ''l'') f1
           in (case f2 of
                 [] \<Rightarrow> None
               | k # f3 \<Rightarrow>
                   (case args of
                      [] \<Rightarrow> None
                    | a # as \<Rightarrow> do {
                        t \<leftarrow> conversion (take 1 ds = ''0'') (read_digits 10 ds) (if ls = [] then 32 else 64) k a;
                        r \<leftarrow> printf f3 as;
                        Some (t @ r) }))
      else do { r \<leftarrow> printf f args; Some (c # r) })"
  by pat_completeness auto
termination
proof (relation "measure (\<lambda>(f, _). length f)")
  fix c :: char and f k f3 ds f1 ls f2 and args as :: "log_arg list" and a :: log_arg and t :: string
  assume "f1 = dropWhile is_digit f" "f2 = dropWhile (\<lambda>c. c = CHR ''l'') f1" "f2 = k # f3"
  then have "length (k # f3) \<le> length f"
    using length_dropWhile_le[of "\<lambda>c. c = CHR ''l''" f1] length_dropWhile_le[of is_digit f] by simp
  then show "((f3, as), (c # f, args)) \<in> measure (\<lambda>(f, _). length f)" by simp
qed simp_all

section \<open>The reports\<close>

text \<open>The log file is its text. \<open>log_open\<close>: \<open>fopen\<close> truncates it; a NULL result ends the process.\<close>

definition log_open :: "bool \<Rightarrow> string option" where
  "log_open opened = (if opened then Some [] else None)"

definition log_msg :: "string \<Rightarrow> log_arg list \<Rightarrow> string \<Rightarrow> string option" where
  "log_msg format args lg = do { t \<leftarrow> printf format args; Some (lg @ t) }"

text \<open>The macro \<open>log_struct(st, field, format, typecast)\<close>.\<close>

definition log_struct :: "string \<Rightarrow> string \<Rightarrow> log_arg \<Rightarrow> string \<Rightarrow> string option" where
  "log_struct field format v lg = log_msg (''    '' @ field @ '' = '' @ format @ [NL]) [v] lg"

text \<open>A report is a header line and one line per field.\<close>

fun log_fields :: "(string \<times> string \<times> log_arg) list \<Rightarrow> string \<Rightarrow> string option" where
  "log_fields [] lg = Some lg"
| "log_fields ((field, format, v) # fs) lg = do { lg \<leftarrow> log_struct field format v lg; log_fields fs lg }"

record fuse_context =
  fc_fuse :: int  fc_uid :: int  fc_gid :: int  fc_pid :: int  fc_private_data :: int
  fc_logfile :: int  fc_diskfile :: string  fc_umask :: int

definition log_fuse_context :: "fuse_context \<Rightarrow> string \<Rightarrow> string option" where
  "log_fuse_context c lg = do {
     lg \<leftarrow> log_msg (''    context:'' @ [NL]) [] lg;
     log_fields [(''fuse'', ''%08x'', LInt (fc_fuse c)), (''uid'', ''%d'', LInt (fc_uid c)),
      (''gid'', ''%d'', LInt (fc_gid c)), (''pid'', ''%d'', LInt (fc_pid c)),
      (''private_data'', ''%08x'', LInt (fc_private_data c)),
      (''logfile'', ''%08x'', LInt (fc_logfile c)), (''diskfile'', ''%s'', LStr (fc_diskfile c)),
      (''umask'', ''%05o'', LInt (fc_umask c))] lg }"

record fuse_conn_info =
  co_proto_major :: int  co_proto_minor :: int  co_async_read :: int  co_max_write :: int
  co_max_readahead :: int  co_capable :: int  co_want :: int

definition log_conn :: "fuse_conn_info \<Rightarrow> string \<Rightarrow> string option" where
  "log_conn c lg = do {
     lg \<leftarrow> log_msg (''    conn:'' @ [NL]) [] lg;
     log_fields [(''proto_major'', ''%d'', LInt (co_proto_major c)), (''proto_minor'', ''%d'', LInt (co_proto_minor c)),
      (''async_read'', ''%d'', LInt (co_async_read c)), (''max_write'', ''%d'', LInt (co_max_write c)),
      (''max_readahead'', ''%d'', LInt (co_max_readahead c)), (''capable'', ''%08x'', LInt (co_capable c)),
      (''want'', ''%08x'', LInt (co_want c))] lg }"

record fuse_file_info =
  fi_flags :: int  fi_fh_old :: int  fi_writepage :: int  fi_direct_io :: int  fi_keep_cache :: int
  fi_fh :: int  fi_lock_owner :: int

definition log_fi :: "fuse_file_info \<Rightarrow> string \<Rightarrow> string option" where
  "log_fi fi lg = do {
     lg \<leftarrow> log_msg (''    fi:'' @ [NL]) [] lg;
     log_fields [(''flags'', ''0x%08x'', LInt (fi_flags fi)), (''fh_old'', ''0x%08lx'', LInt (fi_fh_old fi)),
      (''writepage'', ''%d'', LInt (fi_writepage fi)), (''direct_io'', ''%d'', LInt (fi_direct_io fi)),
      (''keep_cache'', ''%d'', LInt (fi_keep_cache fi)), (''fh'', ''0x%016llx'', LInt (fi_fh fi)),
      (''lock_owner'', ''0x%016llx'', LInt (fi_lock_owner fi))] lg }"

record stat_info =
  si_dev :: int  si_ino :: int  si_mode :: int  si_nlink :: int  si_uid :: int  si_gid :: int
  si_rdev :: int  si_size :: int  si_blksize :: int  si_blocks :: int  si_atime :: int
  si_mtime :: int  si_ctime :: int

definition log_stat :: "stat_info \<Rightarrow> string \<Rightarrow> string option" where
  "log_stat si lg = do {
     lg \<leftarrow> log_msg (''    si:'' @ [NL]) [] lg;
     log_fields [(''st_dev'', ''%lld'', LInt (si_dev si)), (''st_ino'', ''%lld'', LInt (si_ino si)),
      (''st_mode'', ''0%o'', LInt (si_mode si)), (''st_nlink'', ''%d'', LInt (si_nlink si)),
      (''st_uid'', ''%d'', LInt (si_uid si)), (''st_gid'', ''%d'', LInt (si_gid si)),
      (''st_rdev'', ''%lld'', LInt (si_rdev si)), (''st_size'', ''%lld'', LInt (si_size si)),
      (''st_blksize'', ''%ld'', LInt (si_blksize si)), (''st_blocks'', ''%lld'', LInt (si_blocks si)),
      (''st_atime'', ''0x%08lx'', LInt (si_atime si)), (''st_mtime'', ''0x%08lx'', LInt (si_mtime si)),
      (''st_ctime'', ''0x%08lx'', LInt (si_ctime si))] lg }"

record statvfs_info =
  sv_bsize :: int  sv_frsize :: int  sv_blocks :: int  sv_bfree :: int  sv_bavail :: int
  sv_files :: int  sv_ffree :: int  sv_favail :: int  sv_fsid :: int  sv_flag :: int  sv_namemax :: int

definition log_statvfs :: "statvfs_info \<Rightarrow> string \<Rightarrow> string option" where
  "log_statvfs sv lg = do {
     lg \<leftarrow> log_msg (''    sv:'' @ [NL]) [] lg;
     log_fields [(''f_bsize'', ''%ld'', LInt (sv_bsize sv)), (''f_frsize'', ''%ld'', LInt (sv_frsize sv)),
      (''f_blocks'', ''%lld'', LInt (sv_blocks sv)), (''f_bfree'', ''%lld'', LInt (sv_bfree sv)),
      (''f_bavail'', ''%lld'', LInt (sv_bavail sv)), (''f_files'', ''%lld'', LInt (sv_files sv)),
      (''f_ffree'', ''%lld'', LInt (sv_ffree sv)), (''f_favail'', ''%lld'', LInt (sv_favail sv)),
      (''f_fsid'', ''%ld'', LInt (sv_fsid sv)), (''f_flag'', ''0x%08lx'', LInt (sv_flag sv)),
      (''f_namemax'', ''%ld'', LInt (sv_namemax sv))] lg }"

record utimbuf_info =
  ut_actime :: int  ut_modtime :: int

definition log_utime :: "utimbuf_info \<Rightarrow> string \<Rightarrow> string option" where
  "log_utime buf lg = do {
     lg \<leftarrow> log_msg (''    buf:'' @ [NL]) [] lg;
     log_fields [(''actime'', ''0x%08lx'', LInt (ut_actime buf)), (''modtime'', ''0x%08lx'', LInt (ut_modtime buf))] lg }"

section \<open>Reading the log\<close>

text \<open>A reader looks for the line of a field and reads the number behind the equals sign.\<close>

fun split_lines :: "string \<Rightarrow> string list" where
  "split_lines [] = []"
| "split_lines (c # t) =
     (if c = NL then [] # split_lines t
      else case split_lines t of [] \<Rightarrow> [[c]] | l # ls \<Rightarrow> (c # l) # ls)"

definition field_text :: "string \<Rightarrow> string \<Rightarrow> string option" where
  "field_text label t =
     (let p = ''    '' @ label @ '' = ''
      in map_option (drop (length p)) (List.find (\<lambda>l. take (length p) l = p) (split_lines t)))"

definition read_value :: "nat \<Rightarrow> string \<Rightarrow> int" where
  "read_value b s =
     (if take 1 s = ''-'' then - int (read_digits b (drop 1 s))
      else if take 2 s = ''0x'' then int (read_digits b (drop 2 s))
      else int (read_digits b s))"

definition shows_values :: "string \<Rightarrow> (string \<times> nat \<times> int) list \<Rightarrow> bool" where
  "shows_values t vs \<longleftrightarrow> list_all (\<lambda>(label, b, v). map_option (read_value b) (field_text label t) = Some v) vs"

text \<open>Numbers as text and back.\<close>

lemma digit_cases: "d < 16 \<Longrightarrow> d \<in> {0, 1, 2, 3, 4, 5, 6, 7, 8, 9, 10, 11, 12, 13, 14, 15 :: nat}"
  by (simp only: insert_iff empty_iff) presburger

lemma digit_val_char: "d < 16 \<Longrightarrow> digit_val (digit_char d) = d"
  by (auto simp: digit_val_def)

lemma digit_char_safe: "d < 16 \<Longrightarrow> digit_char d \<noteq> NL \<and> digit_char d \<noteq> CHR ''-'' \<and> digit_char d \<noteq> CHR ''x''"
  by (drule digit_cases, simp only: insert_iff empty_iff, elim disjE) (simp_all add: NL_def char_of_def)

definition plain :: "string \<Rightarrow> bool" where
  "plain s \<longleftrightarrow> NL \<notin> set s \<and> CHR ''-'' \<notin> set s \<and> CHR ''x'' \<notin> set s"

lemma num_text_plain: "2 \<le> b \<Longrightarrow> b \<le> 16 \<Longrightarrow> plain (num_text b n)"
proof (induction b n rule: num_text.induct)
  case (1 b n)
  have d: "m mod b < 16" for m using 1(2,3) mod_less_divisor[of b m] by linarith
  show ?case
  proof (cases "n < b")
    case True
    then have "n < 16" using 1(3) by simp
    then show ?thesis using True digit_char_safe[of n] by (simp add: num_text.simps[of b n] plain_def eq_commute[of _ "digit_char _"] del: digit_char.simps)
  next
    case False
    then show ?thesis using 1 digit_char_safe[OF d[of n]]
      by (simp add: num_text.simps[of b n] plain_def eq_commute[of _ "digit_char _"] del: digit_char.simps)
  qed
qed

lemma read_num_text: "2 \<le> b \<Longrightarrow> b \<le> 16 \<Longrightarrow> read_digits b (num_text b n) = n"
proof (induction b n rule: num_text.induct)
  case (1 b n)
  have d: "n mod b < 16" using 1(2,3) mod_less_divisor[of b n] by linarith
  show ?case
  proof (cases "n < b")
    case True
    then show ?thesis using 1(3) digit_val_char[of n] by (simp add: num_text.simps[of b n] read_digits_def del: digit_char.simps)
  next
    case False
    then have "read_digits b (num_text b (n div b)) = n div b" using 1 by simp
    then show ?thesis using 1(2) False digit_val_char[OF d]
      by (simp add: num_text.simps[of b n] read_digits_def mult.commute del: digit_char.simps)
  qed
qed

lemma read_pad: "read_digits b (pad True w s) = read_digits b s"
proof -
  have "foldl (\<lambda>n c. b * n + digit_val c) 0 (replicate m CHR ''0'') = 0" for m
    by (induction m) (simp_all add: digit_val_def)
  then show ?thesis by (simp add: pad_def read_digits_def)
qed

lemma pad_plain: "plain s \<Longrightarrow> plain (pad True w s)"
  by (auto simp: plain_def pad_def NL_def)

lemma read_plain: "plain s \<Longrightarrow> read_value b s = int (read_digits b s)"
proof -
  assume s: "plain s"
  have "take 1 s \<noteq> ''-''" using s by (cases s) (auto simp: plain_def)
  moreover have "take 2 s \<noteq> ''0x''"
    using s set_take_subset[of 2 s] by (auto simp: plain_def)
  ultimately show ?thesis by (simp add: read_value_def)
qed

lemma read_hex_prefix: "read_value 16 (CHR ''0'' # CHR ''x'' # s) = int (read_digits 16 s)"
  by (simp add: read_value_def)

text \<open>What every conversion of the log prints.\<close>

definition dec_text :: "nat \<Rightarrow> int \<Rightarrow> string" where
  "dec_text n v = (let i = arg_signed n v in if i < 0 then CHR ''-'' # num_text 10 (nat (- i)) else num_text 10 (nat i))"

definition unsigned_text :: "nat \<Rightarrow> nat \<Rightarrow> nat \<Rightarrow> int \<Rightarrow> string" where
  "unsigned_text b w n v = pad True w (num_text b (nat (arg_word n v)))"

lemma arg_word_pos: "0 \<le> arg_word n v" "int (nat (arg_word n v)) = arg_word n v"
  by (simp_all add: arg_word_def)

lemma read_unsigned:
  "read_value 16 (unsigned_text 16 w n v) = arg_word n v" "read_value 8 (unsigned_text 8 w n v) = arg_word n v"
  "read_value 16 (CHR ''0'' # CHR ''x'' # unsigned_text 16 w n v) = arg_word n v"
  "read_value 8 (CHR ''0'' # unsigned_text 8 w n v) = arg_word n v"
proof -
  have o: "plain (unsigned_text 8 w n v)" by (simp add: unsigned_text_def pad_plain num_text_plain)
  then have "plain (CHR ''0'' # unsigned_text 8 w n v)" by (auto simp: plain_def NL_def)
  moreover have "read_digits 8 (CHR ''0'' # s) = read_digits 8 s" for s by (simp add: read_digits_def digit_val_def)
  ultimately show "read_value 8 (CHR ''0'' # unsigned_text 8 w n v) = arg_word n v"
    by (simp add: read_plain) (simp add: unsigned_text_def read_pad read_num_text arg_word_pos)
qed (simp_all add: read_hex_prefix read_plain pad_plain num_text_plain unsigned_text_def read_pad read_num_text arg_word_pos)

lemma read_dec: "read_value 10 (dec_text n v) = arg_signed n v"
  by (simp add: dec_text_def Let_def read_plain num_text_plain read_num_text) (simp add: read_value_def read_num_text)

lemma no_NL: "NL \<notin> set (unsigned_text 16 w n v)" "NL \<notin> set (unsigned_text 8 w n v)" "NL \<notin> set (dec_text n v)"
proof -
  have p: "NL \<notin> set s" if "plain s" for s using that by (simp add: plain_def)
  show "NL \<notin> set (unsigned_text 16 w n v)" "NL \<notin> set (unsigned_text 8 w n v)"
    unfolding unsigned_text_def by (intro p pad_plain num_text_plain; simp)+
  have "NL \<notin> set (num_text 10 m)" for m by (intro p num_text_plain) simp_all
  then show "NL \<notin> set (dec_text n v)" by (simp add: dec_text_def Let_def) (simp add: NL_def)
qed

text \<open>The line of a field.\<close>

definition field_line :: "string \<Rightarrow> string \<Rightarrow> string" where
  "field_line label s = ''    '' @ label @ '' = '' @ s @ [NL]"

lemma printf_text: "CHR ''%'' \<notin> set p \<Longrightarrow> printf (p @ f) args = map_option ((@) p) (printf f args)"
proof (induction p)
  case Nil
  show ?case by (cases "printf f args") simp_all
next
  case (Cons c p)
  then have "c \<noteq> CHR ''%''" by auto
  then show ?case using Cons by (cases "printf f args") simp_all
qed

lemma field_step:
  assumes "CHR ''%'' \<notin> set label" "printf (format @ [NL]) [a] = Some (s @ [NL])"
  shows "log_fields ((label, format, a) # fs) lg = log_fields fs (lg @ field_line label s)"
proof -
  have "printf ((''    '' @ label @ '' = '') @ format @ [NL]) [a] = Some ((''    '' @ label @ '' = '') @ s @ [NL])"
    using assms by (subst printf_text) simp_all
  then show ?thesis by (simp add: log_struct_def log_msg_def field_line_def)
qed

lemma print_formats:
  "printf (''%d'' @ [NL]) [LInt v] = Some (dec_text 32 v @ [NL])"
  "printf (''%ld'' @ [NL]) [LInt v] = Some (dec_text 64 v @ [NL])"
  "printf (''%lld'' @ [NL]) [LInt v] = Some (dec_text 64 v @ [NL])"
  "printf (''%08x'' @ [NL]) [LInt v] = Some (unsigned_text 16 8 32 v @ [NL])"
  "printf (''0x%08x'' @ [NL]) [LInt v] = Some ((''0x'' @ unsigned_text 16 8 32 v) @ [NL])"
  "printf (''0x%08lx'' @ [NL]) [LInt v] = Some ((''0x'' @ unsigned_text 16 8 64 v) @ [NL])"
  "printf (''0x%016llx'' @ [NL]) [LInt v] = Some ((''0x'' @ unsigned_text 16 16 64 v) @ [NL])"
  "printf (''0%o'' @ [NL]) [LInt v] = Some ((''0'' @ unsigned_text 8 0 32 v) @ [NL])"
  "printf (''%05o'' @ [NL]) [LInt v] = Some (unsigned_text 8 5 32 v @ [NL])"
  "printf (''%s'' @ [NL]) [LStr s] = Some (s @ [NL])"
  by (simp_all add: dec_text_def unsigned_text_def pad_def is_digit_def read_digits_def digit_val_def NL_def Let_def)

lemmas field_steps = print_formats[THEN field_step[rotated]]

lemma split_line: "NL \<notin> set l \<Longrightarrow> split_lines (l @ NL # t) = l # split_lines t"
  by (induction l) auto

lemma field_text_line:
  assumes "NL \<notin> set l'" "NL \<notin> set s" "CHR '' '' \<notin> set l" "CHR '' '' \<notin> set l'"
  shows "field_text l (field_line l' s @ t) = (if l = l' then Some s else field_text l t)"
proof -
  let ?p = "''    '' @ l @ '' = ''" and ?q = "''    '' @ l' @ '' = '' @ s"
  have "NL \<notin> set ?q" using assms(1,2) by (simp add: NL_def)
  from split_line[OF this, of t] have sp: "split_lines (field_line l' s @ t) = ?q # split_lines t" by (simp add: field_line_def)
  have "take (length ?p) ?q = ?p \<longleftrightarrow> l = l'"
  proof
    assume "take (length ?p) ?q = ?p"
    then obtain r where "?q = ?p @ r" by (metis append_take_drop_id)
    then have e: "l' @ CHR '' '' # ''= '' @ s = l @ CHR '' '' # ''= '' @ r" by simp
    have "takeWhile (\<lambda>c. c \<noteq> CHR '' '') (x @ CHR '' '' # y) = x" if "CHR '' '' \<notin> set x" for x y using that by (induction x) auto
    then show "l = l'" using e assms(3,4) by metis
  qed simp
  then show ?thesis by (auto simp: field_text_def sp)
qed

definition header_line :: "string \<Rightarrow> string" where
  "header_line h = ''    '' @ h @ '':'' @ [NL]"

lemma field_text_header:
  assumes "NL \<notin> set h" "CHR ''='' \<notin> set h"
  shows "field_text l (header_line h @ t) = field_text l t"
proof -
  let ?p = "''    '' @ l @ '' = ''" and ?h = "''    '' @ h @ '':''"
  have "take (length ?p) ?h \<noteq> ?p"
  proof
    assume e: "take (length ?p) ?h = ?p"
    have "CHR ''='' \<in> set ?p" by simp
    then have "CHR ''='' \<in> set ?h" using e by (metis in_set_takeD)
    then show False using assms(2) by simp
  qed
  moreover have "NL \<notin> set ?h" using assms(1) by (simp add: NL_def)
  ultimately show ?thesis using split_line[of ?h t] by (simp add: field_text_def header_line_def)
qed

lemma header_step:
  "log_msg (''    context:'' @ [NL]) [] lg = Some (lg @ header_line ''context'')"
  "log_msg (''    conn:'' @ [NL]) [] lg = Some (lg @ header_line ''conn'')"
  "log_msg (''    fi:'' @ [NL]) [] lg = Some (lg @ header_line ''fi'')"
  "log_msg (''    si:'' @ [NL]) [] lg = Some (lg @ header_line ''si'')"
  "log_msg (''    sv:'' @ [NL]) [] lg = Some (lg @ header_line ''sv'')"
  "log_msg (''    buf:'' @ [NL]) [] lg = Some (lg @ header_line ''buf'')"
  by (simp_all add: log_msg_def header_line_def NL_def)

lemmas report_defs = log_fuse_context_def log_conn_def log_fi_def log_stat_def log_statvfs_def log_utime_def

lemma NL_letters: "NL \<noteq> CHR ''0''" "NL \<noteq> CHR ''x''"
  by (simp_all add: NL_def)

text \<open>Labels and headers are words; the steps of the reader for them.\<close>

definition is_word :: "string \<Rightarrow> bool" where
  "is_word l \<longleftrightarrow> list_all (\<lambda>c. c \<noteq> CHR 0x0A \<and> c \<noteq> CHR '' '' \<and> c \<noteq> CHR ''='') l"

lemma read_line:
  "is_word l \<Longrightarrow> is_word l' \<Longrightarrow> NL \<notin> set s \<Longrightarrow> field_text l (field_line l' s @ t) = (if l = l' then Some s else field_text l t)"
  by (rule field_text_line) (auto simp: is_word_def NL_def list_all_iff)

lemma read_last_line:
  "is_word l \<Longrightarrow> is_word l' \<Longrightarrow> NL \<notin> set s \<Longrightarrow> field_text l (field_line l' s) = (if l = l' then Some s else field_text l [])"
  using read_line[of l l' s "[]"] by simp

lemma read_header: "is_word h \<Longrightarrow> field_text l (header_line h @ t) = field_text l t"
  by (rule field_text_header) (auto simp: is_word_def NL_def list_all_iff)

lemmas read_back = shows_values_def read_header read_line read_last_line is_word_def no_NL NL_letters read_unsigned read_dec

lemma log_fuse_context_reads:
  assumes "NL \<notin> set (fc_diskfile c)"
  shows "(\<exists>t. log_fuse_context c lg = Some (lg @ t) \<and> field_text ''diskfile'' t = Some (fc_diskfile c) \<and> shows_values t
      [(''fuse'', 16, arg_word 32 (fc_fuse c)), (''uid'', 10, arg_signed 32 (fc_uid c)),
       (''gid'', 10, arg_signed 32 (fc_gid c)), (''pid'', 10, arg_signed 32 (fc_pid c)),
       (''private_data'', 16, arg_word 32 (fc_private_data c)),
       (''logfile'', 16, arg_word 32 (fc_logfile c)), (''umask'', 8, arg_word 32 (fc_umask c))])"
  unfolding report_defs header_step
  using assms by (simp add: field_steps del: log_fields.simps(2)) (simp add: read_back)

lemma log_conn_reads:
  "(\<exists>t. log_conn c lg = Some (lg @ t) \<and> shows_values t
      [(''proto_major'', 10, arg_signed 32 (co_proto_major c)),
       (''proto_minor'', 10, arg_signed 32 (co_proto_minor c)),
       (''async_read'', 10, arg_signed 32 (co_async_read c)),
       (''max_write'', 10, arg_signed 32 (co_max_write c)),
       (''max_readahead'', 10, arg_signed 32 (co_max_readahead c)),
       (''capable'', 16, arg_word 32 (co_capable c)), (''want'', 16, arg_word 32 (co_want c))])"
  unfolding report_defs header_step
  by (simp add: field_steps del: log_fields.simps(2)) (simp add: read_back)

lemma log_fi_reads:
  "(\<exists>t. log_fi fi lg = Some (lg @ t) \<and> shows_values t
      [(''flags'', 16, arg_word 32 (fi_flags fi)), (''fh_old'', 16, arg_word 64 (fi_fh_old fi)),
       (''writepage'', 10, arg_signed 32 (fi_writepage fi)),
       (''direct_io'', 10, arg_signed 32 (fi_direct_io fi)),
       (''keep_cache'', 10, arg_signed 32 (fi_keep_cache fi)), (''fh'', 16, arg_word 64 (fi_fh fi)),
       (''lock_owner'', 16, arg_word 64 (fi_lock_owner fi))])"
  unfolding report_defs header_step
  by (simp add: field_steps del: log_fields.simps(2)) (simp add: read_back)

lemma log_stat_reads:
  "(\<exists>t. log_stat si lg = Some (lg @ t) \<and> shows_values t
      [(''st_dev'', 10, arg_signed 64 (si_dev si)), (''st_ino'', 10, arg_signed 64 (si_ino si)),
       (''st_mode'', 8, arg_word 32 (si_mode si)), (''st_nlink'', 10, arg_signed 32 (si_nlink si)),
       (''st_uid'', 10, arg_signed 32 (si_uid si)), (''st_gid'', 10, arg_signed 32 (si_gid si)),
       (''st_rdev'', 10, arg_signed 64 (si_rdev si)), (''st_size'', 10, arg_signed 64 (si_size si)),
       (''st_blksize'', 10, arg_signed 64 (si_blksize si)),
       (''st_blocks'', 10, arg_signed 64 (si_blocks si)), (''st_atime'', 16, arg_word 64 (si_atime si)),
       (''st_mtime'', 16, arg_word 64 (si_mtime si)), (''st_ctime'', 16, arg_word 64 (si_ctime si))])"
  unfolding report_defs header_step
  by (simp add: field_steps del: log_fields.simps(2)) (simp add: read_back)

lemma log_statvfs_reads:
  "(\<exists>t. log_statvfs sv lg = Some (lg @ t) \<and> shows_values t
      [(''f_bsize'', 10, arg_signed 64 (sv_bsize sv)), (''f_frsize'', 10, arg_signed 64 (sv_frsize sv)),
       (''f_blocks'', 10, arg_signed 64 (sv_blocks sv)), (''f_bfree'', 10, arg_signed 64 (sv_bfree sv)),
       (''f_bavail'', 10, arg_signed 64 (sv_bavail sv)), (''f_files'', 10, arg_signed 64 (sv_files sv)),
       (''f_ffree'', 10, arg_signed 64 (sv_ffree sv)), (''f_favail'', 10, arg_signed 64 (sv_favail sv)),
       (''f_fsid'', 10, arg_signed 64 (sv_fsid sv)), (''f_flag'', 16, arg_word 64 (sv_flag sv)),
       (''f_namemax'', 10, arg_signed 64 (sv_namemax sv))])"
  unfolding report_defs header_step
  by (simp add: field_steps del: log_fields.simps(2)) (simp add: read_back)

lemma log_utime_reads:
  "(\<exists>t. log_utime buf lg = Some (lg @ t) \<and> shows_values t
      [(''actime'', 16, arg_word 64 (ut_actime buf)), (''modtime'', 16, arg_word 64 (ut_modtime buf))])"
  unfolding report_defs header_step
  by (simp add: field_steps del: log_fields.simps(2)) (simp add: read_back)

text \<open>
  C32. Every report on a structure FUSE passes can be read back from the log: it appends its text to what the log holds,
  and the number a reader finds on the line of a field is the field's value, cut to the width of the conversion (32 bits,
  or 64 for \<open>%ld\<close>, \<open>%lx\<close> and longer) and signed for \<open>%d\<close>. The pointers of the context, printed by \<open>%08x\<close>, lose their
  upper half.
\<close>

theorem log_reports_readable:
  assumes "NL \<notin> set (fc_diskfile c)"
  shows "(\<exists>t. log_fuse_context c lg = Some (lg @ t) \<and> field_text ''diskfile'' t = Some (fc_diskfile c) \<and> shows_values t
      [(''fuse'', 16, arg_word 32 (fc_fuse c)), (''uid'', 10, arg_signed 32 (fc_uid c)),
       (''gid'', 10, arg_signed 32 (fc_gid c)), (''pid'', 10, arg_signed 32 (fc_pid c)),
       (''private_data'', 16, arg_word 32 (fc_private_data c)),
       (''logfile'', 16, arg_word 32 (fc_logfile c)), (''umask'', 8, arg_word 32 (fc_umask c))])
     \<and> (\<exists>t. log_conn ci lg = Some (lg @ t) \<and> shows_values t
      [(''proto_major'', 10, arg_signed 32 (co_proto_major ci)),
       (''proto_minor'', 10, arg_signed 32 (co_proto_minor ci)),
       (''async_read'', 10, arg_signed 32 (co_async_read ci)),
       (''max_write'', 10, arg_signed 32 (co_max_write ci)),
       (''max_readahead'', 10, arg_signed 32 (co_max_readahead ci)),
       (''capable'', 16, arg_word 32 (co_capable ci)), (''want'', 16, arg_word 32 (co_want ci))])
     \<and> (\<exists>t. log_fi fi lg = Some (lg @ t) \<and> shows_values t
      [(''flags'', 16, arg_word 32 (fi_flags fi)), (''fh_old'', 16, arg_word 64 (fi_fh_old fi)),
       (''writepage'', 10, arg_signed 32 (fi_writepage fi)),
       (''direct_io'', 10, arg_signed 32 (fi_direct_io fi)),
       (''keep_cache'', 10, arg_signed 32 (fi_keep_cache fi)), (''fh'', 16, arg_word 64 (fi_fh fi)),
       (''lock_owner'', 16, arg_word 64 (fi_lock_owner fi))])
     \<and> (\<exists>t. log_stat si lg = Some (lg @ t) \<and> shows_values t
      [(''st_dev'', 10, arg_signed 64 (si_dev si)), (''st_ino'', 10, arg_signed 64 (si_ino si)),
       (''st_mode'', 8, arg_word 32 (si_mode si)), (''st_nlink'', 10, arg_signed 32 (si_nlink si)),
       (''st_uid'', 10, arg_signed 32 (si_uid si)), (''st_gid'', 10, arg_signed 32 (si_gid si)),
       (''st_rdev'', 10, arg_signed 64 (si_rdev si)), (''st_size'', 10, arg_signed 64 (si_size si)),
       (''st_blksize'', 10, arg_signed 64 (si_blksize si)),
       (''st_blocks'', 10, arg_signed 64 (si_blocks si)), (''st_atime'', 16, arg_word 64 (si_atime si)),
       (''st_mtime'', 16, arg_word 64 (si_mtime si)), (''st_ctime'', 16, arg_word 64 (si_ctime si))])
     \<and> (\<exists>t. log_statvfs sv lg = Some (lg @ t) \<and> shows_values t
      [(''f_bsize'', 10, arg_signed 64 (sv_bsize sv)), (''f_frsize'', 10, arg_signed 64 (sv_frsize sv)),
       (''f_blocks'', 10, arg_signed 64 (sv_blocks sv)), (''f_bfree'', 10, arg_signed 64 (sv_bfree sv)),
       (''f_bavail'', 10, arg_signed 64 (sv_bavail sv)), (''f_files'', 10, arg_signed 64 (sv_files sv)),
       (''f_ffree'', 10, arg_signed 64 (sv_ffree sv)), (''f_favail'', 10, arg_signed 64 (sv_favail sv)),
       (''f_fsid'', 10, arg_signed 64 (sv_fsid sv)), (''f_flag'', 16, arg_word 64 (sv_flag sv)),
       (''f_namemax'', 10, arg_signed 64 (sv_namemax sv))])
     \<and> (\<exists>t. log_utime buf lg = Some (lg @ t) \<and> shows_values t
      [(''actime'', 16, arg_word 64 (ut_actime buf)), (''modtime'', 16, arg_word 64 (ut_modtime buf))])"
  by (intro conjI log_fuse_context_reads log_conn_reads log_fi_reads log_stat_reads log_statvfs_reads log_utime_reads assms)

theorem log_reports_readable_witness:
  "\<exists>t. log_fuse_context \<lparr>fc_fuse = 0x7F8812345678, fc_uid = 1000, fc_gid = 1000, fc_pid = -1, fc_private_data = 0,
     fc_logfile = 16, fc_diskfile = ''disk'', fc_umask = 18\<rparr> [] = Some t
   \<and> field_text ''diskfile'' t = Some ''disk''
   \<and> map_option (read_value 16) (field_text ''fuse'' t) = Some 0x12345678
   \<and> map_option (read_value 10) (field_text ''pid'' t) = Some (- 1)
   \<and> map_option (read_value 8) (field_text ''umask'' t) = Some 18"
  using log_reports_readable[of "\<lparr>fc_fuse = 0x7F8812345678, fc_uid = 1000, fc_gid = 1000, fc_pid = -1, fc_private_data = 0,
     fc_logfile = 16, fc_diskfile = ''disk'', fc_umask = 18\<rparr>" "[]", THEN conjunct1]
  by (auto simp: NL_def shows_values_def arg_word_def arg_signed_def)

end
