(* ===== verification/Spec2Isabelle.thy ===== *)
theory Spec2Isabelle
  imports FS_Faults FS_Session FS_Shapes FS_NoSpace FS_NoInode FS_PathTest FS_ListTests FS_Log
begin

text \<open>
  A verification library for \<open>sfs\<close>, a FUSE file system in C that keeps a whole file system in one host file. The code
  is the core under \<open>src/src/prelude/\<close> (\<open>err.c\<close>, \<open>block.c\<close>, \<open>free_block.c\<close>, \<open>inode.c\<close>, \<open>path.c\<close>, \<open>stream.c\<close>), the FUSE
  handlers in \<open>src/src/sfs.c\<close> and the log in \<open>src/src/log.c\<close>.

  \<^bold>\<open>The program.\<close> The device is a host file read and written in blocks of 512 bytes. The first 128 bytes of block 0 are the
  superblock (head and length of the free list); every free block holds the number of the next one. Blocks 0 to 1023 are
  also the inode table, four inodes of 128 bytes to a block, and block 1024 is the bitmap of the free inodes. A node has up to
  260 pages, which are inodes themselves: four single pages and four double pages of 64. Directory entries and the
  block numbers of a file are one sequence, stored in the inode and its pages, and the code always loads a whole sequence
  into a static array, changes it there and stores it (\<open>_listing\<close>, \<open>_listing_set\<close>). Handlers find inodes by path, and
  errors below them are left in a global cell (\<open>errno_push\<close>, \<open>errno_pop\<close>).

  \<^bold>\<open>The model.\<close> One theory for each part; names are those of the source.
  \<^item> \<open>FS_Prelude\<close>: memory as byte lists with reads and writes at an offset, little-endian integers, loops.
    \<open>FS_CString\<close>: strings as the bytes readable behind a pointer; what reads past them is \<open>None\<close>.
  \<^item> \<open>FS_Block\<close>: \<open>err.c\<close>, \<open>block.c\<close>. The host file is a function from block numbers to 512 bytes, with length and descriptor.
  \<^item> \<open>FS_FreeBlock\<close>: \<open>free_block.c\<close> on the bytes of the superblock and the links; \<open>free_list\<close> is the list they stand for.
  \<^item> \<open>FS_Inode\<close>, \<open>FS_Bitmap\<close>, \<open>FS_Listing\<close>, \<open>FS_Dir\<close>: \<open>inode.h\<close> and \<open>inode.c\<close>. The union \<open>inode_t\<close> is its 128 bytes and its members are
    views of them; \<open>free_inodes\<close> is the set of the bitmap. The two listing functions, which the source writes out for
    directories and files, are one definition over the kind of the node.
  \<^item> \<open>FS_Path\<close>: \<open>path.c\<close>. \<open>FS_Stream\<close>: \<open>stream.c\<close>. \<open>FS_Handlers\<close>: \<open>sfs.c\<close>, with the operation table as \<open>sfs_oper\<close>.
    \<open>FS_Log\<close>: \<open>log.c\<close>, the conversions of \<open>printf\<close> its reports use, and what a reader of the log finds in them.
  The state \<open>fs\<close> is passed explicitly and includes the static buffers. A function that runs into undefined behaviour (an
  array index out of bounds, an overflowing string copy, a signed overflow) is \<open>None\<close>; errors of the program are values.

  \<^bold>\<open>What is proved.\<close>
  \<^item> \<open>FS_Pool\<close> states the interface of the allocators as locales (\<open>id_pool\<close>, and \<open>id_stack\<close> with the order); the free list and
    the bitmap interpret them. \<open>FS_Mount\<close>: the invariant \<open>fs_ok\<close> of a mounted device, established by formatting.
  \<^item> \<open>FS_Nodes\<close>, \<open>FS_NodeSet\<close>, \<open>FS_Resize\<close>, \<open>FS_Contract\<close>: reading a listing is the concatenation of the pages (\<open>node_bytes\<close>); storing
    one takes and frees exactly the pages it needs (\<open>resized\<close>) and changes no other node. \<open>FS_PageOrder\<close>: which inodes a growing
    listing takes, and in which order. \<open>FS_Entries\<close>: adding and removing entries as list operations. \<open>FS_Attributes\<close>: attributes and entries by index.
  \<^item> \<open>FS_Lookup\<close>: path resolution is a walk over components. \<open>FS_Files\<close>, \<open>FS_FileWrite\<close>, \<open>FS_FileSpec\<close>: files as byte strings
    (\<open>content\<close>). \<open>FS_NewNode\<close>, \<open>FS_Create\<close>, \<open>FS_Unlink\<close>, \<open>FS_Rmdir\<close>, \<open>FS_Truncate\<close>, \<open>FS_Requests\<close>: the handlers one by one.
  \<^item> \<open>FS_Tree\<close>: the invariant \<open>tree K s\<close> over all nodes, \<open>K\<close> being the kinds of the inodes in use: nodes share no inode and no
    block, every entry leads to a node, a file has one entry, every data block is free or in a file. \<open>abs_fs\<close> maps a state to
    directories as association lists and files as byte strings. \<open>FS_Refine\<close>, \<open>FS_Session\<close>: the requests implement the
    transition relation \<open>a_oper\<close> over that abstraction, and sessions of them keep the invariant.
  \<^item> \<open>FS_Shapes\<close>: whatever the device holds and whatever is asked, the static buffers keep their sizes (\<open>shaped\<close>); a rule per
    operation, over \<open>pred_option\<close> as the weakest precondition of a function that may not return.
  \<^item> \<open>FS_Faults\<close>: mounting, and what the code does at its limits. \<open>FS_NoSpace\<close>: a write during which the device runs full. \<open>FS_NoInode\<close>:
    creating a node when no inode is free.
  \<^item> \<open>FS_UnitTests\<close>, \<open>FS_ListTests\<close>, \<open>FS_PathTest\<close>: tests of \<open>prelude/main.c\<close> as programs over the model, and that they pass on any
    device and for any random bytes.

  \<^bold>\<open>Bounds and assumptions.\<close> The device has 32768 blocks and the bitmap scan covers 1024 inodes. \<open>free_list\<close> follows the links with
  fuel 32768, enough because the blocks of a list are different (\<open>valid_list_short\<close>). \<open>calloc\<close> succeeds, writes to the host
  file succeed, integers are little-endian and \<open>int\<close> has 32 bits. Byte offsets of blocks are computed in \<open>int\<close> as the source
  does. What the locals hold before they are set is an argument (\<open>uninit\<close>, the buffer of \<open>sfs_mkdir\<close>).

  \<^bold>\<open>Not modelled.\<close> The FUSE library and its header, the rest of \<open>printf\<close>, the calls of the log in the handlers, \<open>main\<close> beyond its arguments, the
  runner of the unit tests and the build system; of the unit tests \<open>test_dnode_add_rm\<close>, which passes or fails by
  what \<open>rand()\<close> yields, and \<open>test_stream_io\<close>, which uses block numbers as inode numbers. The requests \<open>served\<close>
  by the refinement truncate within the blocks of a file and remove a directory no other directory names: a file grown by \<open>sfs_truncate\<close> is
  mapped to the superblock, and a directory below a removed one would keep a dangling entry. They leave out writes that leave a
  gap, and requests the device has no room for; of those a write is in \<open>FS_NoSpace\<close>.
\<close>

end
